(* ===== verification/Prelude.thy ===== *)
theory Prelude
  imports Main "HOL-Library.Word"
begin

text \<open>
  The vocabulary every component of the development shares: the machine types of the
  C sources, the outcome of a kernel routine that may panic, sleep or loop, byte arrays
  with the two ways C code touches them (read a slice, overwrite a slice), and the
  little-endian layout of integers in memory. Nothing here models a particular source
  file; the lemmas are the ones that the component theories use through the simplifier.
\<close>

unbundle bit_operations_syntax

section \<open>Machine types\<close>

type_synonym byte = "8 word"
type_synonym ushort = "16 word"
type_synonym uint = "32 word"
type_synonym ulong = "64 word"

text \<open>A read-only C pointer: the byte found at each offset from it.\<close>

type_synonym cptr = "nat \<Rightarrow> byte"

text \<open>A flat 32-bit address space.\<close>

type_synonym mem = "uint \<Rightarrow> byte"

named_theorems kres_simps \<open>how outcomes of kernel routines compose\<close>
named_theorems array_simps \<open>slices of byte arrays and their updates\<close>
named_theorems word_facts \<open>reading 32-bit results as natural numbers\<close>

section \<open>Outcomes of kernel routines\<close>

text \<open>
  A routine returns a value, calls \<open>panic\<close> with a message, would put the calling process
  to sleep, enters a loop that never ends, or leaves the C language (an access outside
  an array).
\<close>

datatype 'a kres = Ok 'a | Panic string | Sleeps | Diverges | Undefined

primrec kbind :: "'a kres \<Rightarrow> ('a \<Rightarrow> 'b kres) \<Rightarrow> 'b kres" where
  "kbind (Ok x) f = f x"
| "kbind (Panic msg) f = Panic msg"
| "kbind Sleeps f = Sleeps"
| "kbind Diverges f = Diverges"
| "kbind Undefined f = Undefined"

text \<open>A search loop written with \<open>partial_function\<close>: \<open>None\<close> is the loop that never ends.\<close>

definition of_loop :: "'a option \<Rightarrow> 'a kres" where
  "of_loop r = (case r of None \<Rightarrow> Diverges | Some x \<Rightarrow> Ok x)"

lemma of_loop_Some [simp]: "of_loop (Some x) = Ok x"
  by (simp add: of_loop_def)

lemma kbind_eq_Ok [kres_simps]: "kbind m f = Ok y \<longleftrightarrow> (\<exists>x. m = Ok x \<and> f x = Ok y)"
  by (cases m) auto

lemma kbind_Ok_right [simp]: "kbind m Ok = m"
  by (cases m) auto

lemma kbind_assoc [kres_simps]: "kbind (kbind m f) g = kbind m (\<lambda>x. kbind (f x) g)"
  by (cases m) auto

lemma kbind_cong [fundef_cong]: "m = m' \<Longrightarrow> (\<And>x. m' = Ok x \<Longrightarrow> f x = g x) \<Longrightarrow> kbind m f = kbind m' g"
  by (cases m') auto

lemma kbind_OkE:
  assumes "kbind m f = Ok y"
  obtains x where "m = Ok x" and "f x = Ok y"
  using assms by (auto simp: kres_simps)

text \<open>The loop \<open>for(i = lo; i < lo + k; i++) body\<close> over a state.\<close>

primrec kfor :: "nat \<Rightarrow> (nat \<Rightarrow> 's \<Rightarrow> 's kres) \<Rightarrow> nat \<Rightarrow> 's \<Rightarrow> 's kres" where
  "kfor 0 body i s = Ok s"
| "kfor (Suc k) body i s = kbind (body i s) (kfor k body (Suc i))"

text \<open>
  The rule for such loops: a body that succeeds under the invariant and re-establishes it
  for the next index makes the whole loop succeed.
\<close>

lemma kfor_rule:
  assumes "I lo s"
    and "\<And>i s. lo \<le> i \<Longrightarrow> i < lo + k \<Longrightarrow> I i s \<Longrightarrow> \<exists>s'. body i s = Ok s' \<and> I (Suc i) s'"
  shows "\<exists>s'. kfor k body lo s = Ok s' \<and> I (lo + k) s'"
  using assms
proof (induction k arbitrary: lo s)
  case 0
  then show ?case by simp
next
  case (Suc k)
  from Suc.prems(1) Suc.prems(2) [of lo s] obtain s1
    where s1: "body lo s = Ok s1" "I (Suc lo) s1" by auto
  have "\<exists>s'. kfor k body (Suc lo) s1 = Ok s' \<and> I (Suc lo + k) s'"
    by (rule Suc.IH [OF s1(2)]) (use Suc.prems(2) in auto)
  with s1 show ?case by simp
qed

section \<open>Byte arrays\<close>

definition slice :: "nat \<Rightarrow> nat \<Rightarrow> 'a list \<Rightarrow> 'a list" where
  "slice off len xs = take len (drop off xs)"

definition splice :: "nat \<Rightarrow> 'a list \<Rightarrow> 'a list \<Rightarrow> 'a list" where
  "splice off ys xs = take off xs @ ys @ drop (off + length ys) xs"

lemma length_splice [simp]: "off + length ys \<le> length xs \<Longrightarrow> length (splice off ys xs) = length xs"
  by (simp add: splice_def)

lemma length_slice [simp]: "length (slice off len xs) = min len (length xs - off)"
  by (simp add: slice_def)

lemma slice_all [simp]: "slice 0 (length xs) xs = xs"
  by (simp add: slice_def)

lemma nth_slice [array_simps]: "i < len \<Longrightarrow> off + len \<le> length xs \<Longrightarrow> slice off len xs ! i = xs ! (off + i)"
  by (simp add: slice_def)

lemma nth_splice [array_simps]:
  "off + length ys \<le> length xs \<Longrightarrow> i < length xs \<Longrightarrow>
   splice off ys xs ! i = (if off \<le> i \<and> i < off + length ys then ys ! (i - off) else xs ! i)"
  by (auto simp: splice_def nth_append min_def not_less)

lemma slice_splice_same [array_simps]:
  "off + length ys \<le> length xs \<Longrightarrow> slice off (length ys) (splice off ys xs) = ys"
  by (simp add: slice_def splice_def)

lemma slice_splice_before [array_simps]:
  "a + len \<le> off \<Longrightarrow> off + length ys \<le> length xs \<Longrightarrow> slice a len (splice off ys xs) = slice a len xs"
  by (rule nth_equalityI) (auto simp: array_simps)

lemma slice_splice_after [array_simps]:
  "off + length ys \<le> a \<Longrightarrow> a + len \<le> length xs \<Longrightarrow> slice a len (splice off ys xs) = slice a len xs"
  by (rule nth_equalityI) (auto simp: array_simps)

lemma splice_slice_same [array_simps]:
  "off + len \<le> length xs \<Longrightarrow> splice off (slice off len xs) xs = xs"
  by (rule nth_equalityI) (auto simp: array_simps)

lemma splice_full [array_simps]: "length ys = length xs \<Longrightarrow> splice 0 ys xs = ys"
  by (simp add: splice_def)

lemma splice_Nil [simp]: "splice off [] xs = xs"
  by (simp add: splice_def)

lemma slice_append_slices:
  "slice off (a + b) xs = slice off a xs @ slice (off + a) b xs"
  by (simp add: slice_def take_add add.commute)

section \<open>Little-endian integers\<close>

fun le_enc :: "nat \<Rightarrow> nat \<Rightarrow> byte list" where
  "le_enc 0 v = []"
| "le_enc (Suc k) v = of_nat (v mod 256) # le_enc k (v div 256)"

fun le_dec :: "byte list \<Rightarrow> nat" where
  "le_dec [] = 0"
| "le_dec (b # bs) = unat b + 256 * le_dec bs"

lemma length_le_enc [simp]: "length (le_enc k v) = k"
  by (induction k v rule: le_enc.induct) auto

lemma unat_byte_of_mod [simp]: "unat (of_nat (v mod 256) :: byte) = v mod 256"
  by (simp add: unat_of_nat)

lemma le_dec_enc: "le_dec (le_enc k v) = v mod 256 ^ k"
proof (induction k arbitrary: v)
  case 0
  then show ?case by simp
next
  case (Suc k)
  have "v mod (256 * 256 ^ k) = 256 * (v div 256 mod 256 ^ k) + v mod 256"
    by (rule mod_mult2_eq)
  with Suc show ?case by simp
qed

lemma unat_byte_less [simp]: "unat (b :: byte) < 256"
  using unsigned_less [of b] by simp

lemma le_enc_dec: "le_enc (length bs) (le_dec bs) = bs"
proof (induction bs)
  case Nil
  then show ?case by simp
next
  case (Cons b bs)
  have "(unat b + 256 * le_dec bs) mod 256 = unat b"
    by simp
  moreover have "(unat b + 256 * le_dec bs) div 256 = le_dec bs"
    by simp
  ultimately show ?case using Cons by simp
qed

lemma le_dec_less: "le_dec bs < 256 ^ length bs"
proof -
  have "le_dec bs = le_dec (le_enc (length bs) (le_dec bs))"
    by (simp add: le_enc_dec)
  also have "\<dots> < 256 ^ length bs"
    by (simp add: le_dec_enc)
  finally show ?thesis .
qed

section \<open>Reading 32-bit words as naturals\<close>

lemma unat_add_u32 [word_facts]:
  "unat (a :: uint) + unat b < 4294967296 \<Longrightarrow> unat (a + b) = unat a + unat b"
  by (simp add: unat_word_ariths)

lemma unat_uint_less [simp]: "unat (a :: uint) < 4294967296"
  using unsigned_less [of a] by simp

lemma unat_sub_u32 [word_facts]: "b \<le> a \<Longrightarrow> unat (a - b :: uint) = unat a - unat b"
  by (rule unat_sub)

lemma unat_of_nat_u32 [word_facts]: "n < 4294967296 \<Longrightarrow> unat (of_nat n :: uint) = n"
  by (simp add: unat_of_nat)

text \<open>C's \<open>unsigned int\<close> and \<open>int\<close> as four bytes of memory.\<close>

definition enc_u32 :: "uint \<Rightarrow> byte list" where
  "enc_u32 w = le_enc 4 (unat w)"

definition dec_u32 :: "byte list \<Rightarrow> uint" where
  "dec_u32 bs = of_nat (le_dec bs)"

lemma length_enc_u32 [simp]: "length (enc_u32 w) = 4"
  by (simp add: enc_u32_def)

lemma dec_enc_u32 [simp]: "dec_u32 (enc_u32 w) = w"
proof -
  have "unat w mod 256 ^ 4 = unat w"
    by simp
  then show ?thesis by (simp add: dec_u32_def enc_u32_def le_dec_enc)
qed

lemma enc_dec_u32: "length bs = 4 \<Longrightarrow> enc_u32 (dec_u32 bs) = bs"
  using le_dec_less [of bs] le_enc_dec [of bs]
  by (simp add: dec_u32_def enc_u32_def unat_of_nat)

section \<open>Linked structures\<close>

text \<open>
  \<open>chain f a xs z\<close>: following \<open>f\<close> from \<open>a\<close> visits \<open>xs\<close> in order and then reaches \<open>z\<close>.
  \<open>dll h nx pv xs\<close>: \<open>nx\<close> and \<open>pv\<close> are the links of a circular doubly-linked list with the
  sentinel \<open>h\<close> and the nodes \<open>xs\<close>.
\<close>

fun chain :: "(nat \<Rightarrow> nat) \<Rightarrow> nat \<Rightarrow> nat list \<Rightarrow> nat \<Rightarrow> bool" where
  "chain f a [] z \<longleftrightarrow> f a = z"
| "chain f a (x # xs) z \<longleftrightarrow> f a = x \<and> chain f x xs z"

lemma chain_append: "chain f a (xs @ y # ys) z \<longleftrightarrow> chain f a xs y \<and> chain f y ys z"
  by (induction xs arbitrary: a) auto

lemma chain_upd_other: "u \<notin> set (a # xs) \<Longrightarrow> chain (f(u := v)) a xs z \<longleftrightarrow> chain f a xs z"
  by (induction xs arbitrary: a) auto

lemma chain_upd_last:
  "distinct (a # xs) \<Longrightarrow> chain f a xs z \<Longrightarrow> chain (f(last (a # xs) := w)) a xs w"
  by (induction xs arbitrary: a) auto

lemma chain_succ: "chain f a (us @ b # vs) z \<Longrightarrow> f b = hd (vs @ [z])"
  by (cases vs) (auto simp: chain_append)

lemma chain_remove:
  assumes "distinct (a # us @ b # vs)" and "chain f a (us @ b # vs) a"
  shows "chain (f(last (a # us) := f b)) a (us @ vs) a"
proof -
  from assms(2) have us: "chain f a us b" and vs: "chain f b vs a"
    by (simp_all add: chain_append)
  have d: "distinct (a # us)" using assms(1) by auto
  show ?thesis
  proof (cases vs)
    case Nil
    with vs have "f b = a" by simp
    with Nil chain_upd_last [OF d us] show ?thesis by simp
  next
    case (Cons v ws)
    with vs have "f b = v" and ws: "chain f v ws a" by auto
    moreover have "last (a # us) \<notin> set (v # ws)"
      using assms(1) Cons by (cases us rule: rev_cases) auto
    ultimately show ?thesis
      using chain_upd_last [OF d us] Cons by (simp add: chain_append chain_upd_other)
  qed
qed

lemma chain_insert_front:
  assumes "distinct (a # b # xs)" and "chain f a xs a"
  shows "chain (f(b := f a, a := b)) a (b # xs) a"
  using assms by (cases xs) (auto simp: chain_upd_other)

definition dll :: "nat \<Rightarrow> (nat \<Rightarrow> nat) \<Rightarrow> (nat \<Rightarrow> nat) \<Rightarrow> nat list \<Rightarrow> bool" where
  "dll h nx pv xs \<longleftrightarrow> distinct (h # xs) \<and> chain nx h xs h \<and> chain pv h (rev xs) h"

lemma dll_succ: "dll h nx pv (us @ b # vs) \<Longrightarrow> nx b = hd (vs @ [h])"
  by (auto simp: dll_def dest: chain_succ)

lemma dll_pred: "dll h nx pv (us @ b # vs) \<Longrightarrow> pv b = last (h # us)"
proof -
  assume "dll h nx pv (us @ b # vs)"
  then have "chain pv h (rev vs @ b # rev us) h" by (simp add: dll_def)
  then have "pv b = hd (rev us @ [h])" by (rule chain_succ)
  then show ?thesis by (cases us rule: rev_cases) auto
qed

lemma dll_first: "dll h nx pv xs \<Longrightarrow> nx h = hd (xs @ [h])"
  by (cases xs) (auto simp: dll_def)

lemma dll_remove:
  assumes "dll h nx pv (us @ b # vs)"
  shows "dll h (nx(pv b := nx b)) (pv(nx b := pv b)) (us @ vs)"
proof -
  have nx: "chain (nx(last (h # us) := nx b)) h (us @ vs) h"
    by (rule chain_remove) (use assms in \<open>auto simp: dll_def\<close>)
  have "chain (pv(last (h # rev vs) := pv b)) h (rev vs @ rev us) h"
    by (rule chain_remove) (use assms in \<open>auto simp: dll_def\<close>)
  moreover have "last (h # rev vs) = nx b"
    using dll_succ [OF assms] by (cases vs) auto
  ultimately show ?thesis
    using nx dll_pred [OF assms] assms by (auto simp: dll_def)
qed

lemma dll_insert_front:
  assumes "dll h nx pv xs" and "b \<notin> set xs" and "b \<noteq> h"
  shows "dll h (nx(b := nx h, h := b)) (pv(b := h, nx h := b)) (b # xs)"
proof -
  have "chain (nx(b := nx h, h := b)) h (b # xs) h"
    by (rule chain_insert_front) (use assms in \<open>auto simp: dll_def\<close>)
  moreover have "chain (pv(b := h, nx h := b)) h (rev xs @ [b]) h"
  proof -
    have l: "nx h = last (h # rev xs)"
      using dll_first [OF assms(1)] by (cases xs) auto
    have "chain (pv(b := h)) h (rev xs) h"
      using assms by (simp add: dll_def chain_upd_other)
    then have "chain (pv(b := h, nx h := b)) h (rev xs) b"
      unfolding l by (rule chain_upd_last [rotated]) (use assms in \<open>auto simp: dll_def\<close>)
    moreover have "nx h \<noteq> b"
      using l assms(2,3) by (cases xs) auto
    ultimately show ?thesis by (simp add: chain_append)
  qed
  ultimately show ?thesis using assms by (auto simp: dll_def)
qed

end
