(* ===== verification/Xv6_Bio.thy ===== *)
theory Xv6_Bio
  imports Prelude
begin

text \<open>
  The buffer cache of the kernel (\<open>bio.c\<close>, \<open>buf.h\<close>), the sleep locks on its buffers
  (\<open>sleeplock.c\<close>) and the disk below it (\<open>memide.c\<close>, the driver that keeps the disk
  image in memory). The cache is the array of \<open>struct buf\<close> of the source with its circular
  doubly-linked list kept as \<open>prev\<close>/\<open>next\<close> pointers; a pointer to a buffer is the index of the
  buffer, and \<open>BHEAD\<close> is the index that stands for \<open>&bcache.head\<close>. A call that has to wait for a sleep
  lock is \<open>Sleeps\<close>, without a state: the reference it has already counted on the buffer is not seen by others.

  The lemmas show that the pointer updates of \<open>brelse\<close> and \<open>binit\<close> implement a
  move-to-front list, that the cache never holds two buffers for a block, and that what a
  client reads through \<open>bread\<close> is the last value written for that block.
\<close>

section \<open>Constants and data\<close>

definition BSIZE :: nat where "BSIZE = 512"
definition NBUF :: nat where "NBUF = 30"
definition BHEAD :: nat where "BHEAD = NBUF"
definition B_VALID :: uint where "B_VALID = 2"
definition B_DIRTY :: uint where "B_DIRTY = 4"

record sleeplock =
  sl_locked :: uint
  sl_pid :: int

record buf =
  b_flags :: uint
  b_dev :: uint
  b_blockno :: uint
  b_lock :: sleeplock
  b_refcnt :: uint
  b_prev :: nat
  b_next :: nat
  b_data :: "byte list"

text \<open>
  The disk of \<open>memide.c\<close>: \<open>memdisk d n\<close> is the block of \<open>BSIZE\<close> bytes at
  \<open>memdisk + n*BSIZE\<close>. The field \<open>dwrites\<close> is not in the source: it records, in order, the
  block writes that reached the disk, and is only read by statements about crashes.
\<close>

record kdisk =
  disksize :: uint
  memdisk :: "uint \<Rightarrow> byte list"
  dwrites :: "(uint \<times> byte list) list"

record bcache =
  bufs :: "nat \<Rightarrow> buf"
  disk :: kdisk

definition upd_buf :: "nat \<Rightarrow> (buf \<Rightarrow> buf) \<Rightarrow> bcache \<Rightarrow> bcache" where
  "upd_buf b f c = c\<lparr>bufs := (bufs c)(b := f (bufs c b))\<rparr>"

section \<open>Sleep locks\<close>

definition initsleeplock :: sleeplock where
  "initsleeplock = \<lparr>sl_locked = 0, sl_pid = 0\<rparr>"

definition acquiresleep :: "int \<Rightarrow> sleeplock \<Rightarrow> sleeplock kres" where
  "acquiresleep pid lk = (if sl_locked lk \<noteq> 0 then Sleeps else Ok \<lparr>sl_locked = 1, sl_pid = pid\<rparr>)"

definition releasesleep :: "sleeplock \<Rightarrow> sleeplock" where
  "releasesleep lk = lk\<lparr>sl_locked := 0, sl_pid := 0\<rparr>"

definition holdingsleep :: "int \<Rightarrow> sleeplock \<Rightarrow> bool" where
  "holdingsleep pid lk \<longleftrightarrow> sl_locked lk \<noteq> 0 \<and> sl_pid lk = pid"

section \<open>The disk driver\<close>

definition disk_write :: "uint \<Rightarrow> byte list \<Rightarrow> kdisk \<Rightarrow> kdisk" where
  "disk_write n v d = d\<lparr>memdisk := (memdisk d)(n := v), dwrites := dwrites d @ [(n, v)]\<rparr>"

definition iderw :: "int \<Rightarrow> nat \<Rightarrow> bcache \<Rightarrow> bcache kres" where
  "iderw pid b c =
    (let x = bufs c b in
     if \<not> holdingsleep pid (b_lock x) then Panic ''iderw: buf not locked''
     else if b_flags x AND (B_VALID OR B_DIRTY) = B_VALID then Panic ''iderw: nothing to do''
     else if b_dev x \<noteq> 1 then Panic ''iderw: request not for disk 1''
     else if b_blockno x \<ge> disksize (disk c) then Panic ''iderw: block out of range''
     else if b_flags x AND B_DIRTY \<noteq> 0 then
       Ok (upd_buf b (\<lambda>x. x\<lparr>b_flags := (b_flags x AND NOT B_DIRTY) OR B_VALID\<rparr>)
            (c\<lparr>disk := disk_write (b_blockno x) (b_data x) (disk c)\<rparr>))
     else
       Ok (upd_buf b (\<lambda>x. x\<lparr>b_data := memdisk (disk c) (b_blockno x),
                             b_flags := b_flags x OR B_VALID\<rparr>) c))"

section \<open>The cache\<close>

definition set_next :: "nat \<Rightarrow> nat \<Rightarrow> (nat \<Rightarrow> buf) \<Rightarrow> nat \<Rightarrow> buf" where
  "set_next i v bs = bs(i := (bs i)\<lparr>b_next := v\<rparr>)"

definition set_prev :: "nat \<Rightarrow> nat \<Rightarrow> (nat \<Rightarrow> buf) \<Rightarrow> nat \<Rightarrow> buf" where
  "set_prev i v bs = bs(i := (bs i)\<lparr>b_prev := v\<rparr>)"

text \<open>One round of the loop of \<open>binit\<close>: buffer \<open>b\<close> is inserted behind the list head.\<close>

definition binit_insert :: "nat \<Rightarrow> (nat \<Rightarrow> buf) \<Rightarrow> nat \<Rightarrow> buf" where
  "binit_insert b bs =
    (let bs = set_next b (b_next (bs BHEAD)) bs;
         bs = set_prev b BHEAD bs;
         bs = bs(b := (bs b)\<lparr>b_lock := initsleeplock\<rparr>);
         bs = set_prev (b_next (bs BHEAD)) b bs
     in set_next BHEAD b bs)"

definition binit :: "bcache \<Rightarrow> bcache" where
  "binit c =
    (let bs = set_next BHEAD BHEAD (set_prev BHEAD BHEAD (bufs c))
     in c\<lparr>bufs := fold binit_insert [0..<NBUF] bs\<rparr>)"

text \<open>The two searches of \<open>bget\<close>, following \<open>next\<close> and \<open>prev\<close> until the head is met.\<close>

partial_function (option) bget_lookup ::
    "(nat \<Rightarrow> buf) \<Rightarrow> uint \<Rightarrow> uint \<Rightarrow> nat \<Rightarrow> nat option option" where
  "bget_lookup bs d n b =
    (if b = BHEAD then Some None
     else if b_dev (bs b) = d \<and> b_blockno (bs b) = n then Some (Some b)
     else bget_lookup bs d n (b_next (bs b)))"

partial_function (option) bget_victim :: "(nat \<Rightarrow> buf) \<Rightarrow> nat \<Rightarrow> nat option option" where
  "bget_victim bs b =
    (if b = BHEAD then Some None
     else if b_refcnt (bs b) = 0 \<and> b_flags (bs b) AND B_DIRTY = 0 then Some (Some b)
     else bget_victim bs (b_prev (bs b)))"

definition bget :: "int \<Rightarrow> uint \<Rightarrow> uint \<Rightarrow> bcache \<Rightarrow> (nat \<times> bcache) kres" where
  "bget pid d n c =
    kbind (of_loop (bget_lookup (bufs c) d n (b_next (bufs c BHEAD)))) (\<lambda>found.
      case found of
        Some b \<Rightarrow>
          kbind (acquiresleep pid (b_lock (bufs c b))) (\<lambda>lk.
            Ok (b, upd_buf b (\<lambda>x. x\<lparr>b_refcnt := b_refcnt x + 1, b_lock := lk\<rparr>) c))
      | None \<Rightarrow>
          kbind (of_loop (bget_victim (bufs c) (b_prev (bufs c BHEAD)))) (\<lambda>victim.
            case victim of
              None \<Rightarrow> Panic ''bget: no buffers''
            | Some b \<Rightarrow>
                kbind (acquiresleep pid (b_lock (bufs c b))) (\<lambda>lk.
                  Ok (b, upd_buf b (\<lambda>x. x\<lparr>b_dev := d, b_blockno := n, b_flags := 0,
                                         b_refcnt := 1, b_lock := lk\<rparr>) c))))"

definition bread :: "int \<Rightarrow> uint \<Rightarrow> uint \<Rightarrow> bcache \<Rightarrow> (nat \<times> bcache) kres" where
  "bread pid d n c =
    kbind (bget pid d n c) (\<lambda>(b, c).
      if b_flags (bufs c b) AND B_VALID = 0 then kbind (iderw pid b c) (\<lambda>c. Ok (b, c))
      else Ok (b, c))"

definition bwrite :: "int \<Rightarrow> nat \<Rightarrow> bcache \<Rightarrow> bcache kres" where
  "bwrite pid b c =
    (if \<not> holdingsleep pid (b_lock (bufs c b)) then Panic ''bwrite''
     else iderw pid b (upd_buf b (\<lambda>x. x\<lparr>b_flags := b_flags x OR B_DIRTY\<rparr>) c))"

text \<open>The six pointer assignments of \<open>brelse\<close>, in the order of the source.\<close>

definition brelse_move :: "nat \<Rightarrow> (nat \<Rightarrow> buf) \<Rightarrow> nat \<Rightarrow> buf" where
  "brelse_move b bs =
    (let bs = set_prev (b_next (bs b)) (b_prev (bs b)) bs;
         bs = set_next (b_prev (bs b)) (b_next (bs b)) bs;
         bs = set_next b (b_next (bs BHEAD)) bs;
         bs = set_prev b BHEAD bs;
         bs = set_prev (b_next (bs BHEAD)) b bs
     in set_next BHEAD b bs)"

definition brelse :: "int \<Rightarrow> nat \<Rightarrow> bcache \<Rightarrow> bcache kres" where
  "brelse pid b c =
    (if \<not> holdingsleep pid (b_lock (bufs c b)) then Panic ''brelse''
     else
       (let c = upd_buf b (\<lambda>x. x\<lparr>b_lock := releasesleep (b_lock x)\<rparr>) c;
            c = upd_buf b (\<lambda>x. x\<lparr>b_refcnt := b_refcnt x - 1\<rparr>) c
        in Ok (if b_refcnt (bufs c b) = 0 then c\<lparr>bufs := brelse_move b (bufs c)\<rparr> else c)))"

text \<open>A client's store into the data of a buffer it holds.\<close>

definition set_data :: "nat \<Rightarrow> byte list \<Rightarrow> bcache \<Rightarrow> bcache" where
  "set_data b v c = upd_buf b (\<lambda>x. x\<lparr>b_data := v\<rparr>) c"

subsection \<open>Flag bits\<close>

abbreviation bvalid :: "buf \<Rightarrow> bool" where
  "bvalid x \<equiv> bit (b_flags x) (Suc 0)"

abbreviation bdirty :: "buf \<Rightarrow> bool" where
  "bdirty x \<equiv> bit (b_flags x) 2"

lemma flag_facts [simp]:
  fixes f :: uint
  shows "(f AND B_VALID = 0) \<longleftrightarrow> \<not> bit f (Suc 0)"
    and "(f AND B_DIRTY = 0) \<longleftrightarrow> \<not> bit f 2"
    and "bit (f OR B_VALID) (Suc 0)" and "bit (f OR B_VALID) 2 \<longleftrightarrow> bit f 2"
    and "bit (f OR B_DIRTY) 2" and "bit (f OR B_DIRTY) (Suc 0) \<longleftrightarrow> bit f (Suc 0)"
    and "\<not> bit ((f AND NOT B_DIRTY) OR B_VALID) 2"
    and "bit ((f AND NOT B_DIRTY) OR B_VALID) (Suc 0)"
    and "\<not> bit (f AND NOT B_DIRTY) 2"
  using and_exp_eq_0_iff_not_bit [of f 1] and_exp_eq_0_iff_not_bit [of f 2]
  by (simp_all add: B_VALID_def B_DIRTY_def bit_simps)

lemma flag_mask [simp]: "(f :: uint) AND (B_VALID OR B_DIRTY) = B_VALID \<longleftrightarrow> bit f (Suc 0) \<and> \<not> bit f 2"
proof
  assume *: "f AND (B_VALID OR B_DIRTY) = B_VALID"
  have "bit (f AND (B_VALID OR B_DIRTY)) (Suc 0)" "\<not> bit (f AND (B_VALID OR B_DIRTY)) 2"
    unfolding * by (simp_all add: B_VALID_def)
  then show "bit f (Suc 0) \<and> \<not> bit f 2" by (simp add: bit_simps B_VALID_def B_DIRTY_def)
next
  assume *: "bit f (Suc 0) \<and> \<not> bit f 2"
  show "f AND (B_VALID OR B_DIRTY) = B_VALID"
  proof (rule bit_word_eqI)
    fix n :: nat
    have v: "B_VALID = 2 ^ 1" and d: "B_DIRTY = 2 ^ 2" by (simp_all add: B_VALID_def B_DIRTY_def)
    show "bit (f AND (B_VALID OR B_DIRTY)) n = bit B_VALID n"
      unfolding v d bit_and_iff bit_or_iff bit_exp_iff using * by auto
  qed
qed

subsection \<open>The list of buffers\<close>

abbreviation nextf :: "(nat \<Rightarrow> buf) \<Rightarrow> nat \<Rightarrow> nat" where
  "nextf bs \<equiv> \<lambda>i. b_next (bs i)"

abbreviation prevf :: "(nat \<Rightarrow> buf) \<Rightarrow> nat \<Rightarrow> nat" where
  "prevf bs \<equiv> \<lambda>i. b_prev (bs i)"

definition blist :: "(nat \<Rightarrow> buf) \<Rightarrow> nat list \<Rightarrow> bool" where
  "blist bs xs \<longleftrightarrow> dll BHEAD (nextf bs) (prevf bs) xs"

lemma link_at [simp]:
  "b_next (set_next i v bs j) = (if j = i then v else b_next (bs j))"
  "b_prev (set_next i v bs j) = b_prev (bs j)"
  "b_prev (set_prev i v bs j) = (if j = i then v else b_prev (bs j))"
  "b_next (set_prev i v bs j) = b_next (bs j)"
  by (simp_all add: set_next_def set_prev_def)

lemma blist_move:
  assumes "blist bs (us @ b # vs)"
  shows "blist (brelse_move b bs) (b # us @ vs)"
proof -
  have d: "dll BHEAD (nextf bs) (prevf bs) (us @ b # vs)"
    using assms by (simp add: blist_def)
  then have b: "b \<noteq> BHEAD" "b \<notin> set (us @ vs)" by (auto simp: dll_def)
  have nb: "b_next (bs b) \<noteq> b" "b_prev (bs b) \<noteq> b"
    using dll_succ [OF d] dll_pred [OF d] d by (cases vs; cases us rule: rev_cases; auto simp: dll_def)+
  let ?nx = "(nextf bs)(prevf bs b := nextf bs b)" and ?pv = "(prevf bs)(nextf bs b := prevf bs b)"
  have "nextf (brelse_move b bs) = ?nx(b := ?nx BHEAD, BHEAD := b)"
    by (rule ext) (use b nb in \<open>auto simp: brelse_move_def Let_def\<close>)
  moreover have "prevf (brelse_move b bs) = ?pv(b := BHEAD, ?nx BHEAD := b)"
    by (rule ext) (use b nb in \<open>auto simp: brelse_move_def Let_def\<close>)
  ultimately show ?thesis
    using dll_insert_front [OF dll_remove [OF d] b(2,1)] by (simp add: blist_def)
qed

lemma blist_insert:
  assumes "blist bs xs" and "b \<notin> set xs" and "b \<noteq> BHEAD"
  shows "blist (binit_insert b bs) (b # xs)"
proof -
  have "nextf (binit_insert b bs) = (nextf bs)(b := nextf bs BHEAD, BHEAD := b)"
    by (rule ext) (use assms(3) in \<open>auto simp: binit_insert_def Let_def\<close>)
  moreover have "prevf (binit_insert b bs) = (prevf bs)(b := BHEAD, nextf bs BHEAD := b)"
    by (rule ext) (use assms(3) in \<open>auto simp: binit_insert_def Let_def\<close>)
  ultimately show ?thesis
    using dll_insert_front [of BHEAD "nextf bs" "prevf bs" xs b] assms by (simp add: blist_def)
qed

lemma blist_fold_insert:
  assumes "blist bs xs" and "distinct (ys @ xs)" and "BHEAD \<notin> set ys"
  shows "blist (fold binit_insert ys bs) (rev ys @ xs)"
  using assms
proof (induction ys arbitrary: bs xs)
  case Nil
  then show ?case by simp
next
  case (Cons y ys)
  have "blist (binit_insert y bs) (y # xs)"
    by (rule blist_insert) (use Cons.prems in auto)
  then have "blist (fold binit_insert ys (binit_insert y bs)) (rev ys @ y # xs)"
    by (rule Cons.IH) (use Cons.prems in auto)
  then show ?case by simp
qed

lemma blist_binit: "blist (bufs (binit c)) (rev [0..<NBUF])"
proof -
  have "blist (set_next BHEAD BHEAD (set_prev BHEAD BHEAD (bufs c))) []"
    by (simp add: blist_def dll_def)
  from blist_fold_insert [OF this, of "[0..<NBUF]"] show ?thesis
    by (simp add: binit_def Let_def BHEAD_def)
qed

lemma bget_lookup_chain:
  "chain (nextf bs) a xs BHEAD \<Longrightarrow> BHEAD \<notin> set xs \<Longrightarrow>
   bget_lookup bs d n (b_next (bs a)) = Some (find (\<lambda>i. b_dev (bs i) = d \<and> b_blockno (bs i) = n) xs)"
  by (induction xs arbitrary: a) (auto simp: bget_lookup.simps)

lemma bget_victim_chain:
  "chain (prevf bs) a xs BHEAD \<Longrightarrow> BHEAD \<notin> set xs \<Longrightarrow>
   bget_victim bs (b_prev (bs a)) = Some (find (\<lambda>i. b_refcnt (bs i) = 0 \<and> \<not> bdirty (bs i)) xs)"
  by (induction xs arbitrary: a) (auto simp: bget_victim.simps)

lemma bget_lookup_blist:
  "blist bs xs \<Longrightarrow> bget_lookup bs d n (b_next (bs BHEAD)) =
     Some (find (\<lambda>i. b_dev (bs i) = d \<and> b_blockno (bs i) = n) xs)"
  by (rule bget_lookup_chain) (auto simp: blist_def dll_def)

lemma bget_victim_blist:
  "blist bs xs \<Longrightarrow> bget_victim bs (b_prev (bs BHEAD)) =
     Some (find (\<lambda>i. b_refcnt (bs i) = 0 \<and> \<not> bdirty (bs i)) (rev xs))"
  by (rule bget_victim_chain) (auto simp: blist_def dll_def)

subsection \<open>The cache as a client sees it\<close>

text \<open>
  Everything of a buffer but its links, which no client looks at.
\<close>

definition bcore :: "buf \<Rightarrow> uint \<times> uint \<times> uint \<times> sleeplock \<times> uint \<times> byte list" where
  "bcore x = (b_flags x, b_dev x, b_blockno x, b_lock x, b_refcnt x, b_data x)"

lemma bcore_eq_iff:
  "bcore x = bcore y \<longleftrightarrow> b_flags x = b_flags y \<and> b_dev x = b_dev y \<and> b_blockno x = b_blockno y \<and>
     b_lock x = b_lock y \<and> b_refcnt x = b_refcnt y \<and> b_data x = b_data y"
  by (auto simp: bcore_def)

lemma bcore_link [simp]: "bcore (set_next i v bs j) = bcore (bs j)" "bcore (set_prev i v bs j) = bcore (bs j)"
  by (simp_all add: bcore_def set_next_def set_prev_def)

lemma bcore_move: "bcore (brelse_move b bs i) = bcore (bs i)"
  by (simp add: brelse_move_def Let_def)

definition for_block :: "uint \<Rightarrow> buf \<Rightarrow> bool" where
  "for_block n x \<longleftrightarrow> b_dev x = 1 \<and> b_blockno x = n"

text \<open>The value of a block: the cached copy if there is one, else what the disk holds.\<close>

definition bview :: "bcache \<Rightarrow> uint \<Rightarrow> byte list" where
  "bview c n =
    (case find (\<lambda>i. for_block n (bufs c i)) [0..<NBUF] of
       Some i \<Rightarrow> b_data (bufs c i)
     | None \<Rightarrow> memdisk (disk c) n)"

definition dirty_bufs :: "bcache \<Rightarrow> nat set" where
  "dirty_bufs c = {i. i < NBUF \<and> bdirty (bufs c i)}"

definition dirty_blocks :: "bcache \<Rightarrow> uint set" where
  "dirty_blocks c = (\<lambda>i. b_blockno (bufs c i)) ` dirty_bufs c"

text \<open>
  The state of one buffer. A buffer that no process holds is unlocked, unreferenced and,
  unless it is pinned dirty by the log, equal to the disk.
\<close>

definition buf_ok :: "int \<Rightarrow> bool \<Rightarrow> kdisk \<Rightarrow> buf \<Rightarrow> bool" where
  "buf_ok pid held d x \<longleftrightarrow>
     (b_dev x = 0 \<and> \<not> held \<and> \<not> bdirty x \<or>
      b_dev x = 1 \<and> bvalid x \<and> b_blockno x < disksize d \<and> length (b_data x) = BSIZE) \<and>
     (if held then b_lock x = \<lparr>sl_locked = 1, sl_pid = pid\<rparr> \<and> b_refcnt x = 1
      else sl_locked (b_lock x) = 0 \<and> b_refcnt x = 0 \<and>
           (b_dev x = 1 \<and> \<not> bdirty x \<longrightarrow> b_data x = memdisk d (b_blockno x)))"

text \<open>
  The invariant of the cache while process \<open>pid\<close> holds the buffers \<open>H\<close>: the list holds every
  buffer once, no block has two buffers, and every buffer is in order.
\<close>

definition binv :: "int \<Rightarrow> nat set \<Rightarrow> bcache \<Rightarrow> bool" where
  "binv pid H c \<longleftrightarrow>
     (\<exists>xs. blist (bufs c) xs \<and> set xs = {..<NBUF}) \<and>
     (\<forall>i<NBUF. \<forall>j<NBUF. b_dev (bufs c i) = 1 \<and> b_dev (bufs c j) = 1 \<and>
        b_blockno (bufs c i) = b_blockno (bufs c j) \<longrightarrow> i = j) \<and>
     H \<subseteq> {..<NBUF} \<and>
     (\<forall>i<NBUF. buf_ok pid (i \<in> H) (disk c) (bufs c i)) \<and>
     (\<forall>n<disksize (disk c). length (memdisk (disk c) n) = BSIZE)"

lemma binv_uniq:
  "binv pid H c \<Longrightarrow> i < NBUF \<Longrightarrow> j < NBUF \<Longrightarrow> for_block n (bufs c i) \<Longrightarrow> for_block n (bufs c j) \<Longrightarrow> i = j"
  by (auto simp: binv_def for_block_def)

lemma binv_buf: "binv pid H c \<Longrightarrow> i < NBUF \<Longrightarrow> buf_ok pid (i \<in> H) (disk c) (bufs c i)"
  by (simp add: binv_def)

lemma bview_cached:
  assumes "binv pid H c" and "i < NBUF" and "for_block n (bufs c i)"
  shows "bview c n = b_data (bufs c i)"
proof -
  have "find (\<lambda>i. for_block n (bufs c i)) [0..<NBUF] \<noteq> None"
    using assms(2,3) by (auto simp: find_None_iff)
  then obtain j where j: "find (\<lambda>i. for_block n (bufs c i)) [0..<NBUF] = Some j" by auto
  then have "j < NBUF" "for_block n (bufs c j)" by (auto simp: find_Some_iff)
  then have "j = i" using assms binv_uniq by blast
  with j show ?thesis by (simp add: bview_def)
qed

lemma bview_uncached: "(\<And>i. i < NBUF \<Longrightarrow> \<not> for_block n (bufs c i)) \<Longrightarrow> bview c n = memdisk (disk c) n"
  by (auto simp: bview_def find_None_iff split: option.split dest!: find_Some_iff [THEN iffD1])

lemma bview_cases:
  assumes "binv pid H c"
  obtains (cached) i where "i < NBUF" "for_block n (bufs c i)" "bview c n = b_data (bufs c i)"
  | (uncached) "\<forall>i<NBUF. \<not> for_block n (bufs c i)" "bview c n = memdisk (disk c) n"
  using bview_cached [OF assms] bview_uncached by metis

text \<open>A state with the same buffers up to links has the same view and invariant.\<close>

lemma bview_cong:
  assumes "\<And>i. bcore (bufs c' i) = bcore (bufs c i)" and "disk c' = disk c"
  shows "bview c' n = bview c n"
proof -
  have "b_dev (bufs c' i) = b_dev (bufs c i) \<and> b_blockno (bufs c' i) = b_blockno (bufs c i) \<and>
      b_data (bufs c' i) = b_data (bufs c i)" for i
    using assms(1) [of i] by (simp add: bcore_eq_iff)
  then show ?thesis using assms(2) by (simp add: bview_def for_block_def split: option.split)
qed

lemma bview_upd_held:
  assumes "binv pid H c" and "binv pid H' c'" and "b < NBUF" and "for_block n (bufs c b)"
    and "\<And>i. i \<noteq> b \<Longrightarrow> bcore (bufs c' i) = bcore (bufs c i)"
    and "for_block n (bufs c' b)"
    and "\<And>m. m \<noteq> n \<Longrightarrow> memdisk (disk c') m = memdisk (disk c) m"
  shows "bview c' = (bview c)(n := b_data (bufs c' b))"
proof
  fix m
  show "bview c' m = ((bview c)(n := b_data (bufs c' b))) m"
  proof (cases "m = n")
    case True
    then show ?thesis using bview_cached [OF assms(2,3,6)] by simp
  next
    case False
    have same: "for_block m (bufs c' i) \<longleftrightarrow> for_block m (bufs c i)" for i
      using assms(4) assms(5) [of i] assms(6) False by (cases "i = b") (auto simp: for_block_def bcore_eq_iff)
    show ?thesis
    proof (cases "\<exists>i<NBUF. for_block m (bufs c i)")
      case True
      then obtain i where i: "i < NBUF" "for_block m (bufs c i)" by blast
      moreover have "i \<noteq> b" using i False assms(4) by (auto simp: for_block_def)
      ultimately show ?thesis
        using bview_cached [OF assms(1) i] bview_cached [OF assms(2), of i m] same [of i] assms(5) [of i] False
        by (simp add: bcore_eq_iff)
    next
      case no: False
      then show ?thesis
        using bview_uncached [of m c] bview_uncached [of m c'] same False assms(7) by simp
    qed
  qed
qed

subsection \<open>What the operations promise\<close>

lemma blist_cong:
  assumes "\<And>i. b_next (bs' i) = b_next (bs i)" and "\<And>i. b_prev (bs' i) = b_prev (bs i)"
  shows "blist bs' xs = blist bs xs"
proof -
  have "nextf bs' = nextf bs" "prevf bs' = prevf bs" using assms by auto
  then show ?thesis by (simp add: blist_def)
qed

lemma bufs_upd_buf [simp]: "bufs (upd_buf b f c) i = (if i = b then f (bufs c b) else bufs c i)"
  by (simp add: upd_buf_def)

lemma disk_upd_buf [simp]: "disk (upd_buf b f c) = disk c"
  by (simp add: upd_buf_def)

text \<open>A buffer found in the cache is referenced and locked by the caller.\<close>

definition hold :: "int \<Rightarrow> nat \<Rightarrow> bcache \<Rightarrow> bcache" where
  "hold pid b c = upd_buf b (\<lambda>x. x\<lparr>b_refcnt := 1, b_lock := \<lparr>sl_locked = 1, sl_pid = pid\<rparr>\<rparr>) c"

text \<open>A buffer recycled for block \<open>n\<close>: filled from the disk, referenced and locked.\<close>

definition refill :: "int \<Rightarrow> nat \<Rightarrow> uint \<Rightarrow> bcache \<Rightarrow> bcache" where
  "refill pid b n c =
     upd_buf b (\<lambda>x. x\<lparr>b_dev := 1, b_blockno := n, b_refcnt := 1,
       b_lock := \<lparr>sl_locked = 1, sl_pid = pid\<rparr>, b_data := memdisk (disk c) n,
       b_flags := B_VALID\<rparr>) c"

lemma binv_list:
  assumes "binv pid H c"
  obtains xs where "blist (bufs c) xs" and "set xs = {..<NBUF}"
  using assms by (auto simp: binv_def)

lemma binvI:
  assumes "blist (bufs c) xs" and "set xs = {..<NBUF}"
    and "\<And>i j n. i < NBUF \<Longrightarrow> j < NBUF \<Longrightarrow> for_block n (bufs c i) \<Longrightarrow> for_block n (bufs c j) \<Longrightarrow> i = j"
    and "H \<subseteq> {..<NBUF}"
    and "\<And>i. i < NBUF \<Longrightarrow> buf_ok pid (i \<in> H) (disk c) (bufs c i)"
    and "\<And>n. n < disksize (disk c) \<Longrightarrow> length (memdisk (disk c) n) = BSIZE"
  shows "binv pid H c"
  using assms unfolding binv_def for_block_def by blast

lemma binv_held: "binv pid H c \<Longrightarrow> H \<subseteq> {..<NBUF}"
  by (simp add: binv_def)

lemma binv_disk: "binv pid H c \<Longrightarrow> n < disksize (disk c) \<Longrightarrow> length (memdisk (disk c) n) = BSIZE"
  by (simp add: binv_def)

lemma bread_cached:
  assumes inv: "binv pid H c" and b: "b < NBUF" "for_block n (bufs c b)" "b \<notin> H"
  shows "bread pid 1 n c = Ok (b, hold pid b c)"
proof -
  from binv_list [OF inv] obtain xs where xs: "blist (bufs c) xs" "set xs = {..<NBUF}" .
  let ?P = "\<lambda>i. b_dev (bufs c i) = 1 \<and> b_blockno (bufs c i) = n"
  have "find ?P xs \<noteq> None" using b xs(2) by (auto simp: find_None_iff for_block_def)
  then obtain j where j: "find ?P xs = Some j" by auto
  then have "j < NBUF" "for_block n (bufs c j)"
    using xs(2) by (auto simp: find_Some_iff for_block_def)
  then have "find ?P xs = Some b" using j inv b binv_uniq by blast
  moreover have "buf_ok pid False (disk c) (bufs c b)" using binv_buf [OF inv b(1)] b(3) by simp
  ultimately show ?thesis
    using b(2) by (simp add: bread_def bget_def bget_lookup_blist [OF xs(1)] acquiresleep_def
        buf_ok_def for_block_def hold_def upd_buf_def)
qed

lemma bread_uncached:
  assumes inv: "binv pid H c" and n: "n < disksize (disk c)"
    and un: "\<forall>i<NBUF. \<not> for_block n (bufs c i)"
    and free: "\<exists>i<NBUF. i \<notin> H \<and> \<not> bdirty (bufs c i)"
  shows "\<exists>b<NBUF. b \<notin> H \<and> \<not> bdirty (bufs c b) \<and> bread pid 1 n c = Ok (b, refill pid b n c)"
proof -
  from binv_list [OF inv] obtain xs where xs: "blist (bufs c) xs" "set xs = {..<NBUF}" .
  let ?P = "\<lambda>i. b_dev (bufs c i) = 1 \<and> b_blockno (bufs c i) = n"
  let ?Q = "\<lambda>i. b_refcnt (bufs c i) = 0 \<and> \<not> bdirty (bufs c i)"
  have no: "find ?P xs = None" using un xs(2) by (auto simp: find_None_iff for_block_def)
  from free obtain i where i: "i < NBUF" "i \<notin> H" "\<not> bdirty (bufs c i)" by blast
  then have "?Q i" using binv_buf [OF inv i(1)] by (simp add: buf_ok_def)
  then have "find ?Q (rev xs) \<noteq> None" using i xs(2) by (auto simp: find_None_iff)
  then obtain b where b: "find ?Q (rev xs) = Some b" by auto
  then have q: "?Q b" "b < NBUF"
    using xs(2) by (auto simp: find_Some_iff) (metis length_rev lessThan_iff nth_mem set_rev)
  then have nh: "b \<notin> H" using binv_buf [OF inv q(2)] by (auto simp: buf_ok_def)
  have ok: "buf_ok pid False (disk c) (bufs c b)" using binv_buf [OF inv q(2)] nh by simp
  have "bread pid 1 n c = Ok (b, refill pid b n c)"
    using ok n no b q
    by (simp add: bread_def bget_def bget_lookup_blist [OF xs(1)] bget_victim_blist [OF xs(1)]
        acquiresleep_def buf_ok_def iderw_def holdingsleep_def Let_def refill_def upd_buf_def
        B_VALID_def B_DIRTY_def not_le)
  with q nh show ?thesis by blast
qed

lemma binv_hold:
  assumes inv: "binv pid H c" and b: "b < NBUF" "b \<notin> H" "b_dev (bufs c b) = 1"
  shows "binv pid (insert b H) (hold pid b c)"
proof -
  from binv_list [OF inv] obtain xs where xs: "blist (bufs c) xs" "set xs = {..<NBUF}" .
  have "blist (bufs (hold pid b c)) xs"
    using xs(1) by (subst blist_cong [of _ "bufs c"]) (auto simp: hold_def)
  moreover have "buf_ok pid (i \<in> insert b H) (disk c) (bufs (hold pid b c) i)" if "i < NBUF" for i
    using binv_buf [OF inv that] binv_buf [OF inv b(1)] b by (auto simp: hold_def buf_ok_def)
  moreover have "for_block m (bufs (hold pid b c) i) = for_block m (bufs c i)" for m i
    by (simp add: hold_def for_block_def)
  ultimately show ?thesis
    using xs(2) binv_uniq [OF inv] binv_held [OF inv] binv_disk [OF inv] b(1)
    by (intro binvI [of _ xs]) (auto simp: hold_def)
qed

lemma binv_refill:
  assumes inv: "binv pid H c" and b: "b < NBUF" "b \<notin> H" and n: "n < disksize (disk c)"
    and un: "\<forall>i<NBUF. \<not> for_block n (bufs c i)"
  shows "binv pid (insert b H) (refill pid b n c)"
proof -
  from binv_list [OF inv] obtain xs where xs: "blist (bufs c) xs" "set xs = {..<NBUF}" .
  have "blist (bufs (refill pid b n c)) xs"
    using xs(1) by (subst blist_cong [of _ "bufs c"]) (auto simp: refill_def)
  moreover have "buf_ok pid (i \<in> insert b H) (disk c) (bufs (refill pid b n c) i)" if "i < NBUF" for i
    using binv_buf [OF inv that] inv b n by (auto simp: refill_def buf_ok_def binv_def B_VALID_def)
  moreover have "for_block m (bufs (refill pid b n c) i) \<longleftrightarrow> (if i = b then m = n else for_block m (bufs c i))" for m i
    by (auto simp: refill_def for_block_def)
  ultimately show ?thesis
    using xs(2) binv_uniq [OF inv] binv_held [OF inv] binv_disk [OF inv] b(1) un
    by (intro binvI [of _ xs]) (auto simp: refill_def split: if_splits)
qed

lemma bview_refill:
  assumes inv: "binv pid H c" and b: "b < NBUF" "b \<notin> H" "\<not> bdirty (bufs c b)"
    and n: "n < disksize (disk c)" and un: "\<forall>i<NBUF. \<not> for_block n (bufs c i)"
  shows "bview (refill pid b n c) m = bview c m"
proof -
  let ?c = "refill pid b n c"
  have inv': "binv pid (insert b H) ?c" by (rule binv_refill) (use assms in auto)
  have other: "i \<noteq> b \<Longrightarrow> bufs ?c i = bufs c i" for i by (simp add: refill_def)
  have nb: "bufs ?c b = (bufs c b)\<lparr>b_dev := 1, b_blockno := n, b_refcnt := 1,
       b_lock := \<lparr>sl_locked = 1, sl_pid = pid\<rparr>, b_data := memdisk (disk c) n, b_flags := B_VALID\<rparr>"
    by (simp add: refill_def)
  have d: "disk ?c = disk c" by (simp add: refill_def)
  consider "m = n" | i where "m \<noteq> n" "i < NBUF" "i \<noteq> b" "for_block m (bufs c i)"
    | "m \<noteq> n" "\<forall>i<NBUF. i \<noteq> b \<longrightarrow> \<not> for_block m (bufs c i)" by blast
  then show ?thesis
  proof cases
    case 1
    have "bview ?c n = memdisk (disk c) n"
      using bview_cached [OF inv' b(1), of n] by (simp add: nb for_block_def)
    with 1 show ?thesis using bview_uncached [of n c] un by simp
  next
    case 2
    then show ?thesis
      using bview_cached [OF inv 2(2,4)] bview_cached [OF inv' 2(2), of m] by (simp add: other)
  next
    case 3
    have "bview ?c m = memdisk (disk c) m"
      using 3 by (subst bview_uncached) (auto simp: refill_def for_block_def)
    moreover have "bview c m = memdisk (disk c) m"
    proof (cases "for_block m (bufs c b)")
      case True
      then show ?thesis
        using bview_cached [OF inv b(1) True] binv_buf [OF inv b(1)] b by (simp add: buf_ok_def for_block_def)
    next
      case False
      show ?thesis by (rule bview_uncached) (use 3 False in metis)
    qed
    ultimately show ?thesis by simp
  qed
qed

text \<open>
  \<open>bread\<close>: it succeeds whenever the block is cached or some buffer is neither held nor
  dirty, hands out the block's value, and changes no value, no disk block and no other
  held buffer.
\<close>

definition cached_blocks :: "bcache \<Rightarrow> uint set" where
  "cached_blocks c = {n. \<exists>i<NBUF. for_block n (bufs c i)}"

lemma dirty_dev: "binv pid H c \<Longrightarrow> i < NBUF \<Longrightarrow> bdirty (bufs c i) \<Longrightarrow> b_dev (bufs c i) = 1"
  using binv_buf [of pid H c i] by (auto simp: buf_ok_def)

lemma dirty_blocks_iff:
  assumes inv: "binv pid H c" and i: "i < NBUF" "for_block n (bufs c i)"
  shows "n \<in> dirty_blocks c \<longleftrightarrow> bdirty (bufs c i)"
proof
  assume "n \<in> dirty_blocks c"
  then obtain j where j: "j < NBUF" "bdirty (bufs c j)" "b_blockno (bufs c j) = n"
    by (auto simp: dirty_blocks_def dirty_bufs_def)
  then have "for_block n (bufs c j)" using dirty_dev [OF inv] by (simp add: for_block_def)
  then have "j = i" using binv_uniq [OF inv j(1) i(1)] i(2) by blast
  with j show "bdirty (bufs c i)" by simp
next
  assume "bdirty (bufs c i)"
  with i show "n \<in> dirty_blocks c"
    by (auto simp: dirty_blocks_def dirty_bufs_def for_block_def intro!: image_eqI [of _ _ i])
qed

lemma dirty_cached: "binv pid H c \<Longrightarrow> dirty_blocks c \<subseteq> cached_blocks c"
  using dirty_dev [of pid H c] by (auto simp: dirty_blocks_def dirty_bufs_def cached_blocks_def for_block_def)

lemma finite_dirty_bufs [simp]: "finite (dirty_bufs c)"
  by (simp add: dirty_bufs_def)

lemma free_buffer:
  assumes "H \<subseteq> {..<NBUF}" and "card (H \<union> dirty_bufs c) < NBUF"
  shows "\<exists>i<NBUF. i \<notin> H \<and> \<not> bdirty (bufs c i)"
proof (rule ccontr)
  assume "\<not> ?thesis"
  then have "{..<NBUF} \<subseteq> H \<union> dirty_bufs c" by (auto simp: dirty_bufs_def)
  moreover have "finite (H \<union> dirty_bufs c)" using assms(1) finite_subset by auto
  ultimately have "card {..<NBUF} \<le> card (H \<union> dirty_bufs c)" by (rule card_mono [rotated])
  with assms(2) show False by simp
qed

lemma bread_ok:
  assumes inv: "binv pid H c" and n: "n < disksize (disk c)"
    and nheld: "\<And>i. i \<in> H \<Longrightarrow> b_blockno (bufs c i) \<noteq> n"
    and room: "n \<in> cached_blocks c \<or> card (H \<union> dirty_bufs c) < NBUF"
  shows "\<exists>b c'. bread pid 1 n c = Ok (b, c') \<and> b < NBUF \<and> b \<notin> H \<and> binv pid (insert b H) c' \<and>
    for_block n (bufs c' b) \<and> b_data (bufs c' b) = bview c n \<and> bview c' = bview c \<and>
    disk c' = disk c \<and> dirty_bufs c' = dirty_bufs c \<and> dirty_blocks c' = dirty_blocks c \<and>
    (\<forall>i. i \<noteq> b \<longrightarrow> bufs c' i = bufs c i)"
proof (cases "\<exists>i<NBUF. for_block n (bufs c i)")
  case True
  then obtain b where b: "b < NBUF" "for_block n (bufs c b)" by blast
  then have nh: "b \<notin> H" using nheld by (auto simp: for_block_def)
  have dev: "b_dev (bufs c b) = 1" using b by (simp add: for_block_def)
  let ?c = "hold pid b c"
  have "bview ?c = (bview c)(n := b_data (bufs ?c b))"
    by (rule bview_upd_held [OF inv binv_hold [OF inv b(1) nh dev] b])
      (use b in \<open>auto simp: hold_def for_block_def\<close>)
  then have v: "bview ?c = bview c" using bview_cached [OF inv b] by (auto simp: hold_def)
  have "dirty_bufs ?c = dirty_bufs c" by (auto simp: dirty_bufs_def hold_def)
  moreover from this have "dirty_blocks ?c = dirty_blocks c"
    by (simp add: dirty_blocks_def hold_def) (auto simp: image_iff)
  ultimately show ?thesis
    using bread_cached [OF inv b nh] binv_hold [OF inv b(1) nh dev] b nh v bview_cached [OF inv b]
    by (intro exI [of _ b] exI [of _ ?c]) (auto simp: hold_def for_block_def)
next
  case False
  then have un: "\<forall>i<NBUF. \<not> for_block n (bufs c i)" by blast
  have "\<exists>i<NBUF. i \<notin> H \<and> \<not> bdirty (bufs c i)"
    by (rule free_buffer) (use binv_held [OF inv] room False in \<open>auto simp: cached_blocks_def\<close>)
  from bread_uncached [OF inv n un this] obtain b
    where b: "b < NBUF" "b \<notin> H" "\<not> bdirty (bufs c b)" "bread pid 1 n c = Ok (b, refill pid b n c)" by blast
  let ?c = "refill pid b n c"
  have v: "bview ?c = bview c" by (rule ext) (rule bview_refill [OF inv b(1-3) n un])
  have db: "dirty_bufs ?c = dirty_bufs c" using b(3) by (auto simp: dirty_bufs_def refill_def B_VALID_def)
  moreover from this have "dirty_blocks ?c = dirty_blocks c"
    using b(3) unfolding dirty_blocks_def by (intro image_cong) (auto simp: refill_def dirty_bufs_def)
  moreover have "bview c n = memdisk (disk c) n" using un by (simp add: bview_uncached)
  ultimately show ?thesis
    using b v binv_refill [OF inv b(1,2) n un]
    by (intro exI [of _ b] exI [of _ ?c]) (auto simp: refill_def for_block_def)
qed

text \<open>What a client may do to a buffer it holds: change its data, or mark it dirty.\<close>

lemma held_facts:
  assumes "binv pid H c" and "b \<in> H"
  shows "b < NBUF" and "b_dev (bufs c b) = 1" and "bvalid (bufs c b)"
    and "b_blockno (bufs c b) < disksize (disk c)" and "length (b_data (bufs c b)) = BSIZE"
    and "holdingsleep pid (b_lock (bufs c b))" and "b_refcnt (bufs c b) = 1"
    and "b_lock (bufs c b) = \<lparr>sl_locked = 1, sl_pid = pid\<rparr>"
proof -
  show b: "b < NBUF" using assms by (auto simp: binv_def)
  have "buf_ok pid True (disk c) (bufs c b)" using binv_buf [OF assms(1) b] assms(2) by simp
  then show "b_dev (bufs c b) = 1" "bvalid (bufs c b)" "b_blockno (bufs c b) < disksize (disk c)"
    "length (b_data (bufs c b)) = BSIZE" "holdingsleep pid (b_lock (bufs c b))" "b_refcnt (bufs c b) = 1"
    "b_lock (bufs c b) = \<lparr>sl_locked = 1, sl_pid = pid\<rparr>"
    by (auto simp: buf_ok_def holdingsleep_def)
qed

lemma held_for_block: "binv pid H c \<Longrightarrow> b \<in> H \<Longrightarrow> for_block (b_blockno (bufs c b)) (bufs c b)"
  by (simp add: for_block_def held_facts)

lemma binv_upd_held:
  assumes inv: "binv pid H c" and b: "b \<in> H"
    and same: "b_dev x = 1" "b_blockno x = b_blockno (bufs c b)" "b_lock x = b_lock (bufs c b)"
      "b_refcnt x = b_refcnt (bufs c b)" "b_next x = b_next (bufs c b)" "b_prev x = b_prev (bufs c b)"
    and "bvalid x" and "length (b_data x) = BSIZE"
    and d: "disksize d = disksize (disk c)"
      "\<And>n. n \<noteq> b_blockno (bufs c b) \<Longrightarrow> memdisk d n = memdisk (disk c) n"
      "length (memdisk d (b_blockno (bufs c b))) = BSIZE"
  shows "binv pid H \<lparr>bufs = (bufs c)(b := x), disk = d\<rparr>"
proof -
  let ?c = "\<lparr>bufs = (bufs c)(b := x), disk = d\<rparr>"
  note h = held_facts [OF inv b]
  from binv_list [OF inv] obtain xs where xs: "blist (bufs c) xs" "set xs = {..<NBUF}" .
  have "blist (bufs ?c) xs"
    using xs(1) same by (subst blist_cong [of _ "bufs c"]) auto
  moreover have fb: "for_block m (bufs ?c i) = for_block m (bufs c i)" for m i
    using same h by (simp add: for_block_def)
  moreover have "buf_ok pid (i \<in> H) d (bufs ?c i)" if i: "i < NBUF" for i
  proof (cases "i = b")
    case True
    then show ?thesis
      using binv_buf [OF inv h(1)] b assms by (auto simp: buf_ok_def)
  next
    case False
    have "b_dev (bufs c i) = 1 \<Longrightarrow> b_blockno (bufs c i) \<noteq> b_blockno (bufs c b)"
      using binv_uniq [OF inv i h(1), of "b_blockno (bufs c b)"] h(2) False by (auto simp: for_block_def)
    with False show ?thesis
      using binv_buf [OF inv i] d(1,2) by (auto simp: buf_ok_def)
  qed
  moreover have "length (memdisk d n) = BSIZE" if "n < disksize d" for n
    using that d binv_disk [OF inv, of n] by (cases "n = b_blockno (bufs c b)") auto
  ultimately show ?thesis
    using xs(2) binv_uniq [OF inv] binv_held [OF inv]
    by (intro binvI [of _ xs]) auto
qed

lemma set_data_ok:
  assumes inv: "binv pid H c" and b: "b \<in> H" and "length v = BSIZE"
  shows "binv pid H (set_data b v c)"
    and "bview (set_data b v c) = (bview c)(b_blockno (bufs c b) := v)"
    and "disk (set_data b v c) = disk c"
    and "dirty_bufs (set_data b v c) = dirty_bufs c" and "dirty_blocks (set_data b v c) = dirty_blocks c"
    and "bufs (set_data b v c) b = (bufs c b)\<lparr>b_data := v\<rparr>"
    and "i \<noteq> b \<Longrightarrow> bufs (set_data b v c) i = bufs c i"
proof -
  note h = held_facts [OF inv b]
  have "set_data b v c = \<lparr>bufs = (bufs c)(b := (bufs c b)\<lparr>b_data := v\<rparr>), disk = disk c\<rparr>"
    by (simp add: set_data_def upd_buf_def)
  moreover have "binv pid H \<dots>"
    by (rule binv_upd_held [OF inv b]) (use h assms binv_disk [OF inv] in auto)
  ultimately show i: "binv pid H (set_data b v c)" by simp
  have "bview (set_data b v c) = (bview c)(b_blockno (bufs c b) := b_data (bufs (set_data b v c) b))"
    by (rule bview_upd_held [OF inv i h(1) held_for_block [OF inv b]])
      (use h in \<open>auto simp: set_data_def for_block_def\<close>)
  then show "bview (set_data b v c) = (bview c)(b_blockno (bufs c b) := v)" by (simp add: set_data_def)
  show "dirty_bufs (set_data b v c) = dirty_bufs c" by (auto simp: dirty_bufs_def set_data_def)
  then show "dirty_blocks (set_data b v c) = dirty_blocks c"
    by (simp add: dirty_blocks_def set_data_def) (auto simp: image_iff)
qed (simp_all add: set_data_def)

definition pin :: "nat \<Rightarrow> bcache \<Rightarrow> bcache" where
  "pin b c = upd_buf b (\<lambda>x. x\<lparr>b_flags := b_flags x OR B_DIRTY\<rparr>) c"

lemma pin_ok:
  assumes inv: "binv pid H c" and b: "b \<in> H"
  shows "binv pid H (pin b c)" and "bview (pin b c) = bview c" and "disk (pin b c) = disk c"
    and "dirty_bufs (pin b c) = insert b (dirty_bufs c)"
    and "dirty_blocks (pin b c) = insert (b_blockno (bufs c b)) (dirty_blocks c)"
    and "bufs (pin b c) b = (bufs c b)\<lparr>b_flags := b_flags (bufs c b) OR B_DIRTY\<rparr>"
    and "i \<noteq> b \<Longrightarrow> bufs (pin b c) i = bufs c i"
proof -
  note h = held_facts [OF inv b]
  have "pin b c = \<lparr>bufs = (bufs c)(b := (bufs c b)\<lparr>b_flags := b_flags (bufs c b) OR B_DIRTY\<rparr>), disk = disk c\<rparr>"
    by (simp add: pin_def upd_buf_def)
  moreover have "binv pid H \<dots>"
    by (rule binv_upd_held [OF inv b]) (use h binv_disk [OF inv] in auto)
  ultimately show i: "binv pid H (pin b c)" by simp
  have "bview (pin b c) = (bview c)(b_blockno (bufs c b) := b_data (bufs (pin b c) b))"
    by (rule bview_upd_held [OF inv i h(1) held_for_block [OF inv b]])
      (use h in \<open>auto simp: pin_def for_block_def\<close>)
  then show "bview (pin b c) = bview c"
    using bview_cached [OF inv h(1) held_for_block [OF inv b]] by (auto simp: pin_def)
  show d: "dirty_bufs (pin b c) = insert b (dirty_bufs c)" using h(1) by (auto simp: dirty_bufs_def pin_def)
  have "b_blockno (bufs (pin b c) i) = b_blockno (bufs c i)" for i by (simp add: pin_def)
  then show "dirty_blocks (pin b c) = insert (b_blockno (bufs c b)) (dirty_blocks c)"
    by (simp add: dirty_blocks_def d)
qed (simp_all add: pin_def)

lemma B_DIRTY_nonzero [simp]: "B_DIRTY \<noteq> 0"
  by (simp add: B_DIRTY_def)

lemma bwrite_ok:
  assumes inv: "binv pid H c" and b: "b \<in> H"
  shows "\<exists>c'. bwrite pid b c = Ok c' \<and> binv pid H c' \<and> bview c' = bview c \<and>
    disk c' = disk_write (b_blockno (bufs c b)) (b_data (bufs c b)) (disk c) \<and>
    dirty_bufs c' = dirty_bufs c - {b} \<and>
    dirty_blocks c' = dirty_blocks c - {b_blockno (bufs c b)} \<and>
    (\<exists>f. \<not> bit f 2 \<and> bufs c' b = (bufs c b)\<lparr>b_flags := f\<rparr>) \<and>
    (\<forall>i. i \<noteq> b \<longrightarrow> bufs c' i = bufs c i)"
proof -
  note h = held_facts [OF inv b]
  let ?n = "b_blockno (bufs c b)" and ?v = "b_data (bufs c b)"
  let ?f = "((b_flags (bufs c b) OR B_DIRTY) AND NOT B_DIRTY) OR B_VALID"
  let ?c = "\<lparr>bufs = (bufs c)(b := (bufs c b)\<lparr>b_flags := ?f\<rparr>), disk = disk_write ?n ?v (disk c)\<rparr>"
  have w: "bwrite pid b c = Ok ?c"
    using h by (simp add: bwrite_def iderw_def Let_def upd_buf_def not_le)
  have i: "binv pid H ?c"
    by (rule binv_upd_held [OF inv b]) (use h in \<open>auto simp: disk_write_def\<close>)
  have "bview ?c = (bview c)(?n := b_data (bufs ?c b))"
    by (rule bview_upd_held [OF inv i h(1) held_for_block [OF inv b]])
      (use h in \<open>auto simp: for_block_def disk_write_def\<close>)
  then have v: "bview ?c = bview c"
    using bview_cached [OF inv h(1) held_for_block [OF inv b]] by auto
  have d: "dirty_bufs ?c = dirty_bufs c - {b}" by (auto simp: dirty_bufs_def)
  have "b_blockno (bufs c i) \<noteq> ?n" if "i \<in> dirty_bufs c" "i \<noteq> b" for i
    using that binv_uniq [OF inv _ h(1), of i ?n] dirty_dev [OF inv, of i] h(2)
    by (auto simp: dirty_bufs_def for_block_def)
  then have db: "dirty_blocks ?c = dirty_blocks c - {?n}"
    unfolding dirty_blocks_def d by (auto simp: image_iff)
  have "\<not> bit ?f 2 \<and> bufs ?c b = (bufs c b)\<lparr>b_flags := ?f\<rparr>" by simp
  then have "\<exists>f. \<not> bit f 2 \<and> bufs ?c b = (bufs c b)\<lparr>b_flags := f\<rparr>" by blast
  then show ?thesis
    by (intro exI [of _ ?c] conjI w i v d db) auto
qed

lemma brelse_ok:
  assumes inv: "binv pid H c" and b: "b \<in> H"
    and clean: "bdirty (bufs c b) \<or> b_data (bufs c b) = memdisk (disk c) (b_blockno (bufs c b))"
  shows "\<exists>c'. brelse pid b c = Ok c' \<and> binv pid (H - {b}) c' \<and> bview c' = bview c \<and> disk c' = disk c \<and>
    dirty_bufs c' = dirty_bufs c \<and> dirty_blocks c' = dirty_blocks c \<and>
    (\<forall>i. i \<noteq> b \<longrightarrow> bcore (bufs c' i) = bcore (bufs c i))"
proof -
  note h = held_facts [OF inv b]
  from binv_list [OF inv] obtain xs where xs: "blist (bufs c) xs" "set xs = {..<NBUF}" .
  with h(1) obtain us vs where uv: "xs = us @ b # vs" by (metis lessThan_iff split_list)
  let ?bs = "(bufs c)(b := (bufs c b)\<lparr>b_lock := \<lparr>sl_locked = 0, sl_pid = 0\<rparr>, b_refcnt := 0\<rparr>)"
  let ?c = "c\<lparr>bufs := brelse_move b ?bs\<rparr>"
  have r: "brelse pid b c = Ok ?c"
    using h by (simp add: brelse_def releasesleep_def upd_buf_def Let_def)
  have core: "bcore (bufs ?c i) = bcore (?bs i)" for i by (simp add: bcore_move)
  then have same: "b_dev (bufs ?c i) = b_dev (bufs c i)" "b_blockno (bufs ?c i) = b_blockno (bufs c i)"
     "b_flags (bufs ?c i) = b_flags (bufs c i)" "b_data (bufs ?c i) = b_data (bufs c i)" for i
    by (simp_all add: bcore_eq_iff)
  have "blist ?bs xs"
    using xs(1) by (subst blist_cong [of _ "bufs c"]) auto
  then have l: "blist (bufs ?c) (b # us @ vs)" using blist_move [of ?bs us b vs] uv by simp
  have "buf_ok pid (i \<in> H - {b}) (disk c) (bufs ?c i)" if "i < NBUF" for i
    using core [of i] binv_buf [OF inv that] clean b h by (cases "i = b") (auto simp: bcore_eq_iff buf_ok_def)
  moreover have fb: "for_block m (bufs ?c i) = for_block m (bufs c i)" for m i
    unfolding for_block_def same ..
  ultimately have i: "binv pid (H - {b}) ?c"
    using l xs(2) uv binv_uniq [OF inv] binv_held [OF inv] binv_disk [OF inv]
    by (intro binvI [of _ "b # us @ vs"]) auto
  have v: "bview ?c = bview c" unfolding bview_def fb same by (simp cong: option.case_cong)
  have "dirty_bufs ?c = dirty_bufs c" "dirty_blocks ?c = dirty_blocks c"
    unfolding dirty_bufs_def dirty_blocks_def same by simp_all
  with r i v core show ?thesis by (intro exI [of _ ?c]) auto
qed

subsection \<open>The cache after a boot\<close>

text \<open>Static data starts as zeroes; \<open>binit\<close> then builds the list.\<close>

definition zero_buf :: buf where
  "zero_buf = \<lparr>b_flags = 0, b_dev = 0, b_blockno = 0, b_lock = \<lparr>sl_locked = 0, sl_pid = 0\<rparr>,
     b_refcnt = 0, b_prev = 0, b_next = 0, b_data = replicate BSIZE 0\<rparr>"

definition boot :: "kdisk \<Rightarrow> bcache" where
  "boot d = binit \<lparr>bufs = (\<lambda>_. zero_buf), disk = d\<rparr>"

lemma bcore_insert: "bcore (bs b) = bcore zero_buf \<Longrightarrow> bcore (binit_insert b bs i) = bcore (bs i)"
  by (auto simp: binit_insert_def Let_def bcore_eq_iff zero_buf_def initsleeplock_def set_next_def set_prev_def)

lemma bcore_fold_insert:
  "(\<And>i. bcore (bs i) = bcore zero_buf) \<Longrightarrow> bcore (fold binit_insert ys bs i) = bcore zero_buf"
  by (induction ys arbitrary: bs) (auto simp: bcore_insert)

lemma disk_boot [simp]: "disk (boot d) = d"
  by (simp add: boot_def binit_def Let_def)

lemma bcore_boot: "bcore (bufs (boot d) i) = bcore zero_buf"
  by (simp add: boot_def binit_def Let_def bcore_fold_insert)

lemma binv_boot:
  assumes "\<And>n. n < disksize d \<Longrightarrow> length (memdisk d n) = BSIZE"
  shows "binv pid {} (boot d)"
proof -
  have l: "blist (bufs (boot d)) (rev [0..<NBUF])" unfolding boot_def by (rule blist_binit)
  have core: "b_dev (bufs (boot d) i) = 0" "b_refcnt (bufs (boot d) i) = 0" "b_flags (bufs (boot d) i) = 0"
    "sl_locked (b_lock (bufs (boot d) i)) = 0" for i
    using bcore_boot [of d i] by (simp_all add: bcore_eq_iff zero_buf_def)
  show ?thesis
    by (rule binvI [OF l]) (use assms core in \<open>auto simp: for_block_def buf_ok_def\<close>)
qed

lemma boot_clean: "dirty_bufs (boot d) = {}" "dirty_blocks (boot d) = {}"
proof -
  show "dirty_bufs (boot d) = {}"
    using bcore_boot [of d] by (auto simp: dirty_bufs_def bcore_eq_iff zero_buf_def)
  then show "dirty_blocks (boot d) = {}" by (simp add: dirty_blocks_def)
qed

lemma bview_clean: "binv pid {} c \<Longrightarrow> n \<notin> dirty_blocks c \<Longrightarrow> bview c n = memdisk (disk c) n"
  by (cases rule: bview_cases [of pid "{}" c n])
    (auto simp: dirty_blocks_iff for_block_def dest: binv_buf simp: buf_ok_def)

section \<open>Properties\<close>

text \<open>Writing a block through the cache: read it, change it, write it, release it.\<close>

definition bio_update :: "int \<Rightarrow> uint \<Rightarrow> byte list \<Rightarrow> bcache \<Rightarrow> bcache kres" where
  "bio_update pid n v c =
    kbind (bread pid 1 n c) (\<lambda>(b, c).
    kbind (bwrite pid b (set_data b v c)) (\<lambda>c. brelse pid b c))"

lemma bio_update_ok:
  assumes inv: "binv pid H c" and n: "n < disksize (disk c)" and nh: "\<And>i. i \<in> H \<Longrightarrow> b_blockno (bufs c i) \<noteq> n"
    and room: "card (H \<union> dirty_bufs c) < NBUF" and v: "length v = BSIZE"
  shows "\<exists>c'. bio_update pid n v c = Ok c' \<and> binv pid H c' \<and> bview c' = (bview c)(n := v) \<and>
    disk c' = disk_write n v (disk c) \<and> dirty_bufs c' \<subseteq> dirty_bufs c \<and> (\<forall>i \<in> H. b_blockno (bufs c' i) = b_blockno (bufs c i))"
proof -
  obtain b c1 where 1: "bread pid 1 n c = Ok (b, c1)" "b \<notin> H" "binv pid (insert b H) c1" "for_block n (bufs c1 b)"
      "bview c1 = bview c" "disk c1 = disk c" "dirty_bufs c1 = dirty_bufs c" "\<And>i. i \<noteq> b \<Longrightarrow> bufs c1 i = bufs c i"
    using bread_ok [OF inv n nh] room by blast
  have bn: "b_blockno (bufs c1 b) = n" using 1(4) by (simp add: for_block_def)
  note sd = set_data_ok [OF 1(3) insertI1 v]
  let ?c = "set_data b v c1"
  obtain c2 f where 2: "bwrite pid b ?c = Ok c2" "binv pid (insert b H) c2" "bview c2 = (bview c)(n := v)"
      "disk c2 = disk_write n v (disk c)" "dirty_bufs c2 = dirty_bufs c - {b}"
      "bufs c2 b = (bufs ?c b)\<lparr>b_flags := f\<rparr>" "\<And>i. i \<noteq> b \<Longrightarrow> bufs c2 i = bufs c1 i"
    using bwrite_ok [OF sd(1) insertI1] sd 1 bn by auto
  have "b_data (bufs c2 b) = memdisk (disk c2) (b_blockno (bufs c2 b))"
    using 2(4,6) sd(6) bn by (simp add: disk_write_def)
  then obtain c3 where 3: "brelse pid b c2 = Ok c3" "binv pid (insert b H - {b}) c3" "bview c3 = bview c2"
      "disk c3 = disk c2" "dirty_bufs c3 = dirty_bufs c2" "\<And>i. i \<noteq> b \<Longrightarrow> bcore (bufs c3 i) = bcore (bufs c2 i)"
    using brelse_ok [OF 2(2) insertI1] by auto
  have "insert b H - {b} = H" using 1(2) by auto
  moreover have "b_blockno (bufs c3 i) = b_blockno (bufs c i)" if "i \<in> H" for i
  proof -
    have "i \<noteq> b" using that 1(2) by auto
    then show ?thesis using 3(6) 2(7) 1(8) by (metis bcore_eq_iff)
  qed
  ultimately show ?thesis using 1(1) 2 3 by (intro exI [of _ c3]) (auto simp: bio_update_def)
qed

text \<open>
  C4: the cache is a coherent block store. With nothing held and a buffer to spare, writing
  a block through the cache succeeds, and afterwards reading any block of the disk succeeds
  and gives the written data for that block and, for every other block, what a read gave before.
\<close>

theorem bio_read_your_writes:
  assumes inv: "binv pid {} c" and n: "n < disksize (disk c)" and room: "card (dirty_bufs c) < NBUF"
    and v: "length v = BSIZE"
  shows "\<exists>c'. bio_update pid n v c = Ok c' \<and> binv pid {} c' \<and>
    (\<forall>m < disksize (disk c). \<exists>b c1 b' c2. bread pid 1 m c = Ok (b, c1) \<and> bread pid 1 m c' = Ok (b', c2) \<and>
       b_data (bufs c2 b') = (if m = n then v else b_data (bufs c1 b)))"
proof -
  obtain c' where c': "bio_update pid n v c = Ok c'" "binv pid {} c'" "bview c' = (bview c)(n := v)"
      "disk c' = disk_write n v (disk c)" "dirty_bufs c' \<subseteq> dirty_bufs c"
    using bio_update_ok [OF inv n _ _ v] room by auto
  have room': "card (dirty_bufs c') < NBUF" using card_mono [OF _ c'(5)] room by (simp add: le_less_trans)
  have "\<exists>b c1 b' c2. bread pid 1 m c = Ok (b, c1) \<and> bread pid 1 m c' = Ok (b', c2) \<and>
       b_data (bufs c2 b') = (if m = n then v else b_data (bufs c1 b))" if m: "m < disksize (disk c)" for m
  proof -
    from bread_ok [OF inv m] room obtain b c1 where 1: "bread pid 1 m c = Ok (b, c1)" "b_data (bufs c1 b) = bview c m" by auto
    have "m < disksize (disk c')" using m c'(4) by (simp add: disk_write_def)
    from bread_ok [OF c'(2) this] room' obtain b' c2 where "bread pid 1 m c' = Ok (b', c2)" "b_data (bufs c2 b') = bview c' m"
      by auto
    with 1 c'(3) show ?thesis by auto
  qed
  with c' show ?thesis by blast
qed

definition zero_disk :: "uint \<Rightarrow> kdisk" where
  "zero_disk sz = \<lparr>disksize = sz, memdisk = (\<lambda>_. replicate BSIZE 0), dwrites = []\<rparr>"

lemma binv_zero_disk: "binv pid {} (boot (zero_disk sz))"
  by (rule binv_boot) (simp add: zero_disk_def)

theorem bio_read_your_writes_witness:
  "\<exists>c'. bio_update 3 7 (replicate BSIZE 1) (boot (zero_disk 1000)) = Ok c' \<and> binv 3 {} c' \<and>
    (\<forall>m < disksize (disk (boot (zero_disk 1000))). \<exists>b c1 b' c2. bread 3 1 m (boot (zero_disk 1000)) = Ok (b, c1) \<and>
       bread 3 1 m c' = Ok (b', c2) \<and> b_data (bufs c2 b') = (if m = 7 then replicate BSIZE 1 else b_data (bufs c1 b)))"
  by (rule bio_read_your_writes [OF binv_zero_disk]) (simp_all add: boot_clean NBUF_def, simp add: zero_disk_def)

text \<open>
  C16: the list is a least-recently-used order. \<open>brelse\<close> of the last reference moves the
  buffer to the front and keeps the order of the others, and a miss in \<open>bget\<close> recycles the
  unreferenced clean buffer that is furthest back.
\<close>

theorem bcache_lru:
  assumes l: "blist (bufs c) (us @ b # vs)" and b: "b_refcnt (bufs c b) = 1" "holdingsleep pid (b_lock (bufs c b))"
  shows "\<exists>c'. brelse pid b c = Ok c' \<and> blist (bufs c') (b # us @ vs) \<and>
    bget_victim (bufs c') (b_prev (bufs c' BHEAD)) =
      Some (find (\<lambda>i. b_refcnt (bufs c' i) = 0 \<and> \<not> bdirty (bufs c' i)) (rev vs @ rev us @ [b]))"
proof -
  let ?c = "upd_buf b (\<lambda>x. x\<lparr>b_lock := releasesleep (b_lock x), b_refcnt := b_refcnt x - 1\<rparr>) c"
  have "brelse pid b c = Ok (?c\<lparr>bufs := brelse_move b (bufs ?c)\<rparr>)"
    using b by (simp add: brelse_def Let_def upd_buf_def)
  moreover have "blist (bufs ?c) (us @ b # vs)"
    by (rule blist_cong [THEN iffD1, OF _ _ l]) (simp_all add: bufs_upd_buf)
  then have "blist (brelse_move b (bufs ?c)) (b # us @ vs)" by (rule blist_move)
  ultimately show ?thesis using bget_victim_blist [of _ "b # us @ vs"] by auto
qed

definition held_boot :: "nat set \<Rightarrow> bcache" where
  "held_boot H = (boot (zero_disk 1000))\<lparr>bufs := (\<lambda>i. if i \<in> H
     then (bufs (boot (zero_disk 1000)) i)\<lparr>b_refcnt := 1, b_lock := \<lparr>sl_locked = 1, sl_pid = 3\<rparr>\<rparr>
     else bufs (boot (zero_disk 1000)) i)\<rparr>"

lemma blist_boot: "blist (bufs (boot d)) (rev [0..<NBUF])"
  unfolding boot_def by (rule blist_binit)

lemma blist_held_boot: "blist (bufs (held_boot H)) (rev [0..<NBUF])"
  by (rule blist_cong [THEN iffD1, OF _ _ blist_boot]) (simp_all add: held_boot_def)

theorem bcache_lru_witness:
  "\<exists>c'. brelse 3 5 (held_boot {5}) = Ok c' \<and> blist (bufs c') (5 # rev [6..<NBUF] @ rev [0..<5]) \<and>
    bget_victim (bufs c') (b_prev (bufs c' BHEAD)) =
      Some (find (\<lambda>i. b_refcnt (bufs c' i) = 0 \<and> \<not> bdirty (bufs c' i)) (rev (rev [0..<5]) @ rev (rev [6..<NBUF]) @ [5]))"
proof -
  have "rev [0..<NBUF] = rev [6..<NBUF] @ 5 # rev [0..<5]" by (simp add: NBUF_def upt_rec)
  then show ?thesis
    using bcache_lru [of "held_boot {5}" "rev [6..<NBUF]" 5 "rev [0..<5]" 3] blist_held_boot [of "{5}"]
    by (simp add: held_boot_def holdingsleep_def)
qed

text \<open>How \<open>bread\<close> ends when a buffer that is free of others' locks is found, and when none is.\<close>

lemma bread_cases:
  assumes l: "blist (bufs c) xs" "set xs = {..<NBUF}"
  shows "(\<exists>b<NBUF. for_block n (bufs c b) \<and>
      bread pid 1 n c = kbind (acquiresleep pid (b_lock (bufs c b))) (\<lambda>lk.
        let c = upd_buf b (\<lambda>x. x\<lparr>b_refcnt := b_refcnt x + 1, b_lock := lk\<rparr>) c in
        if b_flags (bufs c b) AND B_VALID = 0 then kbind (iderw pid b c) (\<lambda>c. Ok (b, c)) else Ok (b, c))) \<or>
    (\<exists>b<NBUF. n \<notin> cached_blocks c \<and> b_refcnt (bufs c b) = 0 \<and> \<not> bdirty (bufs c b) \<and>
      bread pid 1 n c = kbind (acquiresleep pid (b_lock (bufs c b))) (\<lambda>lk.
        kbind (iderw pid b (upd_buf b (\<lambda>x. x\<lparr>b_dev := 1, b_blockno := n, b_flags := 0, b_refcnt := 1, b_lock := lk\<rparr>) c))
          (\<lambda>c. Ok (b, c)))) \<or>
    n \<notin> cached_blocks c \<and> (\<forall>i<NBUF. b_refcnt (bufs c i) \<noteq> 0 \<or> bdirty (bufs c i)) \<and>
      bread pid 1 n c = Panic ''bget: no buffers''"
proof -
  let ?hit = "find (\<lambda>i. b_dev (bufs c i) = 1 \<and> b_blockno (bufs c i) = n) xs"
  let ?victim = "find (\<lambda>i. b_refcnt (bufs c i) = 0 \<and> \<not> bdirty (bufs c i)) (rev xs)"
  have look: "bget_lookup (bufs c) 1 n (b_next (bufs c BHEAD)) = Some ?hit" by (rule bget_lookup_blist [OF l(1)])
  have vic: "bget_victim (bufs c) (b_prev (bufs c BHEAD)) = Some ?victim" by (rule bget_victim_blist [OF l(1)])
  show ?thesis
  proof (cases ?hit)
    case (Some b)
    then have "b < NBUF" "for_block n (bufs c b)" using l(2) nth_mem [of _ xs] by (fastforce simp: find_Some_iff for_block_def)+
    then show ?thesis using look Some by (intro disjI1 exI [of _ b]) (simp add: bread_def bget_def kres_simps Let_def)
  next
    case None
    then have nc: "n \<notin> cached_blocks c" using l(2) by (auto simp: find_None_iff cached_blocks_def for_block_def)
    show ?thesis
    proof (cases ?victim)
      case (Some b)
      then have "b \<in> set (rev xs) \<and> b_refcnt (bufs c b) = 0 \<and> \<not> bdirty (bufs c b)" using nth_mem [of _ "rev xs"] by (fastforce simp: find_Some_iff)
      then show ?thesis using look vic Some None nc l(2)
        by (intro disjI2 disjI1 exI [of _ b]) (simp add: bread_def bget_def kres_simps bufs_upd_buf)
    next
      case v: None
      then have "\<forall>i<NBUF. b_refcnt (bufs c i) \<noteq> 0 \<or> bdirty (bufs c i)" using l(2) by (auto simp: find_None_iff)
      then show ?thesis using look vic None v nc by (simp add: bread_def bget_def)
    qed
  qed
qed

text \<open>
  C17: the outcomes of \<open>bread\<close>, whoever holds buffers. It panics for want of a buffer exactly when the
  block is not cached and every buffer is referenced or pinned dirty. If it does not and the block is on
  the disk, then it returns a buffer with the block's valid data, locked by the caller, or sleeps on the
  lock of the buffer; it sleeps only if some buffer is locked. (For a block that is not cached and
  not on the disk the driver panics instead.)
\<close>

theorem bread_no_buffers:
  assumes "blist (bufs c) xs" and "set xs = {..<NBUF}"
  shows "(bread pid 1 n c = Panic ''bget: no buffers'' \<longleftrightarrow>
      n \<notin> cached_blocks c \<and> (\<forall>i<NBUF. b_refcnt (bufs c i) \<noteq> 0 \<or> bdirty (bufs c i))) \<and>
    (bread pid 1 n c \<noteq> Panic ''bget: no buffers'' \<and> n < disksize (disk c) \<longrightarrow> bread pid 1 n c = Sleeps \<or>
      (\<exists>b c'. bread pid 1 n c = Ok (b, c') \<and> b < NBUF \<and> for_block n (bufs c' b) \<and> bvalid (bufs c' b) \<and>
         holdingsleep pid (b_lock (bufs c' b)))) \<and>
    ((\<forall>i<NBUF. sl_locked (b_lock (bufs c i)) = 0) \<longrightarrow> bread pid 1 n c \<noteq> Sleeps)"
  using bread_cases [OF assms, of n pid]
proof (elim disjE exE conjE)
  fix b assume b: "b < NBUF" "for_block n (bufs c b)"
    and r: "bread pid 1 n c = kbind (acquiresleep pid (b_lock (bufs c b))) (\<lambda>lk.
        let c = upd_buf b (\<lambda>x. x\<lparr>b_refcnt := b_refcnt x + 1, b_lock := lk\<rparr>) c in
        if b_flags (bufs c b) AND B_VALID = 0 then kbind (iderw pid b c) (\<lambda>c. Ok (b, c)) else Ok (b, c))"
  then have "n \<in> cached_blocks c" by (auto simp: cached_blocks_def)
  then show ?thesis
    unfolding r using b by (auto simp: acquiresleep_def iderw_def holdingsleep_def for_block_def bufs_upd_buf Let_def)
next
  fix b assume b: "b < NBUF" "n \<notin> cached_blocks c" "b_refcnt (bufs c b) = 0" "\<not> bdirty (bufs c b)"
    and r: "bread pid 1 n c = kbind (acquiresleep pid (b_lock (bufs c b))) (\<lambda>lk.
        kbind (iderw pid b (upd_buf b (\<lambda>x. x\<lparr>b_dev := 1, b_blockno := n, b_flags := 0, b_refcnt := 1, b_lock := lk\<rparr>) c))
          (\<lambda>c. Ok (b, c)))"
  then show ?thesis
    unfolding r using b by (auto simp: acquiresleep_def iderw_def holdingsleep_def for_block_def bufs_upd_buf Let_def B_VALID_def)
qed simp

theorem bread_no_buffers_witness:
  "bread 3 1 9 (held_boot {..<NBUF}) = Panic ''bget: no buffers'' \<and> (\<exists>b c'. bread 3 1 9 (held_boot {}) = Ok (b, c'))"
proof
  have s: "set (rev [0..<NBUF]) = {..<NBUF}" by auto
  have z: "b_dev (bufs (boot d) i) = 0 \<and> b_refcnt (bufs (boot d) i) = 0 \<and> sl_locked (b_lock (bufs (boot d) i)) = 0 \<and>
      \<not> bdirty (bufs (boot d) i)" for d i
    using bcore_boot [of d i] by (simp add: bcore_eq_iff zero_buf_def)
  note B = bread_no_buffers [OF blist_held_boot s, where n = 9 and pid = 3]
  have nc: "9 \<notin> cached_blocks (held_boot H)" for H
    using z by (simp add: cached_blocks_def for_block_def held_boot_def)
  have "\<forall>i<NBUF. b_refcnt (bufs (held_boot {..<NBUF}) i) \<noteq> 0" by (simp add: held_boot_def)
  then show "bread 3 1 9 (held_boot {..<NBUF}) = Panic ''bget: no buffers''" using B [of "{..<NBUF}"] nc by blast
  have "\<not> (\<forall>i<NBUF. b_refcnt (bufs (held_boot {}) i) \<noteq> 0 \<or> bdirty (bufs (held_boot {}) i))"
    using z by (auto simp: held_boot_def NBUF_def intro!: exI [of _ 0])
  moreover have "\<forall>i<NBUF. sl_locked (b_lock (bufs (held_boot {}) i)) = 0" using z by (simp add: held_boot_def)
  moreover have "9 < disksize (disk (held_boot {}))" by (simp add: held_boot_def zero_disk_def)
  ultimately show "\<exists>b c'. bread 3 1 9 (held_boot {}) = Ok (b, c')" using B [of "{}"] by blast
qed

end
