(* ===== verification/Xv6_Log.thy ===== *)
theory Xv6_Log
  imports Xv6_Bio
begin

text \<open>
  The write-ahead log of the kernel (\<open>log.c\<close>): system calls bracket their disk updates with
  \<open>begin_op\<close> and \<open>end_op\<close>, \<open>log_write\<close> records the updated blocks, and the last \<open>end_op\<close>
  commits them. The state is the \<open>struct log\<close> of the source beside the buffer cache. The
  superblock reader of \<open>fs.c\<close> is here because \<open>initlog\<close> starts with it.

  The lemmas lead to crash atomicity: whatever prefix of the disk writes of a commit reaches
  the disk, the recovery that \<open>initlog\<close> runs at the next boot leaves either all of the
  transaction's blocks or none of them.
\<close>

section \<open>Constants and data\<close>

definition MAXOPBLOCKS :: int where "MAXOPBLOCKS = 10"
definition LOGSIZE :: int where "LOGSIZE = MAXOPBLOCKS * 3"

record logheader =
  lh_n :: int
  lh_block :: "int list"

record klog =
  l_start :: int
  l_size :: int
  l_outstanding :: int
  l_committing :: int
  l_dev :: int
  l_lh :: logheader

record lstate =
  lg :: klog
  bc :: bcache

text \<open>C's \<open>int\<close> in memory.\<close>

definition enc_int :: "int \<Rightarrow> byte list" where
  "enc_int i = enc_u32 (word_of_int i)"

definition dec_int :: "byte list \<Rightarrow> int" where
  "dec_int bs = sint (dec_u32 bs)"

section \<open>The superblock\<close>

record superblock =
  sb_size :: uint
  sb_nblocks :: uint
  sb_ninodes :: uint
  sb_nlog :: uint
  sb_logstart :: uint
  sb_inodestart :: uint
  sb_bmapstart :: uint

definition dec_sb :: "byte list \<Rightarrow> superblock" where
  "dec_sb d =
     \<lparr>sb_size = dec_u32 (slice 0 4 d), sb_nblocks = dec_u32 (slice 4 4 d),
      sb_ninodes = dec_u32 (slice 8 4 d), sb_nlog = dec_u32 (slice 12 4 d),
      sb_logstart = dec_u32 (slice 16 4 d), sb_inodestart = dec_u32 (slice 20 4 d),
      sb_bmapstart = dec_u32 (slice 24 4 d)\<rparr>"

definition readsb :: "int \<Rightarrow> uint \<Rightarrow> bcache \<Rightarrow> (superblock \<times> bcache) kres" where
  "readsb pid dev c =
    kbind (bread pid dev 1 c) (\<lambda>(bp, c).
      let sb = dec_sb (b_data (bufs c bp)) in
      kbind (brelse pid bp c) (\<lambda>c. Ok (sb, c)))"

section \<open>Copying blocks between the log and their homes\<close>

definition install_block :: "int \<Rightarrow> nat \<Rightarrow> lstate \<Rightarrow> lstate kres" where
  "install_block pid tail s =
    (let dev = word_of_int (l_dev (lg s)) in
     kbind (bread pid dev (word_of_int (l_start (lg s) + int tail + 1)) (bc s)) (\<lambda>(lbuf, c).
     if tail \<ge> length (lh_block (l_lh (lg s))) then Undefined else
     kbind (bread pid dev (word_of_int (lh_block (l_lh (lg s)) ! tail)) c) (\<lambda>(dbuf, c).
     kbind (bwrite pid dbuf (set_data dbuf (b_data (bufs c lbuf)) c)) (\<lambda>c.
     kbind (brelse pid lbuf c) (\<lambda>c.
     kbind (brelse pid dbuf c) (\<lambda>c. Ok (s\<lparr>bc := c\<rparr>)))))))"

definition install_trans :: "int \<Rightarrow> lstate \<Rightarrow> lstate kres" where
  "install_trans pid s = kfor (nat (lh_n (l_lh (lg s)))) (install_block pid) 0 s"

definition write_log_block :: "int \<Rightarrow> nat \<Rightarrow> lstate \<Rightarrow> lstate kres" where
  "write_log_block pid tail s =
    (let dev = word_of_int (l_dev (lg s)) in
     kbind (bread pid dev (word_of_int (l_start (lg s) + int tail + 1)) (bc s)) (\<lambda>(tob, c).
     if tail \<ge> length (lh_block (l_lh (lg s))) then Undefined else
     kbind (bread pid dev (word_of_int (lh_block (l_lh (lg s)) ! tail)) c) (\<lambda>(frm, c).
     kbind (bwrite pid tob (set_data tob (b_data (bufs c frm)) c)) (\<lambda>c.
     kbind (brelse pid frm c) (\<lambda>c.
     kbind (brelse pid tob c) (\<lambda>c. Ok (s\<lparr>bc := c\<rparr>)))))))"

definition write_log :: "int \<Rightarrow> lstate \<Rightarrow> lstate kres" where
  "write_log pid s = kfor (nat (lh_n (l_lh (lg s)))) (write_log_block pid) 0 s"

section \<open>The log header\<close>

definition read_head_block :: "byte list \<Rightarrow> nat \<Rightarrow> int list \<Rightarrow> int list kres" where
  "read_head_block d i bl =
    (if i \<ge> length bl then Undefined else Ok (bl[i := dec_int (slice (4 + 4 * i) 4 d)]))"

definition read_head :: "int \<Rightarrow> lstate \<Rightarrow> lstate kres" where
  "read_head pid s =
    kbind (bread pid (word_of_int (l_dev (lg s))) (word_of_int (l_start (lg s))) (bc s)) (\<lambda>(b, c).
      let d = b_data (bufs c b); n = dec_int (slice 0 4 d) in
      kbind (kfor (nat n) (read_head_block d) 0 (lh_block (l_lh (lg s)))) (\<lambda>bl.
      kbind (brelse pid b c) (\<lambda>c.
        Ok (s\<lparr>lg := (lg s)\<lparr>l_lh := \<lparr>lh_n = n, lh_block = bl\<rparr>\<rparr>, bc := c\<rparr>))))"

definition write_head_block :: "int list \<Rightarrow> nat \<Rightarrow> byte list \<Rightarrow> byte list kres" where
  "write_head_block bl i d =
    (if i \<ge> length bl \<or> 4 + 4 * i + 4 > length d then Undefined
     else Ok (splice (4 + 4 * i) (enc_int (bl ! i)) d))"

definition write_head :: "int \<Rightarrow> lstate \<Rightarrow> lstate kres" where
  "write_head pid s =
    kbind (bread pid (word_of_int (l_dev (lg s))) (word_of_int (l_start (lg s))) (bc s)) (\<lambda>(b, c).
      let lh = l_lh (lg s); d = splice 0 (enc_int (lh_n lh)) (b_data (bufs c b)) in
      kbind (kfor (nat (lh_n lh)) (write_head_block (lh_block lh)) 0 d) (\<lambda>d.
      kbind (bwrite pid b (set_data b d c)) (\<lambda>c.
      kbind (brelse pid b c) (\<lambda>c. Ok (s\<lparr>bc := c\<rparr>)))))"

definition clear_lh :: "lstate \<Rightarrow> lstate" where
  "clear_lh s = s\<lparr>lg := (lg s)\<lparr>l_lh := (l_lh (lg s))\<lparr>lh_n := 0\<rparr>\<rparr>\<rparr>"

section \<open>Recovery, commit, transactions\<close>

definition recover_from_log :: "int \<Rightarrow> lstate \<Rightarrow> lstate kres" where
  "recover_from_log pid s =
    kbind (read_head pid s) (\<lambda>s.
    kbind (install_trans pid s) (\<lambda>s.
    write_head pid (clear_lh s)))"

text \<open>The size check of \<open>initlog\<close> is on constants: 4 bytes for \<open>n\<close> and 4 for each entry.\<close>

definition initlog :: "int \<Rightarrow> int \<Rightarrow> lstate \<Rightarrow> lstate kres" where
  "initlog pid dev s =
    (if 4 + 4 * LOGSIZE \<ge> int BSIZE then Panic ''initlog: too big logheader''
     else
       kbind (readsb pid (word_of_int dev) (bc s)) (\<lambda>(sb, c).
         recover_from_log pid
           (s\<lparr>lg := (lg s)\<lparr>l_start := sint (sb_logstart sb), l_size := sint (sb_nlog sb), l_dev := dev\<rparr>,
              bc := c\<rparr>)))"

definition commit :: "int \<Rightarrow> lstate \<Rightarrow> lstate kres" where
  "commit pid s =
    (if lh_n (l_lh (lg s)) > 0 then
       kbind (write_log pid s) (\<lambda>s.
       kbind (write_head pid s) (\<lambda>s.
       kbind (install_trans pid s) (\<lambda>s.
       write_head pid (clear_lh s))))
     else Ok s)"

definition begin_op :: "klog \<Rightarrow> klog kres" where
  "begin_op l =
    (if l_committing l \<noteq> 0 then Sleeps
     else if lh_n (l_lh l) + (l_outstanding l + 1) * MAXOPBLOCKS > LOGSIZE then Sleeps
     else Ok (l\<lparr>l_outstanding := l_outstanding l + 1\<rparr>))"

text \<open>
  \<open>end_op\<close> has two critical sections: entering, which decides whether to commit, and
  leaving after the commit.
\<close>

definition end_op_enter :: "klog \<Rightarrow> (bool \<times> klog) kres" where
  "end_op_enter l =
    (let l = l\<lparr>l_outstanding := l_outstanding l - 1\<rparr> in
     if l_committing l \<noteq> 0 then Panic ''log.committing''
     else if l_outstanding l = 0 then Ok (True, l\<lparr>l_committing := 1\<rparr>)
     else Ok (False, l))"

definition end_op_leave :: "klog \<Rightarrow> klog" where
  "end_op_leave l = l\<lparr>l_committing := 0\<rparr>"

definition end_op :: "int \<Rightarrow> lstate \<Rightarrow> lstate kres" where
  "end_op pid s =
    kbind (end_op_enter (lg s)) (\<lambda>(do_commit, l).
      if do_commit then
        kbind (commit pid (s\<lparr>lg := l\<rparr>)) (\<lambda>s. Ok (s\<lparr>lg := end_op_leave (lg s)\<rparr>))
      else Ok (s\<lparr>lg := l\<rparr>))"

text \<open>The absorption loop of \<open>log_write\<close>: the first entry for the block, or \<open>lh.n\<close>.\<close>

primrec log_scan :: "int list \<Rightarrow> uint \<Rightarrow> nat \<Rightarrow> nat \<Rightarrow> nat" where
  "log_scan bl n i 0 = i"
| "log_scan bl n i (Suc k) = (if word_of_int (bl ! i) = n then i else log_scan bl n (Suc i) k)"

definition log_add :: "uint \<Rightarrow> klog \<Rightarrow> klog" where
  "log_add bn l =
    (let lh = l_lh l; i = log_scan (lh_block lh) bn 0 (nat (lh_n lh)) in
     l\<lparr>l_lh := lh\<lparr>lh_block := (lh_block lh)[i := sint bn],
                    lh_n := (if int i = lh_n lh then lh_n lh + 1 else lh_n lh)\<rparr>\<rparr>)"

definition log_record :: "uint \<Rightarrow> klog \<Rightarrow> klog kres" where
  "log_record bn l =
    (if lh_n (l_lh l) \<ge> LOGSIZE \<or> lh_n (l_lh l) \<ge> l_size l - 1 then Panic ''too big a transaction''
     else if l_outstanding l < 1 then Panic ''log_write outside of trans''
     else Ok (log_add bn l))"

definition log_write :: "nat \<Rightarrow> lstate \<Rightarrow> lstate kres" where
  "log_write b s =
    kbind (log_record (b_blockno (bufs (bc s) b)) (lg s)) (\<lambda>l.
      Ok (s\<lparr>lg := l, bc := upd_buf b (\<lambda>x. x\<lparr>b_flags := b_flags x OR B_DIRTY\<rparr>) (bc s)\<rparr>))"

section \<open>Copying one block\<close>

lemma card_dirty: "binv pid H c \<Longrightarrow> card (dirty_blocks c) = card (dirty_bufs c)"
proof -
  assume inv: "binv pid H c"
  have "inj_on (\<lambda>i. b_blockno (bufs c i)) (dirty_bufs c)"
  proof (rule inj_onI)
    fix i j assume ij: "i \<in> dirty_bufs c" "j \<in> dirty_bufs c" "b_blockno (bufs c i) = b_blockno (bufs c j)"
    then have "i < NBUF" "j < NBUF" "b_dev (bufs c i) = 1" "b_dev (bufs c j) = 1"
      using dirty_dev [OF inv] by (auto simp: dirty_bufs_def)
    then show "i = j" using ij(3) binv_uniq [OF inv, of i j "b_blockno (bufs c i)"] by (simp add: for_block_def)
  qed
  then show ?thesis unfolding dirty_blocks_def by (rule card_image)
qed

text \<open>Reading two different blocks with nothing else held.\<close>

lemma bread2_ok:
  assumes inv: "binv pid {} c" and p: "p < disksize (disk c)" and q: "q < disksize (disk c)"
    and pq: "p \<noteq> q" and room: "card (dirty_blocks c) < NBUF"
      "q \<in> dirty_blocks c \<or> card (dirty_blocks c) + 1 < NBUF"
  shows "\<exists>b1 c1 b2 c2. bread pid 1 p c = Ok (b1, c1) \<and> bread pid 1 q c1 = Ok (b2, c2) \<and>
    binv pid {b1, b2} c2 \<and> b1 \<noteq> b2 \<and> b_blockno (bufs c2 b1) = p \<and> b_blockno (bufs c2 b2) = q \<and>
    b_data (bufs c2 b1) = bview c p \<and> b_data (bufs c2 b2) = bview c q \<and>
    bview c2 = bview c \<and> disk c2 = disk c \<and> dirty_blocks c2 = dirty_blocks c"
proof -
  have "p \<in> cached_blocks c \<or> card ({} \<union> dirty_bufs c) < NBUF" using room(1) card_dirty [OF inv] by simp
  then obtain b1 c1 where 1: "bread pid 1 p c = Ok (b1, c1)" "binv pid {b1} c1" "for_block p (bufs c1 b1)"
      "b_data (bufs c1 b1) = bview c p" "bview c1 = bview c" "disk c1 = disk c" "dirty_bufs c1 = dirty_bufs c"
      "dirty_blocks c1 = dirty_blocks c"
    using bread_ok [OF inv p] by auto
  have "card (insert b1 (dirty_bufs c1)) \<le> Suc (card (dirty_bufs c1))" by (simp add: card_insert_if)
  then have room2: "q \<in> cached_blocks c1 \<or> card ({b1} \<union> dirty_bufs c1) < NBUF"
    using room(2) 1(7,8) card_dirty [OF inv] dirty_cached [OF 1(2)] by auto
  have "b_blockno (bufs c1 b1) = p" using 1(3) by (simp add: for_block_def)
  then obtain b2 c2 where 2: "bread pid 1 q c1 = Ok (b2, c2)" "b2 \<noteq> b1" "binv pid {b2, b1} c2"
      "for_block q (bufs c2 b2)" "b_data (bufs c2 b2) = bview c1 q" "bview c2 = bview c1" "disk c2 = disk c1"
      "dirty_blocks c2 = dirty_blocks c1" "bufs c2 b1 = bufs c1 b1"
    using bread_ok [OF 1(2) _ _ room2] q pq 1(6) by auto
  show ?thesis
    by (intro exI [of _ b1] exI [of _ c1] exI [of _ b2] exI [of _ c2])
      (use 1 2 in \<open>auto simp: for_block_def insert_commute\<close>)
qed

text \<open>The second half of a copy: write the destination out and release both.\<close>

lemma copy_release_ok:
  assumes inv: "binv pid {b1, b2} c" and ne: "b1 \<noteq> b2"
    and cl: "bdirty (bufs c b1) \<or> b_data (bufs c b1) = memdisk (disk c) (b_blockno (bufs c b1))"
  shows "\<exists>c'. kbind (bwrite pid b2 (set_data b2 (b_data (bufs c b1)) c)) (\<lambda>c.
      kbind (brelse pid b1 c) (\<lambda>c. brelse pid b2 c)) = Ok c' \<and> binv pid {} c' \<and>
    disk c' = disk_write (b_blockno (bufs c b2)) (b_data (bufs c b1)) (disk c) \<and>
    bview c' = (bview c)(b_blockno (bufs c b2) := b_data (bufs c b1)) \<and>
    dirty_blocks c' = dirty_blocks c - {b_blockno (bufs c b2)}"
proof -
  let ?v = "b_data (bufs c b1)" and ?n = "b_blockno (bufs c b2)"
  have len: "length ?v = BSIZE" using held_facts(5) [OF inv] by simp
  have nn: "b_blockno (bufs c b1) \<noteq> ?n"
    using binv_uniq [OF inv, of b1 b2 ?n] ne held_facts(1,2) [OF inv, of b1] held_facts(1,2) [OF inv, of b2]
    by (auto simp: for_block_def)
  note sd = set_data_ok [OF inv _ len, of b2, simplified]
  obtain c1 f where 1: "bwrite pid b2 (set_data b2 ?v c) = Ok c1" "binv pid {b1, b2} c1"
      "bview c1 = (bview c)(?n := ?v)" "disk c1 = disk_write ?n ?v (disk c)"
      "dirty_blocks c1 = dirty_blocks c - {?n}" "bufs c1 b2 = (bufs c b2)\<lparr>b_data := ?v, b_flags := f\<rparr>"
      "bufs c1 b1 = bufs c b1"
    using bwrite_ok [OF sd(1), of b2] sd ne by auto
  have "bdirty (bufs c1 b1) \<or> b_data (bufs c1 b1) = memdisk (disk c1) (b_blockno (bufs c1 b1))"
    using cl 1(4,7) nn by (auto simp: disk_write_def)
  then obtain c2 where 2: "brelse pid b1 c1 = Ok c2" "binv pid ({b1, b2} - {b1}) c2" "bview c2 = bview c1"
      "disk c2 = disk c1" "dirty_blocks c2 = dirty_blocks c1" "bcore (bufs c2 b2) = bcore (bufs c1 b2)"
    using brelse_ok [OF 1(2), of b1] ne by auto
  have H: "{b1, b2} - {b1} = {b2}" using ne by auto
  have "b_data (bufs c2 b2) = memdisk (disk c2) (b_blockno (bufs c2 b2))"
    using 2(4,6) 1(4,6) by (auto simp: disk_write_def bcore_eq_iff)
  then obtain c3 where "brelse pid b2 c2 = Ok c3" "binv pid {} c3" "bview c3 = bview c2"
      "disk c3 = disk c2" "dirty_blocks c3 = dirty_blocks c2"
    using brelse_ok [OF 2(2) [unfolded H], of b2] by auto
  then show ?thesis using 1 2 by simp
qed

section \<open>Where the log lies on the disk\<close>

definition log_hdr :: "klog \<Rightarrow> uint" where "log_hdr l = word_of_int (l_start l)"
definition log_slot :: "klog \<Rightarrow> nat \<Rightarrow> uint" where "log_slot l i = word_of_int (l_start l + int i + 1)"
definition log_home :: "klog \<Rightarrow> nat \<Rightarrow> uint" where "log_home l i = word_of_int (lh_block (l_lh l) ! i)"

abbreviation logn :: "klog \<Rightarrow> nat" where "logn l \<equiv> nat (lh_n (l_lh l))"

text \<open>
  The log lies inside the disk, behind the boot block and the superblock, and the blocks
  of the transaction are different blocks outside it.
\<close>

definition log_wf :: "uint \<Rightarrow> klog \<Rightarrow> bool" where
  "log_wf sz l \<longleftrightarrow> l_dev l = 1 \<and> 2 \<le> l_start l \<and> 0 < l_size l \<and> l_size l \<le> LOGSIZE \<and>
     l_start l + l_size l \<le> uint sz \<and> uint sz < 2 ^ 31 \<and>
     0 \<le> lh_n (l_lh l) \<and> lh_n (l_lh l) < l_size l \<and> length (lh_block (l_lh l)) = nat LOGSIZE \<and>
     distinct (take (logn l) (lh_block (l_lh l))) \<and>
     (\<forall>b \<in> set (take (logn l) (lh_block (l_lh l))).
        2 \<le> b \<and> b < uint sz \<and> (b < l_start l \<or> l_start l + l_size l \<le> b))"

lemma LOGSIZE_val: "LOGSIZE = 30"
  by (simp add: LOGSIZE_def MAXOPBLOCKS_def)

lemma uint_of_int_u32: "0 \<le> x \<Longrightarrow> x < 2 ^ 32 \<Longrightarrow> uint (word_of_int x :: uint) = x"
  by (simp add: unsigned_of_int take_bit_int_eq_self)

lemma sint_of_int_u32: "- (2 ^ 31) \<le> x \<Longrightarrow> x < 2 ^ 31 \<Longrightarrow> sint (word_of_int x :: uint) = x"
  by (simp add: signed_of_int signed_take_bit_int_eq_self)

lemma log_wf_entry:
  assumes "log_wf sz l" and "i < logn l"
  shows "2 \<le> lh_block (l_lh l) ! i" and "lh_block (l_lh l) ! i < uint sz"
    and "lh_block (l_lh l) ! i < l_start l \<or> l_start l + l_size l \<le> lh_block (l_lh l) ! i"
    and "i < length (lh_block (l_lh l))" and "uint (log_home l i) = lh_block (l_lh l) ! i"
    and "uint (log_slot l i) = l_start l + int i + 1" and "int i < l_size l - 1"
proof -
  have len: "i < length (lh_block (l_lh l))" and i: "int i < l_size l - 1" using assms by (auto simp: log_wf_def)
  then have "lh_block (l_lh l) ! i \<in> set (take (logn l) (lh_block (l_lh l)))"
    using assms(2) by (metis in_set_conv_nth length_take min_less_iff_conj nth_take)
  then show b: "2 \<le> lh_block (l_lh l) ! i" "lh_block (l_lh l) ! i < uint sz"
      "lh_block (l_lh l) ! i < l_start l \<or> l_start l + l_size l \<le> lh_block (l_lh l) ! i"
    using assms(1) by (auto simp: log_wf_def)
  show "uint (log_home l i) = lh_block (l_lh l) ! i"
    using b assms(1) unfolding log_home_def by (intro uint_of_int_u32) (auto simp: log_wf_def)
  show "uint (log_slot l i) = l_start l + int i + 1"
    using i assms(1) unfolding log_slot_def by (intro uint_of_int_u32) (auto simp: log_wf_def)
  show "i < length (lh_block (l_lh l))" "int i < l_size l - 1" by fact+
qed

lemma uint_log_hdr: "log_wf sz l \<Longrightarrow> uint (log_hdr l) = l_start l"
  unfolding log_hdr_def by (rule uint_of_int_u32) (auto simp: log_wf_def)

lemma log_layout:
  assumes wf: "log_wf sz l" and i: "i < logn l"
  shows "log_home l i < sz" and "log_slot l i < sz" and "log_hdr l < sz" and "1 < log_home l i"
    and "j < logn l \<Longrightarrow> log_slot l i \<noteq> log_home l j" and "j < logn l \<Longrightarrow> log_home l i = log_home l j \<longleftrightarrow> i = j"
    and "j < logn l \<Longrightarrow> log_slot l i = log_slot l j \<longleftrightarrow> i = j"
    and "log_hdr l \<noteq> log_slot l i" and "log_hdr l \<noteq> log_home l i"
proof -
  note e = log_wf_entry [OF wf i] and h = uint_log_hdr [OF wf]
  have g: "2 \<le> l_start l" "l_start l + l_size l \<le> uint sz" using wf by (auto simp: log_wf_def)
  show "log_home l i < sz" "1 < log_home l i" unfolding word_less_def e(5) using e(1,2) by simp_all
  show "log_slot l i < sz" unfolding word_less_def e(6) using e(7) g by linarith
  show "log_hdr l < sz" unfolding word_less_def h using e(7) g by linarith
  show "log_hdr l \<noteq> log_slot l i" unfolding word_uint_eq_iff h e(6) by linarith
  show "log_hdr l \<noteq> log_home l i" unfolding word_uint_eq_iff h e(5) using e(3,7) by linarith
  assume j: "j < logn l"
  note e' = log_wf_entry [OF wf j]
  show "log_slot l i \<noteq> log_home l j" unfolding word_uint_eq_iff e(6) e'(5) using e(7) e'(3) by linarith
  show "log_slot l i = log_slot l j \<longleftrightarrow> i = j" unfolding word_uint_eq_iff e(6) e'(6) by linarith
  have "distinct (take (logn l) (lh_block (l_lh l)))" using wf unfolding log_wf_def by blast
  then have "lh_block (l_lh l) ! i = lh_block (l_lh l) ! j \<longleftrightarrow> i = j"
    using i j e(4) e'(4) nth_eq_iff_index_eq [of "take (logn l) (lh_block (l_lh l))" i j] by simp
  then show "log_home l i = log_home l j \<longleftrightarrow> i = j" unfolding word_uint_eq_iff e(5) e'(5) .
qed

section \<open>Sequences of disk writes\<close>

definition upd_all :: "(uint \<times> byte list) list \<Rightarrow> (uint \<Rightarrow> byte list) \<Rightarrow> uint \<Rightarrow> byte list" where
  "upd_all ws f = fold (\<lambda>(n, v) f. f(n := v)) ws f"

definition apply_writes :: "(uint \<times> byte list) list \<Rightarrow> kdisk \<Rightarrow> kdisk" where
  "apply_writes ws d = d\<lparr>memdisk := upd_all ws (memdisk d), dwrites := dwrites d @ ws\<rparr>"

lemma upd_all_simps [simp]:
  "upd_all [] f = f" "upd_all (w # ws) f = upd_all ws (f(fst w := snd w))"
  "upd_all (us @ ws) f = upd_all ws (upd_all us f)"
  by (simp_all add: upd_all_def split_beta)

lemma upd_all_other: "n \<notin> fst ` set ws \<Longrightarrow> upd_all ws f n = f n"
  by (induction ws arbitrary: f) auto

lemma upd_all_map:
  "i \<in> set is \<Longrightarrow> inj_on g (set is) \<Longrightarrow> distinct is \<Longrightarrow> upd_all (map (\<lambda>i. (g i, h i)) is) f (g i) = h i"
proof (induction "is" arbitrary: f)
  case (Cons j "is")
  show ?case
  proof (cases "i = j")
    case True
    then have "g i \<notin> fst ` set (map (\<lambda>i. (g i, h i)) is)" using Cons.prems by (auto simp: inj_on_def)
    then have "upd_all (map (\<lambda>i. (g i, h i)) is) (f(g j := h j)) (g i) = (f(g j := h j)) (g i)"
      by (rule upd_all_other)
    with True show ?thesis by simp
  next
    case False
    with Cons show ?thesis by simp
  qed
qed simp

lemma apply_writes_simps [simp]:
  "apply_writes [] d = d" "disksize (apply_writes ws d) = disksize d"
  "memdisk (apply_writes ws d) = upd_all ws (memdisk d)" "dwrites (apply_writes ws d) = dwrites d @ ws"
  "apply_writes ws' (apply_writes ws d) = apply_writes (ws @ ws') d"
  by (simp_all add: apply_writes_def)

lemma disk_write_apply: "disk_write n v d = apply_writes [(n, v)] d"
  by (simp add: disk_write_def apply_writes_def)

section \<open>The two copy loops\<close>

text \<open>What one iteration of either loop does to the cache and the disk.\<close>

definition copied :: "int \<Rightarrow> uint \<Rightarrow> uint \<Rightarrow> bcache \<Rightarrow> bcache \<Rightarrow> bool" where
  "copied pid p q c c' \<longleftrightarrow> binv pid {} c' \<and> disk c' = apply_writes [(q, bview c p)] (disk c) \<and>
     bview c' = (bview c)(q := bview c p) \<and> dirty_blocks c' = dirty_blocks c - {q}"

text \<open>Enough buffers are unpinned to read a log block and, if it is not cached, its home.\<close>

definition copy_room :: "nat \<Rightarrow> klog \<Rightarrow> bcache \<Rightarrow> bool" where
  "copy_room i l c \<longleftrightarrow> card (dirty_blocks c) < NBUF \<and>
     (\<forall>j. i \<le> j \<and> j < logn l \<longrightarrow> log_home l j \<in> dirty_blocks c \<or> card (dirty_blocks c) + 1 < NBUF)"

definition copy_writes ::
    "(nat \<Rightarrow> uint) \<Rightarrow> (nat \<Rightarrow> uint) \<Rightarrow> (uint \<Rightarrow> byte list) \<Rightarrow> nat \<Rightarrow> (uint \<times> byte list) list" where
  "copy_writes src dst v k = map (\<lambda>i. (dst i, v (src i))) [0..<k]"

text \<open>
  The contract of a loop body that copies between the log blocks and their homes, in
  either direction.
\<close>

locale block_copy =
  fixes step :: "int \<Rightarrow> nat \<Rightarrow> lstate \<Rightarrow> lstate kres"
    and src dst :: "klog \<Rightarrow> nat \<Rightarrow> uint"
  assumes step_ok: "log_wf (disksize (disk (bc s))) (lg s) \<Longrightarrow> i < logn (lg s) \<Longrightarrow> binv pid {} (bc s) \<Longrightarrow>
      copy_room i (lg s) (bc s) \<Longrightarrow>
      \<exists>c'. step pid i s = Ok (s\<lparr>bc := c'\<rparr>) \<and> copied pid (src (lg s) i) (dst (lg s) i) (bc s) c'"
    and disjoint: "log_wf sz l \<Longrightarrow> i < logn l \<Longrightarrow> j < logn l \<Longrightarrow> src l i \<noteq> dst l j"
    and dst_home: "log_wf sz l \<Longrightarrow> i < j \<Longrightarrow> j < logn l \<Longrightarrow> dst l i \<noteq> log_home l j"
begin

abbreviation writes :: "lstate \<Rightarrow> nat \<Rightarrow> (uint \<times> byte list) list" where
  "writes s \<equiv> copy_writes (src (lg s)) (dst (lg s)) (bview (bc s))"

lemma room_Suc:
  assumes "copy_room i l c" and "copied pid p (dst l i) c c'" and "log_wf sz l" and "i < logn l"
  shows "copy_room (Suc i) l c'"
proof -
  have d: "dirty_blocks c' = dirty_blocks c - {dst l i}" using assms(2) by (simp add: copied_def)
  have "card (dirty_blocks c') \<le> card (dirty_blocks c)"
    unfolding d by (rule card_mono) (auto simp: dirty_blocks_def)
  then have m: "card (dirty_blocks c) + k < NBUF \<Longrightarrow> card (dirty_blocks c') + k < NBUF" for k by linarith
  have "log_home l j \<in> dirty_blocks c' \<or> card (dirty_blocks c') + 1 < NBUF" if j: "Suc i \<le> j" "j < logn l" for j
  proof -
    have "log_home l j \<noteq> dst l i" using dst_home [OF assms(3), of i j] j by auto
    moreover have "log_home l j \<in> dirty_blocks c \<or> card (dirty_blocks c) + 1 < NBUF"
      using assms(1) j by (simp add: copy_room_def)
    ultimately show ?thesis using m [of 1] d by auto
  qed
  then show ?thesis using assms(1) m [of 0] by (simp add: copy_room_def)
qed

lemma loop_ok:
  assumes wf: "log_wf (disksize (disk (bc s))) (lg s)" and inv: "binv pid {} (bc s)"
    and room: "copy_room 0 (lg s) (bc s)"
  shows "\<exists>c'. kfor (logn (lg s)) (step pid) 0 s = Ok (s\<lparr>bc := c'\<rparr>) \<and> binv pid {} c' \<and>
    disk c' = apply_writes (writes s (logn (lg s))) (disk (bc s)) \<and>
    bview c' = upd_all (writes s (logn (lg s))) (bview (bc s)) \<and>
    dirty_blocks c' = dirty_blocks (bc s) - dst (lg s) ` {..<logn (lg s)}"
proof -
  let ?I = "\<lambda>i t. i \<le> logn (lg s) \<and> (\<exists>c. t = s\<lparr>bc := c\<rparr> \<and> binv pid {} c \<and> copy_room i (lg s) c \<and>
    disk c = apply_writes (writes s i) (disk (bc s)) \<and> bview c = upd_all (writes s i) (bview (bc s)) \<and>
    dirty_blocks c = dirty_blocks (bc s) - dst (lg s) ` {..<i})"
  have "\<exists>t. kfor (logn (lg s)) (step pid) 0 s = Ok t \<and> ?I (0 + logn (lg s)) t"
  proof (rule kfor_rule)
    show "?I 0 s" using inv room by (intro conjI exI [of _ "bc s"]) (auto simp: copy_writes_def)
    fix i t assume i: "i < 0 + logn (lg s)" and "?I i t"
    then obtain c where t: "t = s\<lparr>bc := c\<rparr>" and c: "binv pid {} c" "copy_room i (lg s) c"
        "disk c = apply_writes (writes s i) (disk (bc s))" "bview c = upd_all (writes s i) (bview (bc s))"
        "dirty_blocks c = dirty_blocks (bc s) - dst (lg s) ` {..<i}" by blast
    have "log_wf (disksize (disk (bc t))) (lg t)" using wf t c(3) by simp
    then obtain c' where c': "step pid i t = Ok (s\<lparr>bc := c'\<rparr>)"
        "copied pid (src (lg s) i) (dst (lg s) i) c c'"
      using step_ok [of t i pid] i c t by auto
    have "src (lg s) i \<notin> fst ` set (writes s i)"
      using disjoint [OF wf] i by (auto simp: copy_writes_def)
    then have "bview c (src (lg s) i) = bview (bc s) (src (lg s) i)"
      unfolding c(4) by (rule upd_all_other)
    then have w: "writes s (Suc i) = writes s i @ [(dst (lg s) i, bview c (src (lg s) i))]"
      by (simp add: copy_writes_def)
    have "copy_room (Suc i) (lg s) c'" using room_Suc c(2) c'(2) wf i by simp
    then have "?I (Suc i) (s\<lparr>bc := c'\<rparr>)"
      using c'(2) c i unfolding w copied_def
      by (intro conjI exI [of _ c']) (auto simp: lessThan_Suc)
    with c'(1) show "\<exists>t'. step pid i t = Ok t' \<and> ?I (Suc i) t'" by blast
  qed
  then show ?thesis by auto
qed

end

text \<open>The source of a copy is pinned, or its buffer equals the disk.\<close>

lemma copy_src_clean:
  assumes "binv pid {} c" and "binv pid H c2" and "b \<in> H" and "b_data (bufs c2 b) = bview c (b_blockno (bufs c2 b))"
    and "disk c2 = disk c" and "dirty_blocks c2 = dirty_blocks c"
  shows "bdirty (bufs c2 b) \<or> b_data (bufs c2 b) = memdisk (disk c2) (b_blockno (bufs c2 b))"
  using bview_clean [OF assms(1), of "b_blockno (bufs c2 b)"] assms(4-6)
    dirty_blocks_iff [OF assms(2) held_facts(1) [OF assms(2,3)] held_for_block [OF assms(2,3)]]
  by auto

lemma copy_room_D:
  "copy_room i l c \<Longrightarrow> card (dirty_blocks c) < NBUF"
  "copy_room i l c \<Longrightarrow> i < logn l \<Longrightarrow> log_home l i \<in> dirty_blocks c \<or> card (dirty_blocks c) + 1 < NBUF"
  by (simp_all add: copy_room_def)

lemma log_wf_dev: "log_wf sz l \<Longrightarrow> word_of_int (l_dev l) = (1 :: uint)"
  by (simp add: log_wf_def)

lemma copy_bufs:
  assumes inv: "binv pid {} c" and 1: "binv pid {x, y} c2" "x \<noteq> y"
    and v: "b_data (bufs c2 x) = bview c (b_blockno (bufs c2 x))"
    and same: "bview c2 = bview c" "disk c2 = disk c" "dirty_blocks c2 = dirty_blocks c"
  shows "\<exists>c'. kbind (bwrite pid y (set_data y (b_data (bufs c2 x)) c2)) (\<lambda>c.
      kbind (brelse pid x c) (\<lambda>c. brelse pid y c)) = Ok c' \<and>
    copied pid (b_blockno (bufs c2 x)) (b_blockno (bufs c2 y)) c c'"
proof -
  have "bdirty (bufs c2 x) \<or> b_data (bufs c2 x) = memdisk (disk c2) (b_blockno (bufs c2 x))"
    by (rule copy_src_clean [OF inv 1(1)]) (simp_all add: v same)
  from copy_release_ok [OF 1 this] show ?thesis
    by (auto simp: copied_def disk_write_apply same v)
qed

lemma read_pair:
  assumes wf: "log_wf (disksize (disk (bc s))) (lg s)" and i: "i < logn (lg s)" and inv: "binv pid {} (bc s)"
    and room: "copy_room i (lg s) (bc s)"
  shows "\<exists>b1 c1 b2 c2. bread pid 1 (log_slot (lg s) i) (bc s) = Ok (b1, c1) \<and>
    bread pid 1 (log_home (lg s) i) c1 = Ok (b2, c2) \<and> binv pid {b1, b2} c2 \<and> b1 \<noteq> b2 \<and>
    b_blockno (bufs c2 b1) = log_slot (lg s) i \<and> b_blockno (bufs c2 b2) = log_home (lg s) i \<and>
    b_data (bufs c2 b1) = bview (bc s) (log_slot (lg s) i) \<and> b_data (bufs c2 b2) = bview (bc s) (log_home (lg s) i) \<and>
    bview c2 = bview (bc s) \<and> disk c2 = disk (bc s) \<and> dirty_blocks c2 = dirty_blocks (bc s)"
  using log_layout [OF wf i] i by (intro bread2_ok inv copy_room_D [OF room]) auto

lemmas copy_step_simps = Let_def log_slot_def log_home_def log_wf_dev kres_simps

interpretation install: block_copy install_block log_slot log_home
proof
  fix s :: lstate and i pid
  assume wf: "log_wf (disksize (disk (bc s))) (lg s)" and i: "i < logn (lg s)" and inv: "binv pid {} (bc s)"
    and room: "copy_room i (lg s) (bc s)"
  from read_pair [OF this] obtain b1 c1 b2 c2 where 1: "bread pid 1 (log_slot (lg s) i) (bc s) = Ok (b1, c1)"
      "bread pid 1 (log_home (lg s) i) c1 = Ok (b2, c2)" and 2: "binv pid {b1, b2} c2" "b1 \<noteq> b2"
      "b_blockno (bufs c2 b1) = log_slot (lg s) i" "b_blockno (bufs c2 b2) = log_home (lg s) i"
      "b_data (bufs c2 b1) = bview (bc s) (log_slot (lg s) i)"
      "bview c2 = bview (bc s)" "disk c2 = disk (bc s)" "dirty_blocks c2 = dirty_blocks (bc s)"
    by blast
  from copy_bufs [OF inv 2(1,2)] show "\<exists>c'. install_block pid i s = Ok (s\<lparr>bc := c'\<rparr>) \<and>
      copied pid (log_slot (lg s) i) (log_home (lg s) i) (bc s) c'"
    using 1 2 log_wf_entry(4) [OF wf i] wf by (auto simp: install_block_def copy_step_simps)
qed (auto simp: log_layout)

interpretation wlog: block_copy write_log_block log_home log_slot
proof
  fix s :: lstate and i pid
  assume wf: "log_wf (disksize (disk (bc s))) (lg s)" and i: "i < logn (lg s)" and inv: "binv pid {} (bc s)"
    and room: "copy_room i (lg s) (bc s)"
  from read_pair [OF this] obtain b1 c1 b2 c2 where 1: "bread pid 1 (log_slot (lg s) i) (bc s) = Ok (b1, c1)"
      "bread pid 1 (log_home (lg s) i) c1 = Ok (b2, c2)" and 2: "binv pid {b2, b1} c2" "b2 \<noteq> b1"
      "b_blockno (bufs c2 b1) = log_slot (lg s) i" "b_blockno (bufs c2 b2) = log_home (lg s) i"
      "b_data (bufs c2 b2) = bview (bc s) (log_home (lg s) i)"
      "bview c2 = bview (bc s)" "disk c2 = disk (bc s)" "dirty_blocks c2 = dirty_blocks (bc s)"
    by (auto simp: insert_commute)
  from copy_bufs [OF inv 2(1,2)] show "\<exists>c'. write_log_block pid i s = Ok (s\<lparr>bc := c'\<rparr>) \<and>
      copied pid (log_home (lg s) i) (log_slot (lg s) i) (bc s) c'"
    using 1 2 log_wf_entry(4) [OF wf i] wf by (auto simp: write_log_block_def copy_step_simps)
next
  fix sz l i j assume wf: "log_wf sz l"
  show "i < logn l \<Longrightarrow> j < logn l \<Longrightarrow> log_home l i \<noteq> log_slot l j" using log_layout(5) [OF wf, of j i] by metis
  show "i < j \<Longrightarrow> j < logn l \<Longrightarrow> log_slot l i \<noteq> log_home l j" using log_layout(5) [OF wf, of i j] by simp
qed

section \<open>The header block\<close>

text \<open>A header block that encodes an in-memory header.\<close>

definition head_is :: "logheader \<Rightarrow> byte list \<Rightarrow> bool" where
  "head_is lh d \<longleftrightarrow> dec_int (slice 0 4 d) = lh_n lh \<and>
     (\<forall>i < nat (lh_n lh). dec_int (slice (4 + 4 * i) 4 d) = lh_block lh ! i)"

lemma length_enc_int [simp]: "length (enc_int x) = 4"
  by (simp add: enc_int_def)

lemma dec_enc_int: "- (2 ^ 31) \<le> x \<Longrightarrow> x < 2 ^ 31 \<Longrightarrow> dec_int (enc_int x) = x"
  by (simp add: dec_int_def enc_int_def sint_of_int_u32)

lemma slice_splice4 [simp]: "length ys = 4 \<Longrightarrow> off + 4 \<le> length xs \<Longrightarrow> slice off 4 (splice off ys xs) = ys"
  using slice_splice_same [of off ys xs] by simp

lemma write_head_loop:
  assumes "length d = BSIZE" and "n \<le> length bl" and "length bl \<le> nat LOGSIZE"
  shows "\<exists>d'. kfor n (write_head_block bl) 0 (splice 0 (enc_int k) d) = Ok d' \<and> length d' = BSIZE \<and>
    slice 0 4 d' = enc_int k \<and> (\<forall>i<n. slice (4 + 4 * i) 4 d' = enc_int (bl ! i))"
proof -
  let ?I = "\<lambda>i d'. length d' = BSIZE \<and> slice 0 4 d' = enc_int k \<and>
    (\<forall>j<i. slice (4 + 4 * j) 4 d' = enc_int (bl ! j))"
  have "\<exists>d'. kfor n (write_head_block bl) 0 (splice 0 (enc_int k) d) = Ok d' \<and> ?I (0 + n) d'"
  proof (rule kfor_rule)
    show "?I 0 (splice 0 (enc_int k) d)" using assms by (simp add: BSIZE_def)
    fix i d1 assume i: "i < 0 + n" and I: "?I i d1"
    then have b: "4 + 4 * i + 4 \<le> length d1" using assms by (simp add: BSIZE_def LOGSIZE_val)
    then have "slice (4 + 4 * j) 4 (splice (4 + 4 * i) (enc_int (bl ! i)) d1) = slice (4 + 4 * j) 4 d1"
      if "j < i" for j using that by (intro slice_splice_before) auto
    moreover have "slice 0 4 (splice (4 + 4 * i) (enc_int (bl ! i)) d1) = slice 0 4 d1"
      using b by (intro slice_splice_before) auto
    ultimately have "?I (Suc i) (splice (4 + 4 * i) (enc_int (bl ! i)) d1)"
      using I b by (auto simp: less_Suc_eq)
    moreover have "write_head_block bl i d1 = Ok (splice (4 + 4 * i) (enc_int (bl ! i)) d1)"
      using b i assms(2) by (simp add: write_head_block_def)
    ultimately show "\<exists>d2. write_head_block bl i d1 = Ok d2 \<and> ?I (Suc i) d2" by blast
  qed
  then show ?thesis by simp
qed

lemma read_head_loop:
  assumes "n \<le> length bl"
  shows "\<exists>bl'. kfor n (read_head_block d) 0 bl = Ok bl' \<and> length bl' = length bl \<and>
    (\<forall>i<n. bl' ! i = dec_int (slice (4 + 4 * i) 4 d))"
proof -
  let ?I = "\<lambda>i bl'. length bl' = length bl \<and> (\<forall>j<i. bl' ! j = dec_int (slice (4 + 4 * j) 4 d))"
  have "\<exists>bl'. kfor n (read_head_block d) 0 bl = Ok bl' \<and> ?I (0 + n) bl'"
    by (rule kfor_rule) (use assms in \<open>auto simp: read_head_block_def less_Suc_eq nth_list_update\<close>)
  then show ?thesis by simp
qed

text \<open>Reading one block with nothing else held, and releasing it unchanged.\<close>

lemma bread1_ok:
  assumes inv: "binv pid {} c" and p: "p < disksize (disk c)" and room: "card (dirty_blocks c) < NBUF"
  shows "\<exists>b c1. bread pid 1 p c = Ok (b, c1) \<and> binv pid {b} c1 \<and> b_blockno (bufs c1 b) = p \<and>
    b_data (bufs c1 b) = bview c p \<and> bview c1 = bview c \<and> disk c1 = disk c \<and> dirty_blocks c1 = dirty_blocks c"
  using bread_ok [OF inv p] room card_dirty [OF inv] by (auto simp: for_block_def)

lemma bread_brelse_ok:
  assumes inv: "binv pid {} c" and p: "p < disksize (disk c)" and room: "card (dirty_blocks c) < NBUF"
  shows "\<exists>b c1 c2. bread pid 1 p c = Ok (b, c1) \<and> b_data (bufs c1 b) = bview c p \<and> brelse pid b c1 = Ok c2 \<and>
    binv pid {} c2 \<and> bview c2 = bview c \<and> disk c2 = disk c \<and> dirty_blocks c2 = dirty_blocks c"
proof -
  obtain b c1 where 1: "bread pid 1 p c = Ok (b, c1)" "binv pid {b} c1" "b_blockno (bufs c1 b) = p"
      "b_data (bufs c1 b) = bview c p" "bview c1 = bview c" "disk c1 = disk c" "dirty_blocks c1 = dirty_blocks c"
    using bread1_ok [OF assms] by blast
  have "bdirty (bufs c1 b) \<or> b_data (bufs c1 b) = memdisk (disk c1) (b_blockno (bufs c1 b))"
    by (rule copy_src_clean [OF inv 1(2)]) (simp_all add: 1)
  then obtain c2 where "brelse pid b c1 = Ok c2" "binv pid {} c2" "bview c2 = bview c1" "disk c2 = disk c1"
      "dirty_blocks c2 = dirty_blocks c1"
    using brelse_ok [OF 1(2), of b] by auto
  with 1 show ?thesis by simp
qed

lemma readsb_ok:
  assumes "binv pid {} c" and "1 < disksize (disk c)" and "card (dirty_blocks c) < NBUF"
  shows "\<exists>c'. readsb pid 1 c = Ok (dec_sb (bview c 1), c') \<and> binv pid {} c' \<and> bview c' = bview c \<and>
    disk c' = disk c \<and> dirty_blocks c' = dirty_blocks c"
  using bread_brelse_ok [OF assms] by (auto simp: readsb_def Let_def)

lemma read_head_ok:
  assumes inv: "binv pid {} (bc s)" and hd: "log_hdr (lg s) < disksize (disk (bc s))" and dev: "l_dev (lg s) = 1"
    and room: "card (dirty_blocks (bc s)) < NBUF"
    and n: "dec_int (slice 0 4 (bview (bc s) (log_hdr (lg s)))) = n" "nat n \<le> length (lh_block (l_lh (lg s)))"
  shows "\<exists>bl c'. read_head pid s = Ok (s\<lparr>lg := (lg s)\<lparr>l_lh := \<lparr>lh_n = n, lh_block = bl\<rparr>\<rparr>, bc := c'\<rparr>) \<and>
    head_is \<lparr>lh_n = n, lh_block = bl\<rparr> (bview (bc s) (log_hdr (lg s))) \<and> length bl = length (lh_block (l_lh (lg s))) \<and>
    binv pid {} c' \<and> bview c' = bview (bc s) \<and> disk c' = disk (bc s) \<and> dirty_blocks c' = dirty_blocks (bc s)"
proof -
  obtain b c1 c2 where 1: "bread pid 1 (log_hdr (lg s)) (bc s) = Ok (b, c1)"
      "b_data (bufs c1 b) = bview (bc s) (log_hdr (lg s))" "brelse pid b c1 = Ok c2"
      "binv pid {} c2" "bview c2 = bview (bc s)" "disk c2 = disk (bc s)" "dirty_blocks c2 = dirty_blocks (bc s)"
    using bread_brelse_ok [OF inv hd room] by blast
  obtain bl where "kfor (nat n) (read_head_block (b_data (bufs c1 b))) 0 (lh_block (l_lh (lg s))) = Ok bl"
      "length bl = length (lh_block (l_lh (lg s)))"
      "\<And>i. i < nat n \<Longrightarrow> bl ! i = dec_int (slice (4 + 4 * i) 4 (b_data (bufs c1 b)))"
    using read_head_loop [OF n(2)] by blast
  with 1 n dev show ?thesis
    by (intro exI [of _ bl] exI [of _ c2]) (auto simp: read_head_def head_is_def Let_def log_hdr_def)
qed

lemma write_head_ok:
  assumes inv: "binv pid {} (bc s)" and hd: "log_hdr (lg s) < disksize (disk (bc s))" and dev: "l_dev (lg s) = 1"
    and room: "card (dirty_blocks (bc s)) < NBUF"
    and lh: "l_lh (lg s) = lh" "nat (lh_n lh) \<le> length (lh_block lh)" "length (lh_block lh) = nat LOGSIZE" "0 \<le> lh_n lh"
    and range: "\<And>i. i < nat (lh_n lh) \<Longrightarrow> 0 \<le> lh_block lh ! i \<and> lh_block lh ! i < 2 ^ 31"
  shows "\<exists>v c'. write_head pid s = Ok (s\<lparr>bc := c'\<rparr>) \<and> head_is lh v \<and> length v = BSIZE \<and> binv pid {} c' \<and>
    disk c' = apply_writes [(log_hdr (lg s), v)] (disk (bc s)) \<and>
    bview c' = (bview (bc s))(log_hdr (lg s) := v) \<and> dirty_blocks c' = dirty_blocks (bc s) - {log_hdr (lg s)}"
proof -
  obtain b c1 where 1: "bread pid 1 (log_hdr (lg s)) (bc s) = Ok (b, c1)" "binv pid {b} c1"
      "b_blockno (bufs c1 b) = log_hdr (lg s)" "bview c1 = bview (bc s)" "disk c1 = disk (bc s)"
      "dirty_blocks c1 = dirty_blocks (bc s)"
    using bread1_ok [OF inv hd room] by blast
  have "length (b_data (bufs c1 b)) = BSIZE" using held_facts(5) [OF 1(2)] by simp
  then obtain v where v: "kfor (nat (lh_n lh)) (write_head_block (lh_block lh)) 0
        (splice 0 (enc_int (lh_n lh)) (b_data (bufs c1 b))) = Ok v" "length v = BSIZE"
      "slice 0 4 v = enc_int (lh_n lh)" "\<And>i. i < nat (lh_n lh) \<Longrightarrow> slice (4 + 4 * i) 4 v = enc_int (lh_block lh ! i)"
    using write_head_loop lh(2,3) by (metis order_refl)
  have n: "lh_n lh < 2 ^ 31" using lh(2,3) by (simp add: LOGSIZE_val)
  have his: "head_is lh v"
    using range v(3,4) lh(4) n by (force simp: head_is_def dec_enc_int)
  note sd = set_data_ok [OF 1(2) _ v(2), of b, simplified]
  obtain c2 f where 2: "bwrite pid b (set_data b v c1) = Ok c2" "binv pid {b} c2" "bview c2 = (bview c1)(log_hdr (lg s) := v)"
      "disk c2 = disk_write (log_hdr (lg s)) v (disk c1)" "dirty_blocks c2 = dirty_blocks c1 - {log_hdr (lg s)}"
      "bufs c2 b = (bufs c1 b)\<lparr>b_data := v, b_flags := f\<rparr>"
    using bwrite_ok [OF sd(1), of b] sd 1(3) by auto
  have "b_data (bufs c2 b) = memdisk (disk c2) (b_blockno (bufs c2 b))" using 2 1 by (simp add: disk_write_def)
  then obtain c3 where "brelse pid b c2 = Ok c3" "binv pid {} c3" "bview c3 = bview c2"
      "disk c3 = disk c2" "dirty_blocks c3 = dirty_blocks c2"
    using brelse_ok [OF 2(2), of b] by auto
  with 1 2 v(1,2) his dev lh(1) show ?thesis
    by (intro exI [of _ v] exI [of _ c3]) (auto simp: write_head_def Let_def log_hdr_def disk_write_apply)
qed

section \<open>Recovery\<close>

text \<open>A disk whose superblock and header block describe the log \<open>l\<close>.\<close>

definition log_disk :: "klog \<Rightarrow> kdisk \<Rightarrow> bool" where
  "log_disk l d \<longleftrightarrow> log_wf (disksize d) l \<and> head_is (l_lh l) (memdisk d (log_hdr l)) \<and>
     sint (sb_logstart (dec_sb (memdisk d 1))) = l_start l \<and> sint (sb_nlog (dec_sb (memdisk d 1))) = l_size l \<and>
     (\<forall>n < disksize d. length (memdisk d n) = BSIZE)"

text \<open>The kernel's static data before \<open>initlog\<close>.\<close>

definition log_boot :: "kdisk \<Rightarrow> lstate" where
  "log_boot d = \<lparr>lg = \<lparr>l_start = 0, l_size = 0, l_outstanding = 0, l_committing = 0, l_dev = 0,
      l_lh = \<lparr>lh_n = 0, lh_block = replicate (nat LOGSIZE) 0\<rparr>\<rparr>, bc = boot d\<rparr>"

lemma take_eqI_nth: "length xs = length ys \<Longrightarrow> (\<And>i. i < n \<Longrightarrow> i < length xs \<Longrightarrow> xs ! i = ys ! i) \<Longrightarrow> take n xs = take n ys"
  by (rule nth_equalityI) auto

lemma log_wf_cong:
  assumes "lh_n (l_lh l') = lh_n (l_lh l)" "length (lh_block (l_lh l')) = length (lh_block (l_lh l))"
    and "\<And>i. i < logn l \<Longrightarrow> lh_block (l_lh l') ! i = lh_block (l_lh l) ! i"
    and "l_start l' = l_start l" "l_size l' = l_size l" "l_dev l' = l_dev l"
  shows "log_wf sz l' \<longleftrightarrow> log_wf sz l"
proof -
  have "take (logn l) (lh_block (l_lh l')) = take (logn l) (lh_block (l_lh l))"
    by (rule take_eqI_nth) (simp_all add: assms)
  then show ?thesis using assms by (simp add: log_wf_def)
qed

lemma copy_writes_cong:
  "(\<And>i. i < k \<Longrightarrow> src i = src' i \<and> dst i = dst' i \<and> v (src i) = v' (src' i)) \<Longrightarrow>
   copy_writes src dst v k = copy_writes src' dst' v' k"
  unfolding copy_writes_def by (rule map_cong) (auto, metis)

lemma log_wf_clear: "log_wf sz l \<Longrightarrow> log_wf sz (l\<lparr>l_lh := (l_lh l)\<lparr>lh_n := 0\<rparr>\<rparr>)"
  by (simp add: log_wf_def)

lemma log_hdr_cong: "l_start l' = l_start l \<Longrightarrow> log_hdr l' = log_hdr l"
  by (simp add: log_hdr_def)

lemma log_hdr_in: "log_wf sz l \<Longrightarrow> log_hdr l < sz" "log_wf sz l \<Longrightarrow> 1 < log_hdr l"
  unfolding word_less_def by (simp_all add: uint_log_hdr) (simp_all add: log_wf_def)

lemma log_wf_length: "log_wf sz l \<Longrightarrow> length (lh_block (l_lh l)) = nat LOGSIZE"
    "log_wf sz l \<Longrightarrow> logn l < NBUF" "log_wf sz l \<Longrightarrow> 0 \<le> lh_n (l_lh l)" "log_wf sz l \<Longrightarrow> l_dev l = 1"
    "log_wf sz l \<Longrightarrow> logn l \<le> length (lh_block (l_lh l))"
  by (auto simp: log_wf_def LOGSIZE_val NBUF_def)

lemma log_wf_range: "log_wf sz l \<Longrightarrow> i < logn l \<Longrightarrow> 0 \<le> lh_block (l_lh l) ! i \<and> lh_block (l_lh l) ! i < 2 ^ 31"
  using log_wf_entry(1,2) [of sz l i] by (auto simp: log_wf_def)

lemma write_head_wf:
  assumes "binv pid {} (bc s)" and wf: "log_wf (disksize (disk (bc s))) (lg s)" and "card (dirty_blocks (bc s)) < NBUF"
  shows "\<exists>v c'. write_head pid s = Ok (s\<lparr>bc := c'\<rparr>) \<and> head_is (l_lh (lg s)) v \<and> length v = BSIZE \<and> binv pid {} c' \<and>
    disk c' = apply_writes [(log_hdr (lg s), v)] (disk (bc s)) \<and>
    bview c' = (bview (bc s))(log_hdr (lg s) := v) \<and> dirty_blocks c' = dirty_blocks (bc s) - {log_hdr (lg s)}"
  by (rule write_head_ok [OF assms(1) log_hdr_in(1) [OF wf] log_wf_length(4) [OF wf] assms(3) refl
        log_wf_length(5) [OF wf] log_wf_length(1) [OF wf] log_wf_length(3) [OF wf] log_wf_range [OF wf]])

lemma recover_ok:
  assumes inv: "binv pid {} (bc s)" and clean: "dirty_blocks (bc s) = {}"
    and len: "length (lh_block (l_lh (lg s))) = nat LOGSIZE"
    and wf: "log_wf (disksize (disk (bc s))) ((lg s)\<lparr>l_lh := lh\<rparr>)"
    and hd: "head_is lh (memdisk (disk (bc s)) (log_hdr (lg s)))"
  shows "\<exists>s' v. recover_from_log pid s = Ok s' \<and> binv pid {} (bc s') \<and> dirty_blocks (bc s') = {} \<and>
    log_wf (disksize (disk (bc s'))) (lg s') \<and>
    l_start (lg s') = l_start (lg s) \<and> l_size (lg s') = l_size (lg s) \<and> l_outstanding (lg s') = l_outstanding (lg s) \<and>
    l_committing (lg s') = l_committing (lg s) \<and> lh_n (l_lh (lg s')) = 0 \<and> dec_int (slice 0 4 v) = 0 \<and> length v = BSIZE \<and>
    disk (bc s') = apply_writes (copy_writes (log_slot ((lg s)\<lparr>l_lh := lh\<rparr>)) (log_home ((lg s)\<lparr>l_lh := lh\<rparr>))
      (memdisk (disk (bc s))) (nat (lh_n lh)) @ [(log_hdr (lg s), v)]) (disk (bc s))"
proof -
  let ?l = "(lg s)\<lparr>l_lh := lh\<rparr>" and ?d = "disk (bc s)" and ?n = "nat (lh_n lh)"
  have hdr: "log_hdr ?l = log_hdr (lg s)" "log_hdr (lg s) < disksize ?d" "l_dev (lg s) = 1"
    using log_hdr_in(1) [OF wf] wf by (auto simp: log_hdr_def log_wf_def)
  have view: "bview (bc s) = memdisk ?d" using bview_clean [OF inv] clean by auto
  have n: "dec_int (slice 0 4 (bview (bc s) (log_hdr (lg s)))) = lh_n lh" using hd view by (simp add: head_is_def)
  have nl: "?n \<le> length (lh_block (l_lh (lg s)))" using wf len by (auto simp: log_wf_def)
  obtain bl c1 where 1: "read_head pid s = Ok (s\<lparr>lg := (lg s)\<lparr>l_lh := \<lparr>lh_n = lh_n lh, lh_block = bl\<rparr>\<rparr>, bc := c1\<rparr>)"
      "head_is \<lparr>lh_n = lh_n lh, lh_block = bl\<rparr> (memdisk ?d (log_hdr (lg s)))" "length bl = nat LOGSIZE"
      "binv pid {} c1" "bview c1 = memdisk ?d" "disk c1 = ?d" "dirty_blocks c1 = {}"
    using read_head_ok [OF inv hdr(2,3) _ n nl] clean len view by (auto simp: NBUF_def)
  let ?l1 = "(lg s)\<lparr>l_lh := \<lparr>lh_n = lh_n lh, lh_block = bl\<rparr>\<rparr>" and ?s1 = "s\<lparr>lg := (lg s)\<lparr>l_lh := \<lparr>lh_n = lh_n lh, lh_block = bl\<rparr>\<rparr>, bc := c1\<rparr>"
  have bl: "bl ! i = lh_block lh ! i" if "i < ?n" for i using 1(2) hd that by (simp add: head_is_def)
  have wf1: "log_wf (disksize ?d) ?l1" using wf log_wf_length(1) [OF wf] 1(3) bl by (subst log_wf_cong [of _ ?l]) auto
  have cw: "copy_writes (log_slot ?l1) (log_home ?l1) (memdisk ?d) ?n = copy_writes (log_slot ?l) (log_home ?l) (memdisk ?d) ?n"
    by (rule copy_writes_cong) (simp add: log_slot_def log_home_def bl)
  have "copy_room 0 ?l1 c1" using 1(7) by (simp add: copy_room_def NBUF_def)
  then obtain c2 where 2: "install_trans pid ?s1 = Ok (?s1\<lparr>bc := c2\<rparr>)" "binv pid {} c2" "dirty_blocks c2 = {}"
      "disk c2 = apply_writes (copy_writes (log_slot ?l) (log_home ?l) (memdisk ?d) ?n) ?d"
    using install.loop_ok [of ?s1 pid] wf1 1(4-7) cw by (auto simp: install_trans_def)
  let ?s2 = "clear_lh (?s1\<lparr>bc := c2\<rparr>)"
  have s2: "lg ?s2 = ?l1\<lparr>l_lh := (l_lh ?l1)\<lparr>lh_n := 0\<rparr>\<rparr>" "bc ?s2 = c2" "log_hdr (lg ?s2) = log_hdr (lg s)"
    by (simp_all add: clear_lh_def log_hdr_def)
  have wf2: "log_wf (disksize (disk (bc ?s2))) (lg ?s2)"
    unfolding s2 2(4) using log_wf_clear [OF wf1] by simp
  obtain v c3 where 3: "write_head pid ?s2 = Ok (?s2\<lparr>bc := c3\<rparr>)" "head_is (l_lh (lg ?s2)) v" "length v = BSIZE"
      "binv pid {} c3" "disk c3 = apply_writes [(log_hdr (lg s), v)] (disk c2)" "dirty_blocks c3 = {}"
    using write_head_wf [OF _ wf2, of pid, unfolded s2(2,3)] 2(2,3) by (auto simp: NBUF_def)
  have "dec_int (slice 0 4 v) = 0" using 3(2) s2(1) by (simp add: head_is_def)
  moreover have "recover_from_log pid s = Ok (?s2\<lparr>bc := c3\<rparr>)"
    unfolding recover_from_log_def using 1(1) 2(1) 3(1) by simp
  ultimately show ?thesis
    using 3 2(4) wf2 s2 by (intro exI [of _ "?s2\<lparr>bc := c3\<rparr>"] exI [of _ v]) simp
qed

lemma initlog_ok:
  assumes ld: "log_disk l d"
  shows "\<exists>r v. initlog pid 1 (log_boot d) = Ok r \<and> binv pid {} (bc r) \<and> dirty_blocks (bc r) = {} \<and>
    log_wf (disksize (disk (bc r))) (lg r) \<and> lh_n (l_lh (lg r)) = 0 \<and>
    l_start (lg r) = l_start l \<and> l_size (lg r) = l_size l \<and> dec_int (slice 0 4 v) = 0 \<and> length v = BSIZE \<and>
    disk (bc r) = apply_writes (copy_writes (log_slot l) (log_home l) (memdisk d) (logn l) @ [(log_hdr l, v)]) d"
proof -
  have wf: "log_wf (disksize d) l" and sb: "sint (sb_logstart (dec_sb (memdisk d 1))) = l_start l"
    "sint (sb_nlog (dec_sb (memdisk d 1))) = l_size l" and hd: "head_is (l_lh l) (memdisk d (log_hdr l))"
    using ld by (auto simp: log_disk_def)
  have inv: "binv pid {} (boot d)" using ld by (intro binv_boot) (auto simp: log_disk_def)
  have "1 < disksize d" using log_hdr_in [OF wf] by (meson order_less_trans)
  then obtain c where c: "readsb pid 1 (boot d) = Ok (dec_sb (memdisk d 1), c)" "binv pid {} c" "disk c = d" "dirty_blocks c = {}"
    using readsb_ok [OF inv] bview_clean [OF inv] boot_clean [of d] by (auto simp: NBUF_def)
  let ?s = "\<lparr>lg = (lg (log_boot d))\<lparr>l_start := l_start l, l_size := l_size l, l_dev := 1\<rparr>, bc = c\<rparr>"
  let ?l = "(lg ?s)\<lparr>l_lh := l_lh l\<rparr>"
  have eq: "log_slot ?l = log_slot l" "log_home ?l = log_home l" "log_hdr (lg ?s) = log_hdr l"
    by (auto simp: log_slot_def log_home_def log_hdr_def fun_eq_iff)
  have wf': "log_wf (disksize d) ?l" using wf by (simp add: log_wf_def)
  have "initlog pid 1 (log_boot d) = recover_from_log pid ?s"
    using c(1) sb by (simp add: initlog_def log_boot_def LOGSIZE_val BSIZE_def)
  moreover obtain r v where "recover_from_log pid ?s = Ok r" "binv pid {} (bc r)" "dirty_blocks (bc r) = {}"
      "log_wf (disksize (disk (bc r))) (lg r)" "l_start (lg r) = l_start l" "l_size (lg r) = l_size l" "lh_n (l_lh (lg r)) = 0"
      "dec_int (slice 0 4 v) = 0" "length v = BSIZE"
      "disk (bc r) = apply_writes (copy_writes (log_slot l) (log_home l) (memdisk d) (logn l) @ [(log_hdr l, v)]) d"
    using recover_ok [of pid ?s "l_lh l"] c wf' hd unfolding eq by (auto simp: log_boot_def)
  ultimately show ?thesis by (intro exI [of _ r] exI [of _ v]) simp
qed

text \<open>The blocks of the file system: everything but the log.\<close>

definition in_log :: "klog \<Rightarrow> uint \<Rightarrow> bool" where
  "in_log l b \<longleftrightarrow> l_start l \<le> uint b \<and> uint b < l_start l + l_size l"

lemma in_log_layout:
  assumes wf: "log_wf sz l"
  shows "in_log l (log_hdr l)" and "i < logn l \<Longrightarrow> in_log l (log_slot l i)" and "i < logn l \<Longrightarrow> \<not> in_log l (log_home l i)"
proof -
  have "0 < l_size l" using wf by (simp add: log_wf_def)
  then show "in_log l (log_hdr l)" by (simp add: in_log_def uint_log_hdr [OF wf])
  assume i: "i < logn l"
  note e = log_wf_entry [OF wf i]
  show "in_log l (log_slot l i)" unfolding in_log_def e(6) using e(7) by linarith
  show "\<not> in_log l (log_home l i)" unfolding in_log_def e(5) using e(3) by linarith
qed

lemma copy_writes_blocks: "fst ` set (copy_writes src dst v k) = dst ` {..<k}"
  by (force simp: copy_writes_def)

lemma upd_copy_writes:
  "inj_on dst {..<k} \<Longrightarrow> i < k \<Longrightarrow> upd_all (copy_writes src dst v k) f (dst i) = v (src i)"
  unfolding copy_writes_def by (rule upd_all_map) (auto simp: inj_on_def)

text \<open>The contents that recovery gives the file system's blocks.\<close>

definition recovered :: "klog \<Rightarrow> kdisk \<Rightarrow> uint \<Rightarrow> byte list" where
  "recovered l d = upd_all (copy_writes (log_slot l) (log_home l) (memdisk d) (logn l)) (memdisk d)"

lemma recovered_home: "log_wf sz l \<Longrightarrow> i < logn l \<Longrightarrow> recovered l d (log_home l i) = memdisk d (log_slot l i)"
  unfolding recovered_def by (rule upd_copy_writes) (auto simp: inj_on_def log_layout)

lemma recovered_other: "b \<notin> log_home l ` {..<logn l} \<Longrightarrow> recovered l d b = memdisk d b"
  unfolding recovered_def by (rule upd_all_other) (simp add: copy_writes_blocks)

lemma initlog_recovers:
  assumes "log_disk l d"
  shows "\<exists>r. initlog pid 1 (log_boot d) = Ok r \<and> (\<forall>b. \<not> in_log l b \<longrightarrow> memdisk (disk (bc r)) b = recovered l d b)"
proof -
  have wf: "log_wf (disksize d) l" using assms by (simp add: log_disk_def)
  from initlog_ok [OF assms] obtain r v where r: "initlog pid 1 (log_boot d) = Ok r"
    "disk (bc r) = apply_writes (copy_writes (log_slot l) (log_home l) (memdisk d) (logn l) @ [(log_hdr l, v)]) d" by blast
  then have "memdisk (disk (bc r)) b = recovered l d b" if "\<not> in_log l b" for b
    using that in_log_layout(1) [OF wf] by (auto simp: recovered_def)
  with r(1) show ?thesis by blast
qed

section \<open>Commit\<close>

text \<open>
  The state between two operations of a transaction: no buffer is held, the pinned buffers
  are those of the transaction's blocks, and the header on disk is empty.
\<close>

definition log_inv :: "int \<Rightarrow> lstate \<Rightarrow> bool" where
  "log_inv pid s \<longleftrightarrow> binv pid {} (bc s) \<and> log_wf (disksize (disk (bc s))) (lg s) \<and>
     dirty_blocks (bc s) = log_home (lg s) ` {..<logn (lg s)} \<and>
     log_disk (lg (clear_lh s)) (disk (bc s))"

text \<open>The disk writes of a commit whose header block is \<open>v1\<close>, then \<open>v0\<close>.\<close>

definition commit_writes :: "klog \<Rightarrow> (uint \<Rightarrow> byte list) \<Rightarrow> byte list \<Rightarrow> byte list \<Rightarrow> (uint \<times> byte list) list" where
  "commit_writes l v v1 v0 =
     copy_writes (log_home l) (log_slot l) v (logn l) @ [(log_hdr l, v1)] @
     copy_writes (log_home l) (log_home l) v (logn l) @ [(log_hdr l, v0)]"

lemma clear_lh_simps [simp]:
  "lg (clear_lh s) = (lg s)\<lparr>l_lh := (l_lh (lg s))\<lparr>lh_n := 0\<rparr>\<rparr>" "bc (clear_lh s) = bc s"
  by (simp_all add: clear_lh_def)

lemma log_hdr_upd [simp]: "log_hdr (l\<lparr>l_lh := x\<rparr>) = log_hdr l"
  by (simp add: log_hdr_def)

lemma card_homes: "card (log_home l ` {..<logn l}) \<le> logn l"
  using card_image_le [of "{..<logn l}" "log_home l"] by simp

lemma slots_inj: "log_wf sz l \<Longrightarrow> inj_on (log_slot l) {..<logn l}"
  by (rule inj_onI) (simp add: log_layout(7))

lemma homes_inj: "log_wf sz l \<Longrightarrow> inj_on (log_home l) {..<logn l}"
  by (rule inj_onI) (simp add: log_layout(6))

lemma homes_not_written:
  assumes "log_wf sz l"
  shows "log_home l ` {..<logn l} - log_slot l ` {..<logn l} = log_home l ` {..<logn l}"
    and "log_home l ` {..<logn l} - {log_hdr l} = log_home l ` {..<logn l}"
proof -
  have "log_slot l j \<noteq> log_home l i" "log_hdr l \<noteq> log_home l i" if "i < logn l" "j < logn l" for i j
    using log_layout(5) [OF assms that(2,1)] log_layout(9) [OF assms that(1)] by simp_all
  then show "log_home l ` {..<logn l} - log_slot l ` {..<logn l} = log_home l ` {..<logn l}"
    "log_home l ` {..<logn l} - {log_hdr l} = log_home l ` {..<logn l}"
    by (intro Diff_triv; force)+
qed

lemma commit_ok:
  assumes inv: "log_inv pid s" and n: "0 < lh_n (l_lh (lg s))"
  shows "\<exists>c v1 v0. commit pid s = Ok ((clear_lh s)\<lparr>bc := c\<rparr>) \<and> binv pid {} c \<and> dirty_blocks c = {} \<and>
    head_is (l_lh (lg s)) v1 \<and> length v1 = BSIZE \<and> dec_int (slice 0 4 v0) = 0 \<and> length v0 = BSIZE \<and>
    disk c = apply_writes (commit_writes (lg s) (bview (bc s)) v1 v0) (disk (bc s))"
proof -
  let ?l = "lg s" and ?v = "bview (bc s)" and ?homes = "log_home (lg s) ` {..<logn (lg s)}"
  have 0: "binv pid {} (bc s)" "log_wf (disksize (disk (bc s))) ?l" "dirty_blocks (bc s) = ?homes"
    using inv by (auto simp: log_inv_def)
  have card: "card ?homes < NBUF" using card_homes [of ?l] log_wf_length(2) [OF 0(2)] by simp
  have room: "copy_room 0 ?l c" if "dirty_blocks c = ?homes" for c
    using card that by (simp add: copy_room_def)
  obtain c1 where 1: "write_log pid s = Ok (s\<lparr>bc := c1\<rparr>)" "binv pid {} c1"
      "disk c1 = apply_writes (copy_writes (log_home ?l) (log_slot ?l) ?v (logn ?l)) (disk (bc s))"
      "bview c1 = upd_all (copy_writes (log_home ?l) (log_slot ?l) ?v (logn ?l)) ?v" "dirty_blocks c1 = ?homes"
    using wlog.loop_ok [OF 0(2,1) room [OF 0(3)]] homes_not_written(1) [OF 0(2)] 0(3) by (auto simp: write_log_def)
  have wf1: "log_wf (disksize (disk (bc (s\<lparr>bc := c1\<rparr>)))) (lg (s\<lparr>bc := c1\<rparr>))" using 0(2) 1(3) by simp
  obtain v1 c2 where 2: "write_head pid (s\<lparr>bc := c1\<rparr>) = Ok (s\<lparr>bc := c2\<rparr>)" "head_is (l_lh ?l) v1" "length v1 = BSIZE"
      "binv pid {} c2" "disk c2 = apply_writes [(log_hdr ?l, v1)] (disk c1)"
      "bview c2 = (bview c1)(log_hdr ?l := v1)" "dirty_blocks c2 = ?homes"
    using write_head_wf [OF _ wf1, of pid] 1(2,5) card homes_not_written(2) [OF 0(2)] by auto
  have wf2: "log_wf (disksize (disk (bc (s\<lparr>bc := c2\<rparr>)))) (lg (s\<lparr>bc := c2\<rparr>))" using wf1 2(5) by simp
  have slots: "bview c2 (log_slot ?l i) = ?v (log_home ?l i)" if "i < logn ?l" for i
    using upd_copy_writes [OF slots_inj [OF 0(2)] that] log_layout(8) [OF 0(2) that] by (simp add: 2(6) 1(4))
  then have cw: "copy_writes (log_slot ?l) (log_home ?l) (bview c2) (logn ?l) =
      copy_writes (log_home ?l) (log_home ?l) ?v (logn ?l)"
    by (simp add: copy_writes_def)
  obtain c3 where 3: "install_trans pid (s\<lparr>bc := c2\<rparr>) = Ok (s\<lparr>bc := c3\<rparr>)" "binv pid {} c3" "dirty_blocks c3 = {}"
      "disk c3 = apply_writes (copy_writes (log_home ?l) (log_home ?l) ?v (logn ?l)) (disk c2)"
    using install.loop_ok [OF wf2, of pid] 2(4,7) room cw by (auto simp: install_trans_def)
  let ?s3 = "clear_lh (s\<lparr>bc := c3\<rparr>)"
  have wf3: "log_wf (disksize (disk (bc ?s3))) (lg ?s3)" using log_wf_clear [OF wf2] 3(4) by simp
  obtain v0 c4 where 4: "write_head pid ?s3 = Ok (?s3\<lparr>bc := c4\<rparr>)" "head_is (l_lh (lg ?s3)) v0" "length v0 = BSIZE"
      "binv pid {} c4" "disk c4 = apply_writes [(log_hdr ?l, v0)] (disk c3)" "dirty_blocks c4 = {}"
    using write_head_wf [OF _ wf3, of pid] 3(2,3) by (auto simp: NBUF_def)
  have "commit pid s = Ok ((clear_lh s)\<lparr>bc := c4\<rparr>)"
    using n 1(1) 2(1) 3(1) 4(1) by (simp add: commit_def clear_lh_def)
  then show ?thesis
    using 2(2,3) 4 3(4) 2(5) 1(3)
    by (intro exI [of _ c4] exI [of _ v1] exI [of _ v0]) (simp add: commit_writes_def head_is_def)
qed

section \<open>Crash atomicity\<close>

lemma take_copy_writes: "take k (copy_writes src dst v n) = copy_writes src dst v (min k n)"
  by (cases "k \<le> n") (simp_all add: copy_writes_def take_map min_def take_upt)

lemma length_copy_writes [simp]: "length (copy_writes src dst v n) = n"
  by (simp add: copy_writes_def)

lemma take_commit_writes:
  "take k (commit_writes l v v1 v0) =
    (if k \<le> logn l then copy_writes (log_home l) (log_slot l) v k
     else if k \<le> 2 * logn l + 1 then
       copy_writes (log_home l) (log_slot l) v (logn l) @ [(log_hdr l, v1)] @
       copy_writes (log_home l) (log_home l) v (k - logn l - 1)
     else commit_writes l v v1 v0)"
  by (auto simp: commit_writes_def take_copy_writes min_def take_Cons')

lemma length_bview: "binv pid {} c \<Longrightarrow> n < disksize (disk c) \<Longrightarrow> length (bview c n) = BSIZE"
  by (cases rule: bview_cases [of pid "{}" c n]) (auto simp: buf_ok_def for_block_def binv_disk dest: binv_buf)

lemma length_upd_all:
  "\<forall>w \<in> set ws. length (snd w) = BSIZE \<Longrightarrow> (\<And>n. n < sz \<Longrightarrow> length (f n) = BSIZE) \<Longrightarrow>
   n < sz \<Longrightarrow> length (upd_all ws f n) = BSIZE"
  by (induction ws arbitrary: f) auto

text \<open>Writes that spare the superblock keep a log disk one, for the header they leave.\<close>

lemma log_disk_writes:
  assumes "log_disk l0 d" and "l_start l = l_start l0" "l_size l = l_size l0" and wf: "log_wf (disksize d) l"
    and "head_is (l_lh l) (upd_all ws (memdisk d) (log_hdr l))"
    and "\<And>n v. (n, v) \<in> set ws \<Longrightarrow> n \<noteq> 1 \<and> length v = BSIZE"
  shows "log_disk l (apply_writes ws d)"
proof -
  have "1 \<notin> fst ` set ws" using assms(6) by force
  then have "upd_all ws (memdisk d) 1 = memdisk d 1" by (rule upd_all_other)
  moreover have "length (upd_all ws (memdisk d) n) = BSIZE" if "n < disksize d" for n
    by (rule length_upd_all [OF _ _ that]) (use assms(1,6) in \<open>auto simp: log_disk_def\<close>)
  ultimately show ?thesis using assms by (simp add: log_disk_def)
qed

lemma commit_writes_ok:
  assumes inv: "log_inv pid s" and "length v1 = BSIZE" "length v0 = BSIZE"
    and "(b, x) \<in> set (commit_writes (lg s) (bview (bc s)) v1 v0)"
  shows "b \<noteq> 1 \<and> length x = BSIZE"
proof -
  have wf: "log_wf (disksize (disk (bc s))) (lg s)" and bi: "binv pid {} (bc s)" using inv by (auto simp: log_inv_def)
  consider i where "i < logn (lg s)" "b = log_slot (lg s) i \<or> b = log_home (lg s) i" "x = bview (bc s) (log_home (lg s) i)"
    | "b = log_hdr (lg s)" "x = v1 \<or> x = v0"
    using assms(4) by (auto simp: commit_writes_def copy_writes_def)
  then show ?thesis
  proof cases
    case 1
    have "uint (log_slot (lg s) i) \<noteq> 1" using log_wf_entry(6) [OF wf 1(1)] wf by (auto simp: log_wf_def)
    then have "log_slot (lg s) i \<noteq> 1" by auto
    moreover have "log_home (lg s) i \<noteq> 1" using log_layout(4) [OF wf 1(1)] by auto
    ultimately show ?thesis using 1 length_bview [OF bi log_layout(1) [OF wf 1(1)]] by auto
  next
    case 2
    then show ?thesis using log_hdr_in(2) [OF wf] assms(2,3) by auto
  qed
qed

lemma head_is_zero: "dec_int (slice 0 4 v) = 0 \<Longrightarrow> head_is (lh\<lparr>lh_n := 0\<rparr>) v"
  by (simp add: head_is_def)

lemma recovered_clear [simp]: "recovered (l\<lparr>l_lh := lh\<lparr>lh_n := 0\<rparr>\<rparr>) d = memdisk d"
  by (simp add: recovered_def copy_writes_def)

lemma in_log_upd [simp]: "in_log (l\<lparr>l_lh := x\<rparr>) = in_log l"
  by (simp add: in_log_def fun_eq_iff)

lemma log_inv_D:
  assumes "log_inv pid s"
  shows "binv pid {} (bc s)" and "log_wf (disksize (disk (bc s))) (lg s)"
    and "dirty_blocks (bc s) = log_home (lg s) ` {..<logn (lg s)}" and "log_disk (lg (clear_lh s)) (disk (bc s))"
    and "log_wf (disksize (disk (bc s))) (lg (clear_lh s))"
    and "dec_int (slice 0 4 (memdisk (disk (bc s)) (log_hdr (lg s)))) = 0"
  using assms by (auto simp: log_inv_def log_disk_def head_is_def)

text \<open>Before the header is written a crash loses the whole transaction.\<close>

lemma crash_early:
  assumes inv: "log_inv pid s" and k: "k \<le> logn (lg s)"
    and ws: "ws = copy_writes (log_home (lg s)) (log_slot (lg s)) (bview (bc s)) k"
    and ok: "\<And>b x. (b, x) \<in> set ws \<Longrightarrow> b \<noteq> 1 \<and> length x = BSIZE"
  shows "\<exists>r. initlog pid 1 (log_boot (apply_writes ws (disk (bc s)))) = Ok r \<and>
    (\<forall>b. \<not> in_log (lg s) b \<longrightarrow> memdisk (disk (bc r)) b = memdisk (disk (bc s)) b)"
proof -
  note D = log_inv_D [OF inv]
  have "log_hdr (lg s) \<noteq> log_slot (lg s) i" if "i < k" for i using log_layout(8) [OF D(2), of i] that k by simp
  then have "log_hdr (lg s) \<notin> fst ` set ws" unfolding ws copy_writes_blocks by blast
  then have "head_is (l_lh (lg (clear_lh s))) (upd_all ws (memdisk (disk (bc s))) (log_hdr (lg (clear_lh s))))"
    using D(6) by (simp add: upd_all_other head_is_zero)
  from log_disk_writes [OF D(4) refl refl D(5) this ok]
  have "log_disk (lg (clear_lh s)) (apply_writes ws (disk (bc s)))" .
  from initlog_recovers [OF this] obtain r where "initlog pid 1 (log_boot (apply_writes ws (disk (bc s)))) = Ok r"
    "\<And>b. \<not> in_log (lg s) b \<Longrightarrow> memdisk (disk (bc r)) b = upd_all ws (memdisk (disk (bc s))) b" by auto
  moreover have "upd_all ws (memdisk (disk (bc s))) b = memdisk (disk (bc s)) b" if "\<not> in_log (lg s) b" for b
    by (rule upd_all_other) (use that in_log_layout(2) [OF D(2)] k in \<open>auto simp: ws copy_writes_blocks\<close>)
  ultimately show ?thesis by metis
qed

text \<open>Once the header is written a crash loses nothing.\<close>

lemma crash_late:
  assumes inv: "log_inv pid s" and n: "head_is (l_lh (lg s)) v1"
    and ws: "ws = copy_writes (log_home (lg s)) (log_slot (lg s)) (bview (bc s)) (logn (lg s)) @ [(log_hdr (lg s), v1)] @
       copy_writes (log_home (lg s)) (log_home (lg s)) (bview (bc s)) k" and k: "k \<le> logn (lg s)"
    and ok: "\<And>b x. (b, x) \<in> set ws \<Longrightarrow> b \<noteq> 1 \<and> length x = BSIZE"
  shows "\<exists>r. initlog pid 1 (log_boot (apply_writes ws (disk (bc s)))) = Ok r \<and>
    (\<forall>b. \<not> in_log (lg s) b \<longrightarrow> memdisk (disk (bc r)) b = bview (bc s) b)"
proof -
  note D = log_inv_D [OF inv]
  let ?l = "lg s" and ?d = "disk (bc s)" and ?cw = "copy_writes (log_home (lg s)) (log_home (lg s)) (bview (bc s)) k"
  have "log_hdr ?l \<noteq> log_home ?l j" "i < logn ?l \<Longrightarrow> log_slot ?l i \<noteq> log_home ?l j" if "j < k" for i j
    using log_layout(9) [OF D(2), of j] log_layout(5) [OF D(2), of i j] that k by simp_all
  then have home: "log_hdr ?l \<notin> fst ` set ?cw" "i < logn ?l \<Longrightarrow> log_slot ?l i \<notin> fst ` set ?cw" for i
    unfolding copy_writes_blocks by blast+
  have hd: "upd_all ws (memdisk ?d) (log_hdr ?l) = v1" unfolding ws using home(1) by (simp add: upd_all_other)
  have slot: "upd_all ws (memdisk ?d) (log_slot ?l i) = bview (bc s) (log_home ?l i)" if i: "i < logn ?l" for i
    unfolding ws using home(2) [OF i] log_layout(8) [OF D(2) i] upd_copy_writes [OF slots_inj [OF D(2)] i]
    by (simp add: upd_all_other)
  have "log_disk ?l (apply_writes ws ?d)"
    by (rule log_disk_writes [OF D(4) _ _ D(2) _ ok]) (simp_all add: hd n)
  from initlog_recovers [OF this] obtain r where r: "initlog pid 1 (log_boot (apply_writes ws ?d)) = Ok r"
    "\<And>b. \<not> in_log ?l b \<Longrightarrow> memdisk (disk (bc r)) b = recovered ?l (apply_writes ws ?d) b" by blast
  have "recovered ?l (apply_writes ws ?d) b = bview (bc s) b" if b: "\<not> in_log ?l b" for b
  proof (cases "b \<in> log_home ?l ` {..<logn ?l}")
    case True
    then show ?thesis using recovered_home [OF D(2)] slot by auto
  next
    case False
    have "b \<notin> fst ` set ws"
      using False b k in_log_layout(1,2) [OF D(2)] by (auto simp: ws copy_writes_def)
    then show ?thesis
      using False D(3) by (simp add: recovered_other upd_all_other bview_clean [OF D(1)])
  qed
  with r show ?thesis by auto
qed

text \<open>After the header is cleared the transaction is in its home blocks.\<close>

lemma crash_done:
  assumes inv: "log_inv pid s" and v0: "dec_int (slice 0 4 v0) = 0"
    and ws: "ws = commit_writes (lg s) (bview (bc s)) v1 v0"
    and ok: "\<And>b x. (b, x) \<in> set ws \<Longrightarrow> b \<noteq> 1 \<and> length x = BSIZE"
  shows "log_disk (lg (clear_lh s)) (apply_writes ws (disk (bc s)))"
    and "\<not> in_log (lg s) b \<Longrightarrow> upd_all ws (memdisk (disk (bc s))) b = bview (bc s) b"
proof -
  note D = log_inv_D [OF inv]
  let ?l = "lg s" and ?d = "disk (bc s)"
  have hd: "upd_all ws (memdisk ?d) (log_hdr ?l) = v0" by (simp add: ws commit_writes_def)
  show "log_disk (lg (clear_lh s)) (apply_writes ws ?d)"
    by (rule log_disk_writes [OF D(4) refl refl D(5) _ ok]) (use hd v0 in \<open>simp add: head_is_zero\<close>)
  assume b: "\<not> in_log ?l b"
  then have nh: "b \<noteq> log_hdr ?l" using in_log_layout(1) [OF D(2)] by auto
  show "upd_all ws (memdisk ?d) b = bview (bc s) b"
  proof (cases "b \<in> log_home ?l ` {..<logn ?l}")
    case True
    then show ?thesis using upd_copy_writes [OF homes_inj [OF D(2)]] nh by (auto simp: ws commit_writes_def)
  next
    case False
    have "b \<notin> fst ` set ws"
      using False b in_log_layout(1,2) [OF D(2)] by (auto simp: ws commit_writes_def copy_writes_def)
    then show ?thesis using False D(3) by (simp add: upd_all_other bview_clean [OF D(1)])
  qed
qed

lemma commit_crash:
  assumes inv: "log_inv pid s" and n: "0 < lh_n (l_lh (lg s))"
  shows "\<exists>s' ws. commit pid s = Ok s' \<and> disk (bc s') = apply_writes ws (disk (bc s)) \<and>
    (\<forall>k. \<exists>r. initlog pid 1 (log_boot (apply_writes (take k ws) (disk (bc s)))) = Ok r \<and>
       (\<forall>b. \<not> in_log (lg s) b \<longrightarrow> memdisk (disk (bc r)) b =
          (if k \<le> logn (lg s) then memdisk (disk (bc s)) b else bview (bc s) b)))"
proof -
  obtain c v1 v0 where 1: "commit pid s = Ok ((clear_lh s)\<lparr>bc := c\<rparr>)" "head_is (l_lh (lg s)) v1" "length v1 = BSIZE"
      "dec_int (slice 0 4 v0) = 0" "length v0 = BSIZE"
      "disk c = apply_writes (commit_writes (lg s) (bview (bc s)) v1 v0) (disk (bc s))"
    using commit_ok [OF assms] by blast
  let ?ws = "commit_writes (lg s) (bview (bc s)) v1 v0"
  have ok: "b \<noteq> 1 \<and> length x = BSIZE" if "(b, x) \<in> set (take k ?ws)" for b x k
    using commit_writes_ok [OF inv 1(3,5)] in_set_takeD [OF that] by blast
  have "\<exists>r. initlog pid 1 (log_boot (apply_writes (take k ?ws) (disk (bc s)))) = Ok r \<and>
      (\<forall>b. \<not> in_log (lg s) b \<longrightarrow> memdisk (disk (bc r)) b =
        (if k \<le> logn (lg s) then memdisk (disk (bc s)) b else bview (bc s) b))" for k
  proof -
    consider "k \<le> logn (lg s)" | "\<not> k \<le> logn (lg s)" "k \<le> 2 * logn (lg s) + 1" | "\<not> k \<le> logn (lg s)" "\<not> k \<le> 2 * logn (lg s) + 1"
      by blast
    then show ?thesis
    proof cases
      case 1
      then have "take k ?ws = copy_writes (log_home (lg s)) (log_slot (lg s)) (bview (bc s)) k"
        by (simp add: take_commit_writes)
      from crash_early [OF inv 1 this ok] 1 show ?thesis by simp
    next
      case 2
      then have "take k ?ws = copy_writes (log_home (lg s)) (log_slot (lg s)) (bview (bc s)) (logn (lg s)) @
          [(log_hdr (lg s), v1)] @ copy_writes (log_home (lg s)) (log_home (lg s)) (bview (bc s)) (k - logn (lg s) - 1)"
        by (simp add: take_commit_writes)
      from crash_late [OF inv \<open>head_is (l_lh (lg s)) v1\<close> this _ ok] 2 show ?thesis by simp
    next
      case 3
      then have tk: "take k ?ws = ?ws" by (simp add: take_commit_writes)
      have "\<And>b x. (b, x) \<in> set ?ws \<Longrightarrow> b \<noteq> 1 \<and> length x = BSIZE" using ok [of _ _ k] unfolding tk .
      note fin = crash_done [OF inv \<open>dec_int (slice 0 4 v0) = 0\<close> refl this]
      from initlog_recovers [OF fin(1)] fin(2) 3 show ?thesis unfolding tk by simp
    qed
  qed
  with 1(1,6) show ?thesis by (intro exI [of _ "(clear_lh s)\<lparr>bc := c\<rparr>"] exI [of _ ?ws]) simp
qed

lemma commit_empty: "lh_n (l_lh (lg s)) \<le> 0 \<Longrightarrow> commit pid s = Ok s"
  by (simp add: commit_def)

text \<open>A commit leaves an empty log and every file system block on disk.\<close>

lemma commit_inv:
  assumes inv: "log_inv pid s"
  shows "\<exists>s'. commit pid s = Ok s' \<and> log_inv pid s' \<and> lh_n (l_lh (lg s')) = 0 \<and>
    lg s' = lg (clear_lh s) \<and> (\<forall>b. \<not> in_log (lg s) b \<longrightarrow> bview (bc s') b = bview (bc s) b)"
proof (cases "0 < lh_n (l_lh (lg s))")
  case True
  note D = log_inv_D [OF inv]
  obtain c v1 v0 where 1: "commit pid s = Ok ((clear_lh s)\<lparr>bc := c\<rparr>)" "binv pid {} c" "dirty_blocks c = {}"
      "length v1 = BSIZE" "dec_int (slice 0 4 v0) = 0" "length v0 = BSIZE"
      "disk c = apply_writes (commit_writes (lg s) (bview (bc s)) v1 v0) (disk (bc s))"
    using commit_ok [OF inv True] by blast
  note fin = crash_done [OF inv 1(5) refl commit_writes_ok [OF inv 1(4,6)], where ?v1.0 = v1, simplified]
  let ?s = "(clear_lh s)\<lparr>bc := c\<rparr>"
  have "bview c = memdisk (disk c)" using bview_clean [OF 1(2)] 1(3) by auto
  then have "bview c b = bview (bc s) b" if "\<not> in_log (lg s) b" for b using fin(2) [OF that] 1(7) by simp
  moreover have "log_inv pid ?s"
    using 1(2,3,7) D(5) fin(1) by (simp add: log_inv_def)
  ultimately show ?thesis using 1(1) by (intro exI [of _ ?s]) simp
next
  case False
  then have n0: "lh_n (l_lh (lg s)) = 0" using log_inv_D(2) [OF inv] by (simp add: log_wf_def)
  then have "lg (clear_lh s) = lg s" by simp
  with n0 inv show ?thesis by (intro exI [of _ s]) (simp add: commit_empty)
qed

section \<open>Writing through the log\<close>

text \<open>The use of \<open>log_write\<close> that its comment gives: read, modify, log, release.\<close>

definition log_update :: "int \<Rightarrow> uint \<Rightarrow> byte list \<Rightarrow> lstate \<Rightarrow> lstate kres" where
  "log_update pid n v s =
    kbind (bread pid 1 n (bc s)) (\<lambda>(b, c).
    kbind (log_write b (s\<lparr>bc := set_data b v c\<rparr>)) (\<lambda>s.
    kbind (brelse pid b (bc s)) (\<lambda>c. Ok (s\<lparr>bc := c\<rparr>))))"

lemma log_scan_spec:
  "i \<le> log_scan bl n i k \<and> log_scan bl n i k \<le> i + k \<and>
   (\<forall>m. i \<le> m \<and> m < log_scan bl n i k \<longrightarrow> word_of_int (bl ! m) \<noteq> n) \<and>
   (log_scan bl n i k < i + k \<longrightarrow> word_of_int (bl ! log_scan bl n i k) = n)"
proof (induction k arbitrary: i)
  case (Suc k)
  show ?case
  proof (cases "word_of_int (bl ! i) = n")
    case False
    then show ?thesis using Suc [of "Suc i"] by (auto simp: Suc_le_eq) (metis le_neq_implies_less)+
  qed auto
qed auto

lemma sint_uint_small: "uint (n :: uint) < 2 ^ 31 \<Longrightarrow> sint n = uint n"
  unfolding sint_uint by (rule signed_take_bit_int_eq_self) (rule order_trans [OF _ uint_ge_0], simp_all)

lemma log_write_eq:
  assumes "lh_n (l_lh (lg s)) < LOGSIZE" "lh_n (l_lh (lg s)) < l_size (lg s) - 1" "1 \<le> l_outstanding (lg s)"
  shows "log_write b s = Ok (s\<lparr>lg := log_add (b_blockno (bufs (bc s) b)) (lg s), bc := pin b (bc s)\<rparr>)"
  using assms by (simp add: log_write_def log_record_def pin_def)

lemma log_add_fields [simp]:
  "l_start (log_add n l) = l_start l" "l_size (log_add n l) = l_size l" "log_hdr (log_add n l) = log_hdr l"
  "l_outstanding (log_add n l) = l_outstanding l" "l_committing (log_add n l) = l_committing l"
  by (simp_all add: log_add_def log_hdr_def Let_def)

lemma log_add_absorb:
  assumes wf: "log_wf sz l" and n: "n \<in> log_home l ` {..<logn l}" and sz: "n < sz"
  shows "log_add n l = l"
proof -
  let ?j = "log_scan (lh_block (l_lh l)) n 0 (logn l)"
  from n obtain i where i: "i < logn l" "n = log_home l i" by blast
  then have "\<not> i < ?j" using log_scan_spec [of 0 "lh_block (l_lh l)" n "logn l"] by (auto simp: log_home_def)
  then have j: "?j < logn l" using i(1) by simp
  then have "n = log_home l ?j" using log_scan_spec [of 0 "lh_block (l_lh l)" n "logn l"] by (simp add: log_home_def)
  then have "uint n = lh_block (l_lh l) ! ?j" using log_wf_entry(5) [OF wf j] by simp
  moreover have "uint n < 2 ^ 31" using sz wf by (simp add: log_wf_def word_less_def)
  ultimately have "(lh_block (l_lh l))[?j := sint n] = lh_block (l_lh l)"
    by (simp add: sint_uint_small list_update_same_conv log_wf_entry(4) [OF wf j])
  moreover have "int ?j \<noteq> lh_n (l_lh l)" using j by linarith
  ultimately show ?thesis by (simp add: log_add_def Let_def)
qed

lemma log_add_new:
  assumes wf: "log_wf sz l" and n: "n \<notin> log_home l ` {..<logn l}" and sz: "1 < n" "n < sz" "\<not> in_log l n"
    and room: "lh_n (l_lh l) < l_size l - 1"
  shows "log_wf sz (log_add n l)" and "log_home (log_add n l) ` {..<logn (log_add n l)} = insert n (log_home l ` {..<logn l})"
    and "log_add n l = l\<lparr>l_lh := \<lparr>lh_n = lh_n (l_lh l) + 1, lh_block = (lh_block (l_lh l))[logn l := uint n]\<rparr>\<rparr>"
proof -
  have z: "0 \<le> lh_n (l_lh l)" "logn l < length (lh_block (l_lh l))" using wf room by (auto simp: log_wf_def)
  let ?j = "log_scan (lh_block (l_lh l)) n 0 (logn l)"
  have "?j < logn l \<Longrightarrow> n = log_home l ?j" "?j \<le> logn l"
    using log_scan_spec [of 0 "lh_block (l_lh l)" n "logn l"] by (auto simp: log_home_def)
  then have "?j = logn l" using n by fastforce
  moreover have "uint n < 2 ^ 31" using sz wf by (simp add: log_wf_def word_less_def)
  ultimately show eq: "log_add n l = l\<lparr>l_lh := \<lparr>lh_n = lh_n (l_lh l) + 1, lh_block = (lh_block (l_lh l))[logn l := uint n]\<rparr>\<rparr>"
    using z by (simp add: log_add_def Let_def sint_uint_small)
  have suc: "logn (log_add n l) = Suc (logn l)" using z by (simp add: eq nat_add_distrib)
  have tk: "take (Suc (logn l)) ((lh_block (l_lh l))[logn l := uint n]) = take (logn l) (lh_block (l_lh l)) @ [uint n]"
    using z(2) by (simp add: take_Suc_conv_app_nth)
  have home: "log_home (log_add n l) i = (if i = logn l then n else log_home l i)" for i
    using z(2) by (simp add: eq log_home_def)
  show "log_home (log_add n l) ` {..<logn (log_add n l)} = insert n (log_home l ` {..<logn l})"
    unfolding suc lessThan_Suc by (auto simp: home)
  have "uint n \<notin> set (take (logn l) (lh_block (l_lh l)))"
  proof
    assume "uint n \<in> set (take (logn l) (lh_block (l_lh l)))"
    then obtain i where "i < logn l" "lh_block (l_lh l) ! i = uint n" by (auto simp: in_set_conv_nth)
    then have "log_home l i = n" by (simp add: log_home_def)
    with \<open>i < logn l\<close> show False using n by auto
  qed
  moreover have "2 \<le> uint n" using sz(1) by (simp add: word_less_def)
  ultimately show "log_wf sz (log_add n l)"
    using wf sz room suc tk unfolding eq log_wf_def in_log_def word_less_def
    by (auto simp: nat_add_distrib)
qed

lemma log_update_ok:
  assumes inv: "log_inv pid s" and n: "1 < n" "n < disksize (disk (bc s))" "\<not> in_log (lg s) n" and v: "length v = BSIZE"
    and room: "lh_n (l_lh (lg s)) < l_size (lg s) - 1" "1 \<le> l_outstanding (lg s)"
  shows "\<exists>s'. log_update pid n v s = Ok s' \<and> log_inv pid s' \<and> lg s' = log_add n (lg s) \<and>
    bview (bc s') = (bview (bc s))(n := v) \<and> disk (bc s') = disk (bc s)"
proof -
  note D = log_inv_D [OF inv]
  have "card (dirty_blocks (bc s)) < NBUF"
    using card_homes [of "lg s"] log_wf_length(2) [OF D(2)] unfolding D(3) by simp
  from bread1_ok [OF D(1) n(2) this] obtain b c where 1: "bread pid 1 n (bc s) = Ok (b, c)" "binv pid {b} c"
    "b_blockno (bufs c b) = n" "bview c = bview (bc s)" "disk c = disk (bc s)" "dirty_blocks c = dirty_blocks (bc s)" by blast
  note sd = set_data_ok [OF 1(2) _ v, of b, simplified]
  let ?c = "set_data b v c"
  note pn = pin_ok [OF sd(1), of b, simplified]
  have "bdirty (bufs (pin b ?c) b)" by (simp add: pn)
  then obtain c' where 2: "brelse pid b (pin b ?c) = Ok c'" "binv pid {} c'" "bview c' = bview (pin b ?c)"
      "disk c' = disk (pin b ?c)" "dirty_blocks c' = dirty_blocks (pin b ?c)"
    using brelse_ok [OF pn(1), of b] by auto
  have LS: "lh_n (l_lh (lg s)) < LOGSIZE" using room(1) D(2) by (simp add: log_wf_def)
  have "log_write b (s\<lparr>bc := ?c\<rparr>) = Ok (s\<lparr>lg := log_add n (lg s), bc := pin b ?c\<rparr>)"
    using log_write_eq [of "s\<lparr>bc := ?c\<rparr>" b] LS room sd(6) 1(3) by simp
  then have run: "log_update pid n v s = Ok (s\<lparr>lg := log_add n (lg s), bc := c'\<rparr>)"
    unfolding log_update_def using 1(1) 2(1) by simp
  have add: "log_wf (disksize (disk (bc s))) (log_add n (lg s)) \<and>
      log_home (log_add n (lg s)) ` {..<logn (log_add n (lg s))} = insert n (log_home (lg s) ` {..<logn (lg s)})"
  proof (cases "n \<in> log_home (lg s) ` {..<logn (lg s)}")
    case True
    then show ?thesis using D(2) log_add_absorb [OF D(2) True n(2)] by (simp add: insert_absorb)
  qed (use log_add_new [OF D(2) _ n room(1)] in blast)
  have "log_disk ((log_add n (lg s))\<lparr>l_lh := (l_lh (log_add n (lg s)))\<lparr>lh_n := 0\<rparr>\<rparr>) (disk (bc s))"
    using D(4) log_wf_clear add by (simp add: log_disk_def head_is_def)
  then have "log_inv pid (s\<lparr>lg := log_add n (lg s), bc := c'\<rparr>)"
    using 2 pn sd 1 add D(3) by (simp add: log_inv_def)
  with run 2(3,4) pn sd 1 show ?thesis by (intro exI [of _ "s\<lparr>lg := log_add n (lg s), bc := c'\<rparr>"]) simp
qed

section \<open>Crashes during recovery\<close>

lemma copy_writes_frame: "b \<notin> dst ` {..<k} \<Longrightarrow> upd_all (copy_writes src dst v k) f b = f b"
  by (rule upd_all_other) (simp add: copy_writes_blocks)

lemma home_writes_frame:
  assumes wf: "log_wf sz l" and k: "k \<le> logn l"
  shows "upd_all (copy_writes src (log_home l) v k) f (log_hdr l) = f (log_hdr l)"
    and "i < logn l \<Longrightarrow> upd_all (copy_writes src (log_home l) v k) f (log_slot l i) = f (log_slot l i)"
proof -
  have "log_hdr l \<noteq> log_home l j" "i < logn l \<Longrightarrow> log_slot l i \<noteq> log_home l j" if "j < k" for j
    using log_layout(9) [OF wf, of j] log_layout(5) [OF wf, of i j] that k by simp_all
  then show "upd_all (copy_writes src (log_home l) v k) f (log_hdr l) = f (log_hdr l)"
    "i < logn l \<Longrightarrow> upd_all (copy_writes src (log_home l) v k) f (log_slot l i) = f (log_slot l i)"
    by (intro copy_writes_frame; blast)+
qed

lemma recovery_writes_ok:
  assumes ld: "log_disk l d" and "length v = BSIZE"
    and "(b, x) \<in> set (copy_writes (log_slot l) (log_home l) (memdisk d) (logn l) @ [(log_hdr l, v)])"
  shows "b \<noteq> 1 \<and> length x = BSIZE"
proof -
  have wf: "log_wf (disksize d) l" using ld by (simp add: log_disk_def)
  consider i where "i < logn l" "b = log_home l i" "x = memdisk d (log_slot l i)" | "b = log_hdr l" "x = v"
    using assms(3) by (auto simp: copy_writes_def)
  then show ?thesis
  proof cases
    case 1
    then show ?thesis using ld log_layout(2,4) [OF wf 1(1)] by (auto simp: log_disk_def)
  qed (use log_hdr_in(2) [OF wf] assms(2) in auto)
qed

lemma recovery_crash:
  assumes ld: "log_disk l d"
  shows "\<exists>r ws. initlog pid 1 (log_boot d) = Ok r \<and> disk (bc r) = apply_writes ws d \<and>
    (\<forall>k. \<exists>r'. initlog pid 1 (log_boot (apply_writes (take k ws) d)) = Ok r' \<and>
       (\<forall>b. \<not> in_log l b \<longrightarrow> memdisk (disk (bc r')) b = memdisk (disk (bc r)) b))"
proof -
  have wf: "log_wf (disksize d) l" using ld by (simp add: log_disk_def)
  let ?cw = "copy_writes (log_slot l) (log_home l) (memdisk d)" and ?l0 = "l\<lparr>l_lh := (l_lh l)\<lparr>lh_n := 0\<rparr>\<rparr>"
  obtain r v where r: "initlog pid 1 (log_boot d) = Ok r" "dec_int (slice 0 4 v) = 0" "length v = BSIZE"
      "disk (bc r) = apply_writes (?cw (logn l) @ [(log_hdr l, v)]) d"
    using initlog_ok [OF ld] by blast
  let ?ws = "?cw (logn l) @ [(log_hdr l, v)]"
  have ok: "b \<noteq> 1 \<and> length x = BSIZE" if "(b, x) \<in> set (take k ?ws)" for b x k
    using recovery_writes_ok [OF ld r(3)] in_set_takeD [OF that] by blast
  have fin: "memdisk (disk (bc r)) b = recovered l d b" if "\<not> in_log l b" for b
    using r(4) that in_log_layout(1) [OF wf] by (auto simp: recovered_def)
  have "\<exists>r'. initlog pid 1 (log_boot (apply_writes (take k ?ws) d)) = Ok r' \<and>
      (\<forall>b. \<not> in_log l b \<longrightarrow> memdisk (disk (bc r')) b = recovered l d b)" for k
  proof (cases "k \<le> logn l")
    case True
    then have tk: "take k ?ws = ?cw k" by (simp add: take_copy_writes min_def)
    note fr = home_writes_frame [OF wf True]
    have "log_disk l (apply_writes (take k ?ws) d)"
    proof (rule log_disk_writes [OF ld refl refl wf _ ok])
      show "head_is (l_lh l) (upd_all (take k ?ws) (memdisk d) (log_hdr l))"
        unfolding tk fr(1) using ld by (simp add: log_disk_def)
    qed
    moreover have "recovered l (apply_writes (take k ?ws) d) b = recovered l d b" for b
    proof (cases "b \<in> log_home l ` {..<logn l}")
      case True
      then show ?thesis unfolding tk using recovered_home [OF wf] fr(2) by auto
    next
      case False
      then have "b \<notin> log_home l ` {..<k}" using \<open>k \<le> logn l\<close> by (auto simp: image_iff)
      with False show ?thesis unfolding tk by (simp add: recovered_other copy_writes_frame)
    qed
    ultimately show ?thesis using initlog_recovers by metis
  next
    case False
    then have tk: "take k ?ws = ?ws" by simp
    have "log_disk ?l0 (apply_writes ?ws d)"
      by (rule log_disk_writes [OF ld _ _ log_wf_clear [OF wf] _ recovery_writes_ok [OF ld r(3)]])
        (simp_all add: head_is_zero r(2))
    from initlog_recovers [OF this] obtain r' where "initlog pid 1 (log_boot (apply_writes ?ws d)) = Ok r'"
      "\<And>b. \<not> in_log l b \<Longrightarrow> memdisk (disk (bc r')) b = upd_all ?ws (memdisk d) b" by auto
    then show ?thesis unfolding tk using in_log_layout(1) [OF wf] by (auto simp: recovered_def)
  qed
  with r fin show ?thesis by (intro exI [of _ r] exI [of _ ?ws]) simp
qed

section \<open>Group commit\<close>

text \<open>
  Concurrent operations over one log and one cache. \<open>ops\<close> counts the writes of each operation between
  its \<open>begin_op\<close> and its \<open>end_op\<close>, at most \<open>m\<close> each; a write is the sequence \<open>log_update\<close> on a file
  system block. The last \<open>end_op\<close> of a group makes its operation the committer, which runs \<open>commit\<close>
  between the two critical sections of \<open>end_op\<close>. Operation \<open>i\<close> runs in the process with pid \<open>i\<close>.
\<close>

type_synonym opstate = "lstate \<times> (nat \<Rightarrow> nat option) \<times> nat option"

definition fs_block :: "lstate \<Rightarrow> uint \<Rightarrow> bool" where
  "fs_block s n \<longleftrightarrow> 1 < n \<and> n < disksize (disk (bc s)) \<and> \<not> in_log (lg s) n"

inductive log_step :: "nat \<Rightarrow> opstate \<Rightarrow> opstate \<Rightarrow> bool" for m where
  step_begin: "ops i = None \<Longrightarrow> begin_op (lg s) = Ok l \<Longrightarrow> log_step m (s, ops, cm) (s\<lparr>lg := l\<rparr>, ops(i \<mapsto> 0), cm)"
| step_write: "ops i = Some k \<Longrightarrow> k < m \<Longrightarrow> fs_block s n \<Longrightarrow> length v = BSIZE \<Longrightarrow> log_update (int i) n v s = Ok s' \<Longrightarrow>
    log_step m (s, ops, cm) (s', ops(i \<mapsto> Suc k), cm)"
| step_end: "ops i = Some k \<Longrightarrow> end_op_enter (lg s) = Ok (do_commit, l) \<Longrightarrow>
    log_step m (s, ops, cm) (s\<lparr>lg := l\<rparr>, ops(i := None), if do_commit then Some i else cm)"
| step_commit: "commit (int i) s = Ok s' \<Longrightarrow> log_step m (s, ops, Some i) (s'\<lparr>lg := end_op_leave (lg s')\<rparr>, ops, None)"

text \<open>Without held buffers the invariant is the same for every process, and the counters do not matter to it.\<close>

lemma log_inv_pid: "log_inv pid s \<Longrightarrow> log_inv pid' s"
  by (simp add: log_inv_def binv_def buf_ok_def)

lemma log_inv_counters:
  "log_inv pid (s\<lparr>lg := (lg s)\<lparr>l_outstanding := n, l_committing := c\<rparr>\<rparr>) = log_inv pid s"
  "log_inv pid (s\<lparr>lg := (lg s)\<lparr>l_outstanding := n\<rparr>\<rparr>) = log_inv pid s"
  "log_inv pid (s\<lparr>lg := (lg s)\<lparr>l_committing := c\<rparr>\<rparr>) = log_inv pid s"
  by (simp_all add: log_inv_def log_wf_def log_disk_def log_home_def [abs_def] log_hdr_def)

definition op_reserve :: "(nat \<Rightarrow> nat option) \<Rightarrow> int" where
  "op_reserve ops = (\<Sum>i \<in> dom ops. MAXOPBLOCKS - int (the (ops i)))"

lemma op_reserve_upd:
  assumes "finite (dom ops)"
  shows "op_reserve (ops(i \<mapsto> k)) = op_reserve (ops(i := None)) + (MAXOPBLOCKS - int k)"
    and "ops i = Some j \<Longrightarrow> op_reserve ops = op_reserve (ops(i := None)) + (MAXOPBLOCKS - int j)"
    and "ops i = None \<Longrightarrow> op_reserve (ops(i := None)) = op_reserve ops"
proof -
  have *: "op_reserve (ops(i \<mapsto> k)) = op_reserve (ops(i := None)) + (MAXOPBLOCKS - int k)" for k
  proof -
    have "(\<Sum>j \<in> dom ops - {i}. MAXOPBLOCKS - int (the ((ops(i \<mapsto> k)) j))) =
        (\<Sum>j \<in> dom ops - {i}. MAXOPBLOCKS - int (the ((ops(i := None)) j)))"
      by (rule sum.cong) auto
    then show ?thesis using assms by (simp add: op_reserve_def sum.insert_remove)
  qed
  show "op_reserve (ops(i \<mapsto> k)) = op_reserve (ops(i := None)) + (MAXOPBLOCKS - int k)" by (rule *)
  show "op_reserve ops = op_reserve (ops(i := None)) + (MAXOPBLOCKS - int j)" if "ops i = Some j"
    using * [of j] that by (simp add: fun_upd_idem)
  show "op_reserve (ops(i := None)) = op_reserve ops" if "ops i = None" using that by (simp add: fun_upd_idem)
qed

lemma op_reserve_le: "finite (dom ops) \<Longrightarrow> op_reserve ops \<le> MAXOPBLOCKS * int (card (dom ops))"
  unfolding op_reserve_def
  using sum_mono [of "dom ops" "\<lambda>i. MAXOPBLOCKS - int (the (ops i))" "\<lambda>_. MAXOPBLOCKS"] by (simp add: mult.commute)

lemma op_reserve_nonneg: "(\<And>i k. ops i = Some k \<Longrightarrow> int k \<le> MAXOPBLOCKS) \<Longrightarrow> 0 \<le> op_reserve ops"
  unfolding op_reserve_def by (rule sum_nonneg) (auto simp: dom_def)

lemma log_add_n: "lh_n (l_lh l) \<le> lh_n (l_lh (log_add bn l)) \<and> lh_n (l_lh (log_add bn l)) \<le> lh_n (l_lh l) + 1"
  by (simp add: log_add_def Let_def)

text \<open>The log invariant, and that the blocks logged and the writes still reserved fit into the log.\<close>

definition ops_inv :: "int \<Rightarrow> opstate \<Rightarrow> bool" where
  "ops_inv sz st \<longleftrightarrow> (case st of (s, ops, cm) \<Rightarrow>
     log_inv 0 s \<and> l_size (lg s) = sz \<and> finite (dom ops) \<and> (\<forall>i k. ops i = Some k \<longrightarrow> int k \<le> MAXOPBLOCKS) \<and>
     l_outstanding (lg s) = int (card (dom ops)) \<and>
     (case cm of None \<Rightarrow> l_committing (lg s) = 0 | Some _ \<Rightarrow> l_committing (lg s) = 1 \<and> dom ops = {}) \<and>
     lh_n (l_lh (lg s)) + op_reserve ops \<le> LOGSIZE)"

lemma log_update_room:
  assumes "log_update pid n v s = Ok s'"
  shows "lh_n (l_lh (lg s)) < l_size (lg s) - 1" "1 \<le> l_outstanding (lg s)"
  using assms by (auto simp: log_update_def log_write_def log_record_def kres_simps split: if_splits)

lemma begin_step_inv:
  assumes "ops i = None" "begin_op (lg s) = Ok l" "ops_inv sz (s, ops, cm)"
  shows "ops_inv sz (s\<lparr>lg := l\<rparr>, ops(i \<mapsto> 0), cm)"
proof -
  have fin: "finite (dom ops)" "l_outstanding (lg s) = int (card (dom ops))" using assms(3) by (auto simp: ops_inv_def)
  from assms(2) have l: "l_committing (lg s) = 0" "l = (lg s)\<lparr>l_outstanding := l_outstanding (lg s) + 1\<rparr>"
      "lh_n (l_lh (lg s)) + (l_outstanding (lg s) + 1) * MAXOPBLOCKS \<le> LOGSIZE"
    by (auto simp: begin_op_def split: if_splits)
  have "op_reserve (ops(i \<mapsto> 0)) = op_reserve ops + MAXOPBLOCKS"
    using op_reserve_upd(1,3) [OF fin(1), of i] assms(1) by simp
  with op_reserve_le [OF fin(1)] l(3) have "lh_n (l_lh (lg s)) + op_reserve (ops(i \<mapsto> 0)) \<le> LOGSIZE"
    unfolding fin(2) by (simp add: algebra_simps)
  moreover have "card (insert i (dom ops)) = Suc (card (dom ops))" using fin assms(1) by (simp add: domIff)
  ultimately show ?thesis
    using assms(1,3) l by (auto simp: ops_inv_def log_inv_counters MAXOPBLOCKS_def split: option.splits)
qed

lemma write_step_inv:
  assumes "ops i = Some k" "int k < MAXOPBLOCKS" "fs_block s n" "length v = BSIZE" "log_update (int i) n v s = Ok s'"
    and inv: "ops_inv sz (s, ops, cm)"
  shows "ops_inv sz (s', ops(i \<mapsto> Suc k), cm)"
proof -
  have fin: "finite (dom ops)" and li: "log_inv (int i) s" using inv log_inv_pid by (auto simp: ops_inv_def)
  obtain s1 where s1: "log_update (int i) n v s = Ok s1" "log_inv (int i) s1" "lg s1 = log_add n (lg s)"
    using log_update_ok [OF li _ _ _ assms(4) log_update_room [OF assms(5)], of n] assms(3) by (auto simp: fs_block_def)
  then have s': "log_inv 0 s'" "lg s' = log_add n (lg s)" using assms(5) log_inv_pid by auto
  have "op_reserve (ops(i \<mapsto> Suc k)) = op_reserve ops - 1"
    using op_reserve_upd(1,2) [OF fin] assms(1) by simp
  moreover have "insert i (dom ops) = dom ops" using assms(1) by auto
  ultimately show ?thesis
    using assms(1,2) inv s' log_add_n [of "lg s" n] by (auto simp: ops_inv_def split: option.splits)
qed

lemma end_step_inv:
  assumes "ops i = Some k" "end_op_enter (lg s) = Ok (dc, l)" and inv: "ops_inv sz (s, ops, cm)"
  shows "ops_inv sz (s\<lparr>lg := l\<rparr>, ops(i := None), if dc then Some i else cm)"
proof -
  have fin: "finite (dom ops)" and k: "int k \<le> MAXOPBLOCKS" using assms by (auto simp: ops_inv_def)
  have "op_reserve (ops(i := None)) \<le> op_reserve ops" using op_reserve_upd(2) [OF fin assms(1)] k by simp
  moreover have c: "int (card (dom ops - {i})) = int (card (dom ops)) - 1"
    using fin assms(1) by (metis card_Diff_singleton card_gt_0_iff domI empty_iff of_nat_1 of_nat_diff One_nat_def Suc_leI)
  moreover have "dom (ops(i := None)) = {}" if "int (card (dom ops)) = 1" using c that fin by simp
  moreover have "cm = None" using assms(1) inv by (auto simp: ops_inv_def split: option.splits)
  ultimately show ?thesis
    using assms(2) inv by (auto simp: ops_inv_def end_op_enter_def Let_def log_inv_counters split: if_splits)
qed

lemma commit_step_inv:
  assumes "commit (int i) s = Ok s'" and inv: "ops_inv sz (s, ops, Some i)"
  shows "ops_inv sz (s'\<lparr>lg := end_op_leave (lg s')\<rparr>, ops, None)"
proof -
  have "log_inv (int i) s" using inv log_inv_pid by (auto simp: ops_inv_def)
  from commit_inv [OF this] have s': "log_inv (int i) s'" "lg s' = (lg s)\<lparr>l_lh := (l_lh (lg s))\<lparr>lh_n := 0\<rparr>\<rparr>"
    using assms(1) by auto
  have "log_inv 0 (s'\<lparr>lg := end_op_leave (lg s')\<rparr>)"
    using log_inv_pid [OF s'(1)] by (simp add: end_op_leave_def log_inv_counters)
  then show ?thesis using inv s'(2) by (auto simp: ops_inv_def end_op_leave_def op_reserve_def LOGSIZE_val)
qed

lemma log_step_inv: "log_step m st st' \<Longrightarrow> int m \<le> MAXOPBLOCKS \<Longrightarrow> ops_inv sz st \<Longrightarrow> ops_inv sz st'"
  by (induction rule: log_step.induct)
    (auto intro: begin_step_inv end_step_inv [where dc = True, simplified] end_step_inv [where dc = False, simplified]
      commit_step_inv intro!: write_step_inv)

lemma log_steps_inv: "(log_step m)\<^sup>*\<^sup>* st st' \<Longrightarrow> int m \<le> MAXOPBLOCKS \<Longrightarrow> ops_inv sz st \<Longrightarrow> ops_inv sz st'"
  by (induction rule: rtranclp_induct) (auto intro: log_step_inv)

text \<open>A log on which no operation runs.\<close>

definition log_idle :: "lstate \<Rightarrow> bool" where
  "log_idle s \<longleftrightarrow> log_inv 0 s \<and> l_outstanding (lg s) = 0 \<and> l_committing (lg s) = 0 \<and> lh_n (l_lh (lg s)) = 0"

lemma ops_inv_idle: "log_idle s \<Longrightarrow> ops_inv (l_size (lg s)) (s, Map.empty, None)"
  by (simp add: ops_inv_def log_idle_def op_reserve_def LOGSIZE_val)

text \<open>What a running operation finds: the log is not committing, and it has the room it reserved.\<close>

lemma ops_inv_running:
  assumes inv: "ops_inv sz (s, ops, cm)" and k: "ops i = Some k"
  shows "lh_n (l_lh (lg s)) + (MAXOPBLOCKS - int k) \<le> LOGSIZE" "1 \<le> l_outstanding (lg s)" "l_committing (lg s) = 0"
proof -
  have fin: "finite (dom ops)" and le: "\<And>i k. ops i = Some k \<Longrightarrow> int k \<le> MAXOPBLOCKS"
    and n: "lh_n (l_lh (lg s)) + op_reserve ops \<le> LOGSIZE" using inv by (auto simp: ops_inv_def)
  have "0 \<le> op_reserve (ops(i := None))" by (rule op_reserve_nonneg) (use le in \<open>auto split: if_splits\<close>)
  then show "lh_n (l_lh (lg s)) + (MAXOPBLOCKS - int k) \<le> LOGSIZE" using op_reserve_upd(2) [OF fin k] n by linarith
  have ne: "dom ops \<noteq> {}" using k by auto
  then have "card (dom ops) \<noteq> 0" using fin by simp
  then show "1 \<le> l_outstanding (lg s)" using inv by (simp add: ops_inv_def)
  show "l_committing (lg s) = 0" using inv ne by (auto simp: ops_inv_def split: option.splits)
qed

lemma ops_inv_write:
  assumes inv: "ops_inv sz (s, ops, cm)" and k: "ops i = Some k" and n: "fs_block s n" "length v = BSIZE"
    and room: "lh_n (l_lh (lg s)) < l_size (lg s) - 1"
  shows "\<exists>s'. log_update (int i) n v s = Ok s' \<and> bview (bc s') = (bview (bc s))(n := v)"
proof -
  have "log_inv (int i) s" using inv log_inv_pid by (auto simp: ops_inv_def)
  from log_update_ok [OF this _ _ _ n(2) room ops_inv_running(2) [OF inv k]] n(1) show ?thesis by (auto simp: fs_block_def)
qed

lemma ops_inv_end:
  assumes inv: "ops_inv sz (s, ops, cm)" and k: "ops i = Some k"
  shows "\<exists>s'. end_op (int i) s = Ok s' \<and> log_inv 0 s'"
proof -
  note R = ops_inv_running [OF inv k]
  have li: "log_inv (int i) s" using inv log_inv_pid by (auto simp: ops_inv_def)
  let ?s = "s\<lparr>lg := (lg s)\<lparr>l_outstanding := 0, l_committing := 1\<rparr>\<rparr>"
  show ?thesis
  proof (cases "l_outstanding (lg s) = 1")
    case True
    have "log_inv (int i) ?s" using li by (simp add: log_inv_counters)
    from commit_inv [OF this] obtain t where t: "commit (int i) ?s = Ok t" "log_inv (int i) t" by blast
    have "log_inv 0 (t\<lparr>lg := end_op_leave (lg t)\<rparr>)" using log_inv_pid [OF t(2)] by (simp add: end_op_leave_def log_inv_counters)
    then show ?thesis using True R(3) t(1) by (simp add: end_op_def end_op_enter_def Let_def)
  next
    case False
    then show ?thesis using R(3) log_inv_pid [OF li, of 0] by (simp add: end_op_def end_op_enter_def Let_def log_inv_counters)
  qed
qed


text \<open>A log that holds the blocks 100, 101, and so on.\<close>

definition seq_log :: "nat \<Rightarrow> klog \<Rightarrow> bool" where
  "seq_log m l \<longleftrightarrow> lh_n (l_lh l) = int m \<and> length (lh_block (l_lh l)) = nat LOGSIZE \<and>
     (\<forall>j<m. lh_block (l_lh l) ! j = int j + 100)"

lemma seq_log_add:
  assumes "seq_log m l" and m: "m < 30"
  shows "seq_log (Suc m) (log_add (word_of_int (int m + 100)) l)"
proof -
  let ?bl = "lh_block (l_lh l)" and ?n = "word_of_int (int m + 100) :: uint"
  have n: "uint ?n = int m + 100" using m by (intro uint_of_int_u32) auto
  have "word_of_int (?bl ! j) \<noteq> ?n" if j: "j < m" for j
  proof -
    have "uint (word_of_int (int j + 100) :: uint) = int j + 100" using j m by (intro uint_of_int_u32) auto
    moreover have "?bl ! j = int j + 100" using assms(1) j by (simp add: seq_log_def)
    ultimately show ?thesis using n j by (metis add_right_cancel less_irrefl of_nat_eq_iff)
  qed
  then have "log_scan ?bl ?n 0 m = m"
    using log_scan_spec [of 0 ?bl ?n m] by (metis add_0 le_neq_implies_less)
  moreover have "sint ?n = int m + 100" using n m by (simp add: sint_uint_small)
  ultimately show ?thesis
    using assms by (auto simp: seq_log_def log_add_def Let_def LOGSIZE_val nth_list_update less_Suc_eq)
qed

text \<open>Operation \<open>i\<close> writes the blocks 100 + \<open>m\<close>, and so on.\<close>

lemma seq_writes:
  assumes "log_inv 0 s" "seq_log m (lg s)" "1 \<le> l_outstanding (lg s)" "int (m + j) \<le> l_size (lg s) - 1" "m + j \<le> 30"
    and "k + j \<le> 10" "ops i = Some k" "l_start (lg s) = 2" "l_size (lg s) = 30" "disksize (disk (bc s)) = 1000"
  shows "\<exists>s'. (log_step 10)\<^sup>*\<^sup>* (s, ops, cm) (s', ops(i \<mapsto> k + j), cm) \<and> log_inv 0 s' \<and> seq_log (m + j) (lg s') \<and>
    l_outstanding (lg s') = l_outstanding (lg s) \<and> l_start (lg s') = 2 \<and> l_size (lg s') = 30 \<and> disksize (disk (bc s')) = 1000"
  using assms(4-6)
proof (induction j)
  case 0
  then show ?case using assms by (intro exI [of _ s]) (simp add: fun_upd_idem)
next
  case (Suc j)
  have "int (m + j) \<le> l_size (lg s) - 1" "m + j \<le> 30" "k + j \<le> 10" using Suc.prems by simp_all
  from Suc.IH [OF this] obtain t where t: "(log_step 10)\<^sup>*\<^sup>* (s, ops, cm) (t, ops(i \<mapsto> k + j), cm)" "log_inv 0 t"
      "seq_log (m + j) (lg t)" "l_outstanding (lg t) = l_outstanding (lg s)" "l_start (lg t) = 2" "l_size (lg t) = 30"
      "disksize (disk (bc t)) = 1000"
    by blast
  let ?n = "word_of_int (int (m + j) + 100) :: uint"
  have un: "uint ?n = int (m + j) + 100" using Suc.prems by (intro uint_of_int_u32) auto
  then have fs: "fs_block t ?n" using t(5-7) Suc.prems by (auto simp: fs_block_def in_log_def word_less_def)
  have room: "lh_n (l_lh (lg t)) < l_size (lg t) - 1" "1 \<le> l_outstanding (lg t)"
    using t assms(3,9) Suc.prems by (auto simp: seq_log_def)
  obtain u where u: "log_update (int i) ?n (replicate BSIZE 0) t = Ok u" "log_inv (int i) u" "lg u = log_add ?n (lg t)"
      "disk (bc u) = disk (bc t)"
    using log_update_ok [OF log_inv_pid [OF t(2)] _ _ _ _ room, of ?n "replicate BSIZE 0"] fs by (auto simp: fs_block_def)
  have "log_step 10 (t, ops(i \<mapsto> k + j), cm) (u, (ops(i \<mapsto> k + j))(i \<mapsto> Suc (k + j)), cm)"
    using Suc.prems fs u(1) by (intro step_write [where n = ?n and v = "replicate BSIZE 0"]) auto
  with t(1) have "(log_step 10)\<^sup>*\<^sup>* (s, ops, cm) (u, ops(i \<mapsto> k + Suc j), cm)" by simp
  moreover have "seq_log (m + Suc j) (lg u)" using seq_log_add [OF t(3)] Suc.prems u(3) by simp
  ultimately show ?case using log_inv_pid [OF u(2), of 0] u(3,4) t(4-7) by (intro exI [of _ u]) (simp del: fun_upd_apply)
qed

definition fresh_log :: "int \<Rightarrow> klog" where
  "fresh_log sz = \<lparr>l_start = 2, l_size = sz, l_outstanding = 0, l_committing = 0, l_dev = 1,
     l_lh = \<lparr>lh_n = 0, lh_block = replicate (nat LOGSIZE) 0\<rparr>\<rparr>"

section \<open>Properties\<close>

text \<open>
  C1: crash atomicity. From a state between operations, \<open>commit\<close> succeeds with some sequence of
  block writes, and after a crash that lets only the first \<open>k\<close> of them reach the disk the
  next boot's \<open>initlog\<close> succeeds and leaves every file system block as it was on disk before
  the commit, if the header had not been written yet, and otherwise as the transaction left it.
\<close>

theorem commit_crash_atomic:
  assumes inv: "log_inv pid s"
  shows "\<exists>s' ws. commit pid s = Ok s' \<and> disk (bc s') = apply_writes ws (disk (bc s)) \<and>
    (\<forall>k. \<exists>r. initlog pid 1 (log_boot (apply_writes (take k ws) (disk (bc s)))) = Ok r \<and>
       (\<forall>b. \<not> in_log (lg s) b \<longrightarrow> memdisk (disk (bc r)) b =
          (if k \<le> logn (lg s) then memdisk (disk (bc s)) b else bview (bc s) b)))"
proof (cases "0 < lh_n (l_lh (lg s))")
  case True
  then show ?thesis by (rule commit_crash [OF inv])
next
  case False
  note D = log_inv_D [OF inv]
  have "logn (lg s) = 0" using False by simp
  then have v: "bview (bc s) b = memdisk (disk (bc s)) b" for b using bview_clean [OF D(1)] D(3) by simp
  from initlog_recovers [OF D(4)] obtain r where "initlog pid 1 (log_boot (disk (bc s))) = Ok r"
    "\<And>b. \<not> in_log (lg s) b \<Longrightarrow> memdisk (disk (bc r)) b = memdisk (disk (bc s)) b" by auto
  then show ?thesis using False v by (intro exI [of _ s] exI [of _ "[]"]) (auto simp: commit_empty)
qed

text \<open>A small disk with a log of 30 blocks behind the superblock, and a log with room.\<close>

definition small_sb :: "byte list" where
  "small_sb = enc_u32 1000 @ enc_u32 941 @ enc_u32 200 @ enc_u32 30 @ enc_u32 2 @ enc_u32 32 @ enc_u32 58 @ replicate 484 0"

definition small_disk :: kdisk where
  "small_disk = (zero_disk 1000)\<lparr>memdisk := (\<lambda>n. if n = 1 then small_sb else replicate BSIZE 0)\<rparr>"

definition small_state :: lstate where
  "small_state = \<lparr>lg = (fresh_log 30)\<lparr>l_outstanding := 1\<rparr>, bc = boot small_disk\<rparr>"

lemma enc_len [simp]: "length (enc_u32 x) = 4" by simp

lemma small_sb_fields: "length small_sb = BSIZE" "sb_logstart (dec_sb small_sb) = 2" "sb_nlog (dec_sb small_sb) = 30"
  by (simp_all add: small_sb_def dec_sb_def slice_def BSIZE_def)

lemma dec_int_zero: "dec_int (slice 0 4 (replicate BSIZE 0)) = 0"
  by (simp add: slice_def BSIZE_def dec_int_def dec_u32_def le_dec.simps numeral_eq_Suc)

lemma small_state_inv: "log_inv pid small_state"
proof -
  have len: "length (memdisk small_disk n) = BSIZE" for n by (simp add: small_disk_def small_sb_fields)
  have wf: "log_wf (disksize small_disk) (lg small_state)"
    by (simp add: log_wf_def small_disk_def zero_disk_def small_state_def fresh_log_def LOGSIZE_val)
  have "log_disk (lg (clear_lh small_state)) small_disk"
    using log_wf_clear [OF wf] len small_sb_fields
    by (simp add: log_disk_def head_is_def log_hdr_def small_state_def small_disk_def fresh_log_def dec_int_zero)
  then show ?thesis
    using wf binv_boot [of small_disk pid] len boot_clean
    by (simp add: log_inv_def) (simp add: small_state_def fresh_log_def)
qed

text \<open>The state after one write through the log.\<close>

lemma small_update:
  "\<exists>s. log_update 3 60 (replicate BSIZE 1) small_state = Ok s \<and> log_inv 3 s \<and> lh_n (l_lh (lg s)) = 1 \<and>
     bview (bc s) 60 = replicate BSIZE 1 \<and> disk (bc s) = small_disk \<and> \<not> in_log (lg s) 60 \<and>
     l_outstanding (lg s) = 1 \<and> l_committing (lg s) = 0"
proof -
  have "(60 :: uint) < disksize (disk (bc small_state))" by (simp add: small_state_def small_disk_def zero_disk_def)
  from log_update_ok [OF small_state_inv _ this, of "replicate BSIZE 1" 3]
  obtain s where s: "log_update 3 60 (replicate BSIZE 1) small_state = Ok s" "log_inv 3 s"
      "lg s = log_add 60 (lg small_state)" "bview (bc s) = (bview (bc small_state))(60 := replicate BSIZE 1)"
      "disk (bc s) = disk (bc small_state)"
    by (auto simp: in_log_def small_state_def fresh_log_def)
  then show ?thesis
    by (intro exI [of _ s]) (simp add: log_add_def small_state_def fresh_log_def in_log_def)
qed

theorem commit_crash_atomic_witness:
  "\<exists>s. log_update 3 60 (replicate BSIZE 1) small_state = Ok s \<and> lh_n (l_lh (lg s)) = 1 \<and>
    (\<exists>s' ws. commit 3 s = Ok s' \<and> disk (bc s') = apply_writes ws small_disk \<and>
      (\<forall>k. \<exists>r. initlog 3 1 (log_boot (apply_writes (take k ws) small_disk)) = Ok r \<and>
         memdisk (disk (bc r)) 60 = (if k \<le> 1 then replicate BSIZE 0 else replicate BSIZE 1)))"
proof -
  obtain s where s: "log_update 3 60 (replicate BSIZE 1) small_state = Ok s" "log_inv 3 s" "lh_n (l_lh (lg s)) = 1"
      "bview (bc s) 60 = replicate BSIZE 1" "disk (bc s) = small_disk" "\<not> in_log (lg s) 60"
    using small_update by blast
  have "memdisk small_disk 60 = replicate BSIZE 0" by (simp add: small_disk_def)
  with commit_crash_atomic [OF s(2)] s show ?thesis by fastforce
qed

text \<open>
  C2: recovery is idempotent. Whatever prefix of its own writes reaches the disk before
  another crash, the following recovery leaves the same file system blocks as the
  interrupted one would have.
\<close>

theorem recovery_idempotent:
  assumes "log_disk l d"
  shows "\<exists>r ws. initlog pid 1 (log_boot d) = Ok r \<and> disk (bc r) = apply_writes ws d \<and>
    (\<forall>k. \<exists>r'. initlog pid 1 (log_boot (apply_writes (take k ws) d)) = Ok r' \<and>
       (\<forall>b. \<not> in_log l b \<longrightarrow> memdisk (disk (bc r')) b = memdisk (disk (bc r)) b))"
  using assms by (rule recovery_crash)

text \<open>A disk that crashed with one committed block, number 60, in the log.\<close>

definition crashed_log :: klog where
  "crashed_log = (fresh_log 30)\<lparr>l_lh := \<lparr>lh_n = 1, lh_block = 60 # replicate 29 0\<rparr>\<rparr>"

definition crashed_disk :: kdisk where
  "crashed_disk = small_disk\<lparr>memdisk := (memdisk small_disk)
     (2 := enc_u32 1 @ enc_u32 60 @ replicate 504 0, 3 := replicate BSIZE 1)\<rparr>"

lemma crashed_log_disk: "log_disk crashed_log crashed_disk"
proof -
  have "log_wf 1000 crashed_log" by (simp add: log_wf_def crashed_log_def fresh_log_def LOGSIZE_val)
  moreover have "head_is (l_lh crashed_log) (enc_u32 1 @ enc_u32 60 @ replicate 504 0)"
    by (simp add: head_is_def crashed_log_def slice_def dec_int_def)
  moreover have "length (memdisk crashed_disk n) = BSIZE" for n
    by (simp add: crashed_disk_def small_disk_def small_sb_fields BSIZE_def)
  ultimately show ?thesis
    by (simp add: log_disk_def crashed_disk_def small_disk_def zero_disk_def log_hdr_def crashed_log_def fresh_log_def
        small_sb_fields)
qed

theorem recovery_idempotent_witness:
  "\<exists>r ws. initlog 3 1 (log_boot crashed_disk) = Ok r \<and> disk (bc r) = apply_writes ws crashed_disk \<and>
    (\<forall>k. \<exists>r'. initlog 3 1 (log_boot (apply_writes (take k ws) crashed_disk)) = Ok r' \<and>
       (\<forall>b. \<not> in_log crashed_log b \<longrightarrow> memdisk (disk (bc r')) b = memdisk (disk (bc r)) b))"
  by (rule recovery_idempotent [OF crashed_log_disk])

text \<open>
  C6: durability. The last \<open>end_op\<close> of a group of operations commits: it returns with an
  empty log, no transaction in progress, and every block that was written through the log on
  disk, and it keeps the invariant.
\<close>

theorem end_op_durable:
  assumes inv: "log_inv pid s" and l: "l_outstanding (lg s) = 1" "l_committing (lg s) = 0"
  shows "\<exists>s'. end_op pid s = Ok s' \<and> log_inv pid s' \<and> lh_n (l_lh (lg s')) = 0 \<and> l_committing (lg s') = 0 \<and>
    l_outstanding (lg s') = 0 \<and> (\<forall>b. \<not> in_log (lg s) b \<longrightarrow> memdisk (disk (bc s')) b = bview (bc s) b)"
proof -
  let ?s = "s\<lparr>lg := (lg s)\<lparr>l_outstanding := 0, l_committing := 1\<rparr>\<rparr>"
  have cong: "log_inv pid (t\<lparr>lg := (lg t)\<lparr>l_outstanding := o', l_committing := c'\<rparr>\<rparr>) = log_inv pid t" for t o' c'
    by (rule log_inv_counters(1))
  have "log_inv pid ?s" unfolding cong by (rule inv)
  from commit_inv [OF this] obtain t where t: "commit pid ?s = Ok t" "log_inv pid t" "lh_n (l_lh (lg t)) = 0"
      "lg t = lg (clear_lh ?s)" "\<And>b. \<not> in_log (lg ?s) b \<Longrightarrow> bview (bc t) b = bview (bc ?s) b" by blast
  have "memdisk (disk (bc t)) b = bview (bc t) b" for b
    using bview_clean [OF log_inv_D(1) [OF t(2)]] log_inv_D(3) [OF t(2)] t(3) by simp
  moreover have "log_inv pid (t\<lparr>lg := end_op_leave (lg t)\<rparr>)"
    using cong [where t = t and o' = "l_outstanding (lg t)" and c' = 0] t(2) by (simp add: end_op_leave_def)
  moreover have "end_op pid s = Ok (t\<lparr>lg := end_op_leave (lg t)\<rparr>)"
    using l t(1) by (simp add: end_op_def end_op_enter_def Let_def)
  ultimately show ?thesis
    using t by (intro exI [of _ "t\<lparr>lg := end_op_leave (lg t)\<rparr>"]) (auto simp: end_op_leave_def in_log_def)
qed

theorem end_op_durable_witness:
  "\<exists>s s'. log_update 3 60 (replicate BSIZE 1) small_state = Ok s \<and> lh_n (l_lh (lg s)) = 1 \<and>
    end_op 3 s = Ok s' \<and> log_inv 3 s' \<and> lh_n (l_lh (lg s')) = 0 \<and> l_committing (lg s') = 0 \<and>
    l_outstanding (lg s') = 0 \<and> memdisk (disk (bc s')) 60 = replicate BSIZE 1"
proof -
  obtain s where s: "log_update 3 60 (replicate BSIZE 1) small_state = Ok s" "log_inv 3 s" "lh_n (l_lh (lg s)) = 1"
      "bview (bc s) 60 = replicate BSIZE 1" "\<not> in_log (lg s) 60" "l_outstanding (lg s) = 1" "l_committing (lg s) = 0"
    using small_update by blast
  from end_op_durable [OF s(2,6,7)] s show ?thesis by fastforce
qed

text \<open>
  C8: writing through the log. With the log not full and an operation outstanding,
  the read-modify-\<open>log_write\<close>-release sequence on a file system block succeeds, changes what
  the cache shows for that block alone, writes nothing to the disk, records the block once,
  and keeps the invariant of the log.
\<close>

theorem log_write_through:
  assumes "log_inv pid s" and "1 < n" and "n < disksize (disk (bc s))" and "\<not> in_log (lg s) n" and "length v = BSIZE"
    and "lh_n (l_lh (lg s)) < l_size (lg s) - 1" and "1 \<le> l_outstanding (lg s)"
  shows "\<exists>s'. log_update pid n v s = Ok s' \<and> log_inv pid s' \<and> bview (bc s') = (bview (bc s))(n := v) \<and>
    disk (bc s') = disk (bc s) \<and>
    log_home (lg s') ` {..<logn (lg s')} = insert n (log_home (lg s) ` {..<logn (lg s)})"
proof -
  obtain s' where s': "log_update pid n v s = Ok s'" "log_inv pid s'" "lg s' = log_add n (lg s)"
      "bview (bc s') = (bview (bc s))(n := v)" "disk (bc s') = disk (bc s)"
    using log_update_ok [OF assms] by blast
  note wf = log_inv_D(2) [OF assms(1)]
  have "log_home (lg s') ` {..<logn (lg s')} = insert n (log_home (lg s) ` {..<logn (lg s)})"
  proof (cases "n \<in> log_home (lg s) ` {..<logn (lg s)}")
    case True
    then show ?thesis using log_add_absorb [OF wf True assms(3)] s'(3) by (simp add: insert_absorb)
  next
    case False
    then show ?thesis using log_add_new(2) [OF wf False assms(2-4,6)] s'(3) by simp
  qed
  with s' show ?thesis by blast
qed

theorem log_write_through_witness:
  "\<exists>s'. log_update 3 60 (replicate BSIZE 1) small_state = Ok s' \<and> log_inv 3 s' \<and>
    bview (bc s') = (bview (bc small_state))(60 := replicate BSIZE 1) \<and> disk (bc s') = disk (bc small_state) \<and>
    log_home (lg s') ` {..<logn (lg s')} = insert 60 (log_home (lg small_state) ` {..<logn (lg small_state)})"
  by (rule log_write_through [OF small_state_inv])
    (simp_all add: small_state_def fresh_log_def in_log_def small_disk_def zero_disk_def)

text \<open>A small disk with a log of \<open>LOGSIZE\<close> blocks behind the superblock, and nothing running.\<close>

definition idle_state :: lstate where
  "idle_state = \<lparr>lg = fresh_log LOGSIZE, bc = boot small_disk\<rparr>"

lemma idle_state_idle: "log_idle idle_state"
proof -
  have "idle_state = small_state\<lparr>lg := (lg small_state)\<lparr>l_outstanding := 0\<rparr>\<rparr>"
    by (simp add: idle_state_def small_state_def fresh_log_def LOGSIZE_val)
  then have "log_inv 0 idle_state" using log_inv_counters(2) small_state_inv by metis
  then show ?thesis by (simp add: log_idle_def idle_state_def fresh_log_def)
qed

definition running :: "int \<Rightarrow> lstate" where
  "running n = idle_state\<lparr>lg := (fresh_log LOGSIZE)\<lparr>l_outstanding := n\<rparr>\<rparr>"

lemma running_inv: "log_inv 0 (running n)" "running 0 = idle_state"
proof -
  have "running n = idle_state\<lparr>lg := (lg idle_state)\<lparr>l_outstanding := n\<rparr>\<rparr>" by (simp add: running_def idle_state_def)
  then have "log_inv 0 (running n) = log_inv 0 idle_state" by (simp only: log_inv_counters)
  then show "log_inv 0 (running n)" using idle_state_idle by (simp add: log_idle_def)
  show "running 0 = idle_state" by (simp add: running_def idle_state_def fresh_log_def)
qed

lemma begin_step:
  assumes "ops i = None" "0 \<le> n" "n < 3"
  shows "log_step m (running n, ops, cm) (running (n + 1), ops(i \<mapsto> 0), cm)"
proof -
  have "begin_op (lg (running n)) = Ok ((fresh_log LOGSIZE)\<lparr>l_outstanding := n + 1\<rparr>)"
    using assms(2,3) by (simp add: running_def begin_op_def fresh_log_def LOGSIZE_def MAXOPBLOCKS_def)
  moreover have "running (n + 1) = (running n)\<lparr>lg := (fresh_log LOGSIZE)\<lparr>l_outstanding := n + 1\<rparr>\<rparr>" by (simp add: running_def)
  ultimately show ?thesis using step_begin [where s = "running n" and i = i] assms(1) by simp
qed

text \<open>Three operations that stay within their reservation, and the block that does not fit.\<close>

lemma reservation_overflow:
  "\<exists>s ops. (log_step 10)\<^sup>*\<^sup>* (idle_state, Map.empty, None) (s, ops, None) \<and> ops 2 = Some 9 \<and>
     log_record bn (lg s) = Panic ''too big a transaction''"
proof -
  let ?o = "Map.empty(0 \<mapsto> 0, 1 \<mapsto> 0, 2 \<mapsto> 0) :: nat \<Rightarrow> nat option"
  have "log_step 10 (running 0, Map.empty, None) (running 1, Map.empty(0 \<mapsto> 0), None)"
    "log_step 10 (running 1, Map.empty(0 \<mapsto> 0), None) (running 2, Map.empty(0 \<mapsto> 0, 1 \<mapsto> 0), None)"
    "log_step 10 (running 2, Map.empty(0 \<mapsto> 0, 1 \<mapsto> 0), None) (running 3, ?o, None)"
    using begin_step [of Map.empty 0 0] begin_step [of "Map.empty(0 \<mapsto> 0)" 1 1] begin_step [of "Map.empty(0 \<mapsto> 0, 1 \<mapsto> 0)" 2 2]
    by simp_all
  then have 0: "(log_step 10)\<^sup>*\<^sup>* (idle_state, Map.empty, None) (running 3, ?o, None)"
    unfolding running_inv(2) by (blast intro: converse_rtranclp_into_rtranclp)
  have s0: "seq_log 0 (lg (running 3))" "l_outstanding (lg (running 3)) = 3" "l_start (lg (running 3)) = 2"
    "l_size (lg (running 3)) = 30" "disksize (disk (bc (running 3))) = 1000"
    by (auto simp: seq_log_def running_def fresh_log_def idle_state_def small_disk_def zero_disk_def LOGSIZE_val)
  obtain s1 where 1: "(log_step 10)\<^sup>*\<^sup>* (running 3, ?o, None) (s1, ?o(0 \<mapsto> 10), None)" "log_inv 0 s1" "seq_log 10 (lg s1)"
      "l_outstanding (lg s1) = 3" "l_start (lg s1) = 2" "l_size (lg s1) = 30" "disksize (disk (bc s1)) = 1000"
    using seq_writes [OF running_inv(1) s0(1), of 10 0 ?o 0 None] s0 by auto
  obtain s2 where 2: "(log_step 10)\<^sup>*\<^sup>* (s1, ?o(0 \<mapsto> 10), None) (s2, ?o(0 \<mapsto> 10, 1 \<mapsto> 10), None)" "log_inv 0 s2"
      "seq_log 20 (lg s2)" "l_outstanding (lg s2) = 3" "l_start (lg s2) = 2" "l_size (lg s2) = 30" "disksize (disk (bc s2)) = 1000"
    using seq_writes [OF 1(2,3), of 10 0 "?o(0 \<mapsto> 10)" 1 None] 1 by auto
  obtain s3 where 3: "(log_step 10)\<^sup>*\<^sup>* (s2, ?o(0 \<mapsto> 10, 1 \<mapsto> 10), None) (s3, ?o(0 \<mapsto> 10, 1 \<mapsto> 10, 2 \<mapsto> 9), None)"
      "seq_log 29 (lg s3)" "l_size (lg s3) = 30"
    using seq_writes [OF 2(2,3), of 9 0 "?o(0 \<mapsto> 10, 1 \<mapsto> 10)" 2 None] 2 by auto
  from 0 1(1) 2(1) 3(1)
  have "(log_step 10)\<^sup>*\<^sup>* (idle_state, Map.empty, None) (s3, ?o(0 \<mapsto> 10, 1 \<mapsto> 10, 2 \<mapsto> 9), None)" by (meson rtranclp_trans)
  moreover have "log_record bn (lg s3) = Panic ''too big a transaction''"
    using 3(2,3) by (simp add: log_record_def seq_log_def LOGSIZE_val)
  ultimately show ?thesis by (intro exI [of _ s3] exI [of _ "?o(0 \<mapsto> 10, 1 \<mapsto> 10, 2 \<mapsto> 9)"]) simp
qed

text \<open>
  C11: group commit. On the log of \<open>LOGSIZE\<close> blocks that \<open>mkfs\<close> makes, operations that write at most \<open>m\<close>
  file system blocks each, \<open>m\<close> no more than \<open>MAXOPBLOCKS\<close>, begin, write, end and commit in any
  interleaving. In every state that they reach, \<open>end_op\<close> of every running operation goes through, the
  commit of the last one included, and so does the \<open>commit\<close> of a committer. A further write of a
  running operation goes through and shows in the cache if \<open>m\<close> is less than \<open>MAXOPBLOCKS\<close>; for
  \<open>m\<close> equal to \<open>MAXOPBLOCKS\<close> it does unless the log is full, which can happen.
\<close>

theorem group_commit_no_panic:
  assumes idle: "log_idle s0" "l_size (lg s0) = LOGSIZE" and m: "int m \<le> MAXOPBLOCKS"
    and run: "(log_step m)\<^sup>*\<^sup>* (s0, Map.empty, None) (s, ops, cm)"
  shows "(\<forall>i k. ops i = Some k \<longrightarrow> (\<exists>s'. end_op (int i) s = Ok s')) \<and>
    (\<forall>i. cm = Some i \<longrightarrow> (\<exists>s'. commit (int i) s = Ok s')) \<and>
    (\<forall>i k n v. ops i = Some k \<longrightarrow> k < m \<longrightarrow> fs_block s n \<longrightarrow> length v = BSIZE \<longrightarrow>
       int m < MAXOPBLOCKS \<or> lh_n (l_lh (lg s)) < LOGSIZE - 1 \<longrightarrow>
       (\<exists>s'. log_update (int i) n v s = Ok s' \<and> bview (bc s') = (bview (bc s))(n := v)))"
proof (intro conjI allI impI)
  have inv: "ops_inv LOGSIZE (s, ops, cm)" using log_steps_inv [OF run m ops_inv_idle [OF idle(1)]] idle(2) by simp
  show "\<exists>s'. end_op (int i) s = Ok s'" if "ops i = Some k" for i k using ops_inv_end [OF inv that] by blast
  show "\<exists>s'. commit (int i) s = Ok s'" if "cm = Some i" for i
    using commit_inv [OF log_inv_pid [of 0 s "int i"]] inv by (auto simp: ops_inv_def)
  fix i k and n :: uint and v :: "byte list"
  assume k: "ops i = Some k" "k < m" and n: "fs_block s n" "length v = BSIZE"
    and c: "int m < MAXOPBLOCKS \<or> lh_n (l_lh (lg s)) < LOGSIZE - 1"
  have "lh_n (l_lh (lg s)) < l_size (lg s) - 1" using ops_inv_running(1) [OF inv k(1)] k(2) c inv by (auto simp: ops_inv_def)
  from ops_inv_write [OF inv k(1) n this]
  show "\<exists>s'. log_update (int i) n v s = Ok s' \<and> bview (bc s') = (bview (bc s))(n := v)" .
qed

theorem group_commit_no_panic_witness:
  "\<exists>s1 s2 s3. (log_step 9)\<^sup>*\<^sup>* (idle_state, Map.empty, None) (s1, Map.empty(0 \<mapsto> 0), None) \<and> (\<exists>s'. end_op 0 s1 = Ok s') \<and>
     log_update 0 60 (replicate BSIZE 1) s1 = Ok s2 \<and> bview (bc s2) 60 = replicate BSIZE 1 \<and>
     (log_step 9)\<^sup>*\<^sup>* (idle_state, Map.empty, None) (s3, Map.empty, Some 0) \<and> (\<exists>s'. commit 0 s3 = Ok s')"
proof -
  note G = group_commit_no_panic [OF idle_state_idle]
  have sz: "l_size (lg idle_state) = LOGSIZE" "int 9 \<le> MAXOPBLOCKS" "int 9 < MAXOPBLOCKS"
    by (simp_all add: idle_state_def fresh_log_def MAXOPBLOCKS_def)
  let ?o = "Map.empty(0 \<mapsto> 0) :: nat \<Rightarrow> nat option"
  have r1: "(log_step 9)\<^sup>*\<^sup>* (idle_state, Map.empty, None) (running 1, ?o, None)"
    using begin_step [of Map.empty 0 0 9 None] by (simp add: running_inv(2) r_into_rtranclp)
  have fs: "fs_block (running 1) 60"
    by (simp add: fs_block_def in_log_def running_def fresh_log_def idle_state_def small_disk_def zero_disk_def LOGSIZE_val)
  note G1 = G [OF sz(1,2) r1]
  have e: "\<exists>s'. end_op 0 (running 1) = Ok s'" using conjunct1 [OF G1, rule_format, of 0 0] by simp
  obtain s2 where s2: "log_update 0 60 (replicate BSIZE 1) (running 1) = Ok s2"
      "bview (bc s2) = (bview (bc (running 1)))(60 := replicate BSIZE 1)"
    using conjunct2 [OF conjunct2 [OF G1], rule_format, of 0 0 60 "replicate BSIZE 1"] sz(3) fs by auto
  have "log_step 9 (running 1, ?o, None) (s2, ?o(0 \<mapsto> Suc 0), None)"
    using step_write [of ?o 0 0 9 "running 1" 60 "replicate BSIZE 1" s2 None] fs s2(1) by simp
  with r1 have r2: "(log_step 9)\<^sup>*\<^sup>* (idle_state, Map.empty, None) (s2, ?o(0 \<mapsto> Suc 0), None)" by simp
  have "lg s2 = log_add 60 (lg (running 1))"
    using log_update_ok [OF running_inv(1), of 60 1 "replicate BSIZE 1"] fs s2(1) log_update_room [OF s2(1)] by (auto simp: fs_block_def)
  then have "end_op_enter (lg s2) = Ok (True, (lg s2)\<lparr>l_outstanding := 0, l_committing := 1\<rparr>)"
    by (simp add: end_op_enter_def running_def fresh_log_def Let_def)
  from step_end [of "?o(0 \<mapsto> Suc 0)" 0 "Suc 0", OF _ this, of 9 None]
  have "log_step 9 (s2, ?o(0 \<mapsto> Suc 0), None) (s2\<lparr>lg := (lg s2)\<lparr>l_outstanding := 0, l_committing := 1\<rparr>\<rparr>, Map.empty, Some 0)" by simp
  with r2 have r3: "(log_step 9)\<^sup>*\<^sup>* (idle_state, Map.empty, None) (s2\<lparr>lg := (lg s2)\<lparr>l_outstanding := 0, l_committing := 1\<rparr>\<rparr>, Map.empty, Some 0)"
    by (rule rtranclp.rtrancl_into_rtrancl)
  have "\<exists>s'. commit 0 (s2\<lparr>lg := (lg s2)\<lparr>l_outstanding := 0, l_committing := 1\<rparr>\<rparr>) = Ok s'"
    using conjunct1 [OF conjunct2 [OF G [OF sz(1,2) r3]], rule_format, of 0] by simp
  with r1 e s2 r3 show ?thesis
    by (intro exI [of _ "running 1"] exI [of _ s2] exI [of _ "s2\<lparr>lg := (lg s2)\<lparr>l_outstanding := 0, l_committing := 1\<rparr>\<rparr>"]) simp
qed

text \<open>
  C12: the reservation and the size check disagree. With the log of \<open>LOGSIZE\<close> blocks that
  \<open>mkfs\<close> makes, three operations that \<open>begin_op\<close> admits together and that never exceed
  their reservation of \<open>MAXOPBLOCKS\<close> writes reach a state in which the tenth write of the
  third panics: one block of the log is the header.
\<close>

theorem log_reservation_gap:
  "\<exists>s ops. (log_step 10)\<^sup>*\<^sup>* (idle_state, Map.empty, None) (s, ops, None) \<and> ops 2 = Some 9 \<and> int 9 < MAXOPBLOCKS \<and>
     log_record bn (lg s) = Panic ''too big a transaction'' \<and> log_write b s = Panic ''too big a transaction''"
proof -
  obtain s ops where s: "(log_step 10)\<^sup>*\<^sup>* (idle_state, Map.empty, None) (s, ops, None)" "ops 2 = Some 9"
      "log_record bn (lg s) = Panic ''too big a transaction''"
    using reservation_overflow [of bn] by blast
  then have "log_record n (lg s) = Panic ''too big a transaction''" for n by (auto simp: log_record_def split: if_splits)
  with s show ?thesis by (intro exI [of _ s] exI [of _ ops]) (simp add: log_write_def MAXOPBLOCKS_def)
qed

end
