(* ===== verification/Cs1550_Disk.thy ===== *)
theory Cs1550_Disk
  imports Prelude
begin

unbundle bit_operations_syntax

text \<open>
  The lower half of the FUSE file system \<open>cs1550.c\<close>: the disk image, its 512-byte blocks
  and the bitmap in the last three of them. The image is the byte list of the file
  \<open>.disk\<close>; it is absent when the file cannot be opened, and every use of the null stream that
  \<open>open_disk\<close> then returns is undefined. Reads and writes position the stream first, so the
  stream position is not part of the state. A seek to a negative position, the value of a
  partially read element and the byte that a failed \<open>fread\<close> leaves uninitialised are
  undefined; a write behind the end extends the file with zeroes. The only other state is
  the static hint \<open>next_free_block_index\<close>.
\<close>

section \<open>Constants\<close>

definition BLOCK_SIZE :: nat where "BLOCK_SIZE = 512"
definition TOTAL_DISK_SIZE :: nat where "TOTAL_DISK_SIZE = 512 * 1024 * 1024"
definition BITMAP_SIZE_IN_BLOCKS :: nat where "BITMAP_SIZE_IN_BLOCKS = 3"
definition TOTAL_BLOCKS :: nat where "TOTAL_BLOCKS = TOTAL_DISK_SIZE div BLOCK_SIZE - BITMAP_SIZE_IN_BLOCKS"

record csdisk =
  image :: "byte list option"
  next_free_block_index :: int

section \<open>Blocks\<close>

definition open_disk :: "csdisk \<Rightarrow> byte list kres" where
  "open_disk s = (case image s of None \<Rightarrow> Undefined | Some d \<Rightarrow> Ok d)"

text \<open>The bytes that \<open>fread\<close> finds at a position, the buffer having been cleared before.\<close>

definition open_block :: "byte list \<Rightarrow> int \<Rightarrow> byte list kres" where
  "open_block d index =
    (if index < 0 then Undefined
     else
       (let off = BLOCK_SIZE * nat index in
        if off \<ge> length d then Ok (replicate BLOCK_SIZE 0)
        else if off + BLOCK_SIZE \<le> length d then Ok (slice off BLOCK_SIZE d)
        else Undefined))"

definition put_bytes :: "nat \<Rightarrow> byte list \<Rightarrow> byte list \<Rightarrow> byte list" where
  "put_bytes off bs d =
    (if off + length bs \<le> length d then splice off bs d
     else take off (d @ replicate (off - length d) 0) @ bs)"

definition write_block :: "byte list \<Rightarrow> int \<Rightarrow> byte list \<Rightarrow> byte list kres" where
  "write_block d index block =
    (if index < 0 then Undefined else Ok (put_bytes (BLOCK_SIZE * nat index) block d))"

section \<open>The bitmap\<close>

definition get_ith_bit :: "byte \<Rightarrow> nat \<Rightarrow> byte" where
  "get_ith_bit b position = drop_bit (8 - position - 1) b AND 1"

definition set_ith_bit :: "byte \<Rightarrow> nat \<Rightarrow> bool \<Rightarrow> byte" where
  "set_ith_bit b position val =
    (if val then b OR push_bit (8 - position - 1) 1
     else b AND NOT (push_bit (8 - position - 1) 1))"

text \<open>The position of the bitmap byte of a block: the seek is from the end of the file.\<close>

definition bitmap_pos :: "byte list \<Rightarrow> nat \<Rightarrow> int" where
  "bitmap_pos d i = int (length d) - int (BLOCK_SIZE * BITMAP_SIZE_IN_BLOCKS) + int (i div 8)"

definition bitmap_byte :: "byte list \<Rightarrow> nat \<Rightarrow> byte option" where
  "bitmap_byte d i =
    (let p = bitmap_pos d i in if p < int (length d) then Some (d ! nat p) else None)"

text \<open>One round of the search: the byte variable is 0 when the read finds nothing.\<close>

definition block_free :: "byte list \<Rightarrow> nat \<Rightarrow> bool" where
  "block_free d i = (get_ith_bit (case bitmap_byte d i of None \<Rightarrow> 0 | Some b \<Rightarrow> b) (i mod 8) = 0)"

function find_free_from :: "byte list \<Rightarrow> nat \<Rightarrow> nat option" where
  "find_free_from d i =
    (if i < TOTAL_BLOCKS then if block_free d i then Some i else find_free_from d (Suc i) else None)"
  by pat_completeness auto
termination by (relation "measure (\<lambda>(d, i). TOTAL_BLOCKS - i)") auto

declare find_free_from.simps [simp del]

definition find_next_free_block_index :: "byte list \<Rightarrow> int \<Rightarrow> (int \<times> int) kres" where
  "find_next_free_block_index d hint =
    (if hint < 0 \<or> length d < BLOCK_SIZE * BITMAP_SIZE_IN_BLOCKS then Undefined
     else case find_free_from d (nat hint) of
         Some i \<Rightarrow> Ok (int i, int i)
       | None \<Rightarrow> Ok (- 1, hint))"

text \<open>
  A negative index reaches \<open>set_bitmap\<close> only from \<open>cs1550_write\<close> on a full disk, which reads
  the block of that index next; the model gives up here already.
\<close>

definition set_bitmap :: "byte list \<Rightarrow> int \<Rightarrow> bool \<Rightarrow> byte list kres" where
  "set_bitmap d index is_taken =
    (if index < 0 \<or> length d < BLOCK_SIZE * BITMAP_SIZE_IN_BLOCKS then Undefined
     else case bitmap_byte d (nat index) of
         None \<Rightarrow> Undefined
       | Some b \<Rightarrow> Ok (d[nat (bitmap_pos d (nat index)) := set_ith_bit b (nat index mod 8) is_taken]))"

section \<open>Blocks of a whole disk\<close>

text \<open>A disk of \<open>N\<close> blocks, the last three of which hold the bitmap.\<close>

definition disk_wf :: "nat \<Rightarrow> byte list \<Rightarrow> bool" where
  "disk_wf N d \<longleftrightarrow> length d = BLOCK_SIZE * N \<and> BITMAP_SIZE_IN_BLOCKS < N"

definition dblock :: "byte list \<Rightarrow> nat \<Rightarrow> byte list" where
  "dblock d i = slice (BLOCK_SIZE * i) BLOCK_SIZE d"

lemma block_inside: "disk_wf N d \<Longrightarrow> i < N \<Longrightarrow> BLOCK_SIZE * i + BLOCK_SIZE \<le> length d"
  using mult_le_mono2 [of "Suc i" N BLOCK_SIZE] by (simp add: disk_wf_def Suc_le_eq)

lemma length_dblock [simp]: "disk_wf N d \<Longrightarrow> i < N \<Longrightarrow> length (dblock d i) = BLOCK_SIZE"
  using block_inside [of N d i] by (simp add: dblock_def)

lemma open_block_eq: "disk_wf N d \<Longrightarrow> i < N \<Longrightarrow> open_block d (int i) = Ok (dblock d i)"
  using block_inside [of N d i] by (simp add: open_block_def dblock_def Let_def BLOCK_SIZE_def)

lemma write_block_eq:
  "disk_wf N d \<Longrightarrow> i < N \<Longrightarrow> length b = BLOCK_SIZE \<Longrightarrow> write_block d (int i) b = Ok (splice (BLOCK_SIZE * i) b d)"
  using block_inside [of N d i] by (simp add: write_block_def put_bytes_def)

lemma disk_wf_splice: "disk_wf N d \<Longrightarrow> off + length b \<le> length d \<Longrightarrow> disk_wf N (splice off b d)"
  by (simp add: disk_wf_def)

lemma disk_wf_write: "disk_wf N d \<Longrightarrow> i < N \<Longrightarrow> length b = BLOCK_SIZE \<Longrightarrow> disk_wf N (splice (BLOCK_SIZE * i) b d)"
  using block_inside by (simp add: disk_wf_splice)

lemma dblock_write:
  assumes wf: "disk_wf N d" and ij: "i < N" "j < N" and b: "length b = BLOCK_SIZE"
  shows "dblock (splice (BLOCK_SIZE * i) b d) j = (if j = i then b else dblock d j)"
proof -
  note in_i = block_inside [OF wf ij(1)] and in_j = block_inside [OF wf ij(2)]
  consider "j = i" | "j < i" | "i < j" by linarith
  then show ?thesis
  proof cases
    case 1
    then show ?thesis using in_i b slice_splice_same [of "BLOCK_SIZE * i" b d] by (simp add: dblock_def)
  next
    case 2
    then have "BLOCK_SIZE * j + BLOCK_SIZE \<le> BLOCK_SIZE * i" using mult_le_mono2 [of "Suc j" i BLOCK_SIZE] by simp
    then show ?thesis using 2 in_i b by (simp add: dblock_def slice_splice_before)
  next
    case 3
    then have "BLOCK_SIZE * i + BLOCK_SIZE \<le> BLOCK_SIZE * j" using mult_le_mono2 [of "Suc i" j BLOCK_SIZE] by simp
    then show ?thesis using 3 in_j b by (simp add: dblock_def slice_splice_after)
  qed
qed

section \<open>Bitmap laws\<close>

lemma get_bit_iff: "position < 8 \<Longrightarrow> get_ith_bit b position = 0 \<longleftrightarrow> \<not> bit b (7 - position)"
  by (simp add: get_ith_bit_def and_one_eq bit_iff_odd_drop_bit even_iff_mod_2_eq_zero)

lemma get_set_bit:
  assumes "p < 8" "q < 8"
  shows "get_ith_bit (set_ith_bit b p v) q = 0 \<longleftrightarrow> (if p = q then \<not> v else get_ith_bit b q = 0)"
  using assms by (auto simp: get_bit_iff set_ith_bit_def bit_or_iff bit_and_iff bit_not_iff bit_exp_iff)

definition bitmap_blocks :: nat where "bitmap_blocks = 8 * BLOCK_SIZE * BITMAP_SIZE_IN_BLOCKS"

lemma bitmap_pos_eq: "disk_wf N d \<Longrightarrow> bitmap_pos d i = int (BLOCK_SIZE * (N - 3) + i div 8)"
  by (simp add: bitmap_pos_def disk_wf_def BLOCK_SIZE_def BITMAP_SIZE_IN_BLOCKS_def)

lemma bitmap_byte_eq:
  assumes "disk_wf N d"
  shows "bitmap_byte d i = (if i < bitmap_blocks then Some (d ! (BLOCK_SIZE * (N - 3) + i div 8)) else None)"
proof -
  have "BLOCK_SIZE * (N - 3) + i div 8 < length d \<longleftrightarrow> i < bitmap_blocks"
    using assms by (auto simp: disk_wf_def bitmap_blocks_def BLOCK_SIZE_def BITMAP_SIZE_IN_BLOCKS_def)
  then show ?thesis unfolding bitmap_byte_def bitmap_pos_eq [OF assms] Let_def
    by (simp only: of_nat_less_iff nat_int if_cancel)
qed

lemma set_bitmap_eq:
  assumes "disk_wf N d" and "i < bitmap_blocks"
  shows "set_bitmap d (int i) v =
    Ok (d[BLOCK_SIZE * (N - 3) + i div 8 := set_ith_bit (d ! (BLOCK_SIZE * (N - 3) + i div 8)) (i mod 8) v])"
proof -
  have "\<not> length d < BLOCK_SIZE * BITMAP_SIZE_IN_BLOCKS"
    using assms(1) by (simp add: disk_wf_def BLOCK_SIZE_def BITMAP_SIZE_IN_BLOCKS_def)
  then show ?thesis using assms(2)
    unfolding set_bitmap_def nat_int bitmap_byte_eq [OF assms(1)] bitmap_pos_eq [OF assms(1)] by simp
qed

text \<open>What setting a bit does: that block's bit, no other bit, and no block before the bitmap.\<close>

lemma set_bitmap_ok:
  assumes wf: "disk_wf N d" and i: "i < bitmap_blocks"
  shows "\<exists>d'. set_bitmap d (int i) v = Ok d' \<and> disk_wf N d' \<and>
    (\<forall>j. block_free d' j \<longleftrightarrow> (if j = i then \<not> v else block_free d j)) \<and> (\<forall>j < N - 3. dblock d' j = dblock d j)"
proof -
  let ?p = "\<lambda>i. BLOCK_SIZE * (N - 3) + i div 8" and ?d = "d[BLOCK_SIZE * (N - 3) + i div 8 := set_ith_bit (d ! (BLOCK_SIZE * (N - 3) + i div 8)) (i mod 8) v]"
  have wf': "disk_wf N ?d" using wf by (simp add: disk_wf_def)
  have pi: "?p i < length d" using wf i by (auto simp: disk_wf_def bitmap_blocks_def BLOCK_SIZE_def BITMAP_SIZE_IN_BLOCKS_def)
  have "block_free ?d j \<longleftrightarrow> (if j = i then \<not> v else block_free d j)" for j
  proof (cases "j < bitmap_blocks")
    case True
    have eq: "i = j" if "j div 8 = i div 8" "j mod 8 = i mod 8" using that by (metis mult_div_mod_eq)
    show ?thesis
    proof (cases "j div 8 = i div 8")
      case same: True
      then show ?thesis using True pi eq get_set_bit [of "i mod 8" "j mod 8"]
        by (auto simp: block_free_def bitmap_byte_eq [OF wf'] bitmap_byte_eq [OF wf])
    next
      case False
      then show ?thesis using True by (auto simp: block_free_def bitmap_byte_eq [OF wf'] bitmap_byte_eq [OF wf])
    qed
  next
    case False
    then show ?thesis using i by (auto simp: block_free_def bitmap_byte_eq [OF wf'] bitmap_byte_eq [OF wf])
  qed
  moreover have "dblock ?d j = dblock d j" if "j < N - 3" for j
  proof -
    have "BLOCK_SIZE * j + BLOCK_SIZE \<le> BLOCK_SIZE * (N - 3)" using that mult_le_mono2 [of "Suc j" "N - 3" BLOCK_SIZE] by simp
    then show ?thesis by (simp add: dblock_def slice_def drop_update_swap)
  qed
  ultimately show ?thesis using set_bitmap_eq [OF wf i, of v] wf' by blast
qed

lemma block_free_write:
  assumes wf: "disk_wf N d" and i: "i < N - 3" and b: "length b = BLOCK_SIZE"
  shows "block_free (splice (BLOCK_SIZE * i) b d) j = block_free d j"
proof -
  have wf': "disk_wf N (splice (BLOCK_SIZE * i) b d)" using disk_wf_write [OF wf _ b] i by simp
  have "BLOCK_SIZE * i + BLOCK_SIZE \<le> BLOCK_SIZE * (N - 3)" using i mult_le_mono2 [of "Suc i" "N - 3" BLOCK_SIZE] by simp
  moreover have "BLOCK_SIZE * (N - 3) + j div 8 < length d" if "j < bitmap_blocks"
    using that wf by (auto simp: disk_wf_def bitmap_blocks_def BLOCK_SIZE_def BITMAP_SIZE_IN_BLOCKS_def)
  ultimately have "splice (BLOCK_SIZE * i) b d ! (BLOCK_SIZE * (N - 3) + j div 8) = d ! (BLOCK_SIZE * (N - 3) + j div 8)"
    if "j < bitmap_blocks"
    using that b block_inside [OF wf, of i] i by (subst nth_splice) auto
  then show ?thesis by (simp add: block_free_def bitmap_byte_eq [OF wf'] bitmap_byte_eq [OF wf])
qed

section \<open>The search\<close>

lemma find_free_from_spec:
  "find_free_from d i = Some k \<longleftrightarrow> i \<le> k \<and> k < TOTAL_BLOCKS \<and> block_free d k \<and> (\<forall>j. i \<le> j \<and> j < k \<longrightarrow> \<not> block_free d j)"
proof (induction d i rule: find_free_from.induct)
  case (1 d i)
  consider "\<not> i < TOTAL_BLOCKS" | "i < TOTAL_BLOCKS" "block_free d i" | "i < TOTAL_BLOCKS" "\<not> block_free d i" by blast
  then show ?case
  proof cases
    case 1
    then show ?thesis by (subst find_free_from.simps) simp
  next
    case 2
    then have "find_free_from d i = Some i" by (subst find_free_from.simps) simp
    with 2 show ?thesis by (metis le_neq_implies_less less_irrefl option.inject order_refl linorder_not_less)
  next
    case 3
    then have eq: "find_free_from d i = find_free_from d (Suc i)" by (subst find_free_from.simps) simp
    have "(\<forall>j. i \<le> j \<and> j < k \<longrightarrow> \<not> block_free d j) \<longleftrightarrow> (\<forall>j. Suc i \<le> j \<and> j < k \<longrightarrow> \<not> block_free d j)"
      using 3(2) by (metis Suc_leI Suc_leD le_neq_implies_less)
    moreover have "i \<le> k \<and> block_free d k \<longleftrightarrow> Suc i \<le> k \<and> block_free d k"
      using 3(2) by (metis Suc_leI Suc_leD le_neq_implies_less)
    ultimately show ?thesis using 1 [OF 3] unfolding eq by blast
  qed
qed

end
