(* ===== verification/Cs1550_Fs.thy ===== *)
theory Cs1550_Fs
  imports Cs1550_Disk
begin

text \<open>
  The handlers of the FUSE file system \<open>cs1550.c\<close>, on an x86-64 build (\<open>long\<close> and \<open>size_t\<close>
  of 8 bytes). Structures are the bytes of their block, as the casts of the source have it,
  read and written through field accessors. A handler returns the value of the C function
  (a negative error number or a result), the new disk, and what it passes back through its
  pointers. Reading an uninitialised array, an index outside a block and a copy outside its
  destination are undefined. FUSE's \<open>filler\<close> is modelled by the list of names passed to it.
\<close>

section \<open>Constants\<close>

definition MAX_FILENAME :: nat where "MAX_FILENAME = 8"
definition MAX_EXTENSION :: nat where "MAX_EXTENSION = 3"
definition MAX_DIRNAME :: nat where "MAX_DIRNAME = 8"
definition FILE_ENTRY_SIZE :: nat where "FILE_ENTRY_SIZE = (MAX_FILENAME + 1) + (MAX_EXTENSION + 1) + 8 + 8"
definition MAX_FILES_IN_DIR :: nat where "MAX_FILES_IN_DIR = (BLOCK_SIZE - 4) div FILE_ENTRY_SIZE"
definition DIR_ENTRY_SIZE :: nat where "DIR_ENTRY_SIZE = (MAX_DIRNAME + 1) + 8"
definition MAX_DIRS_IN_ROOT :: nat where "MAX_DIRS_IN_ROOT = (BLOCK_SIZE - 4) div DIR_ENTRY_SIZE"
definition MAX_DATA_IN_BLOCK :: nat where "MAX_DATA_IN_BLOCK = BLOCK_SIZE - 8"

lemmas cs_consts = BLOCK_SIZE_def MAX_FILENAME_def MAX_EXTENSION_def MAX_DIRNAME_def FILE_ENTRY_SIZE_def
  MAX_FILES_IN_DIR_def DIR_ENTRY_SIZE_def MAX_DIRS_IN_ROOT_def MAX_DATA_IN_BLOCK_def BITMAP_SIZE_IN_BLOCKS_def

definition EPERM :: int where "EPERM = 1"
definition ENOENT :: int where "ENOENT = 2"
definition EEXIST :: int where "EEXIST = 17"
definition EISDIR :: int where "EISDIR = 21"
definition EFBIG :: int where "EFBIG = 27"
definition ENOSPC :: int where "ENOSPC = 28"
definition ENAMETOOLONG :: int where "ENAMETOOLONG = 36"

lemmas errno_defs = EPERM_def ENOENT_def EEXIST_def EISDIR_def EFBIG_def ENOSPC_def ENAMETOOLONG_def

record stat =
  st_mode :: nat
  st_nlink :: nat
  st_size :: ulong

definition zero_stat :: stat where "zero_stat = \<lparr>st_mode = 0, st_nlink = 0, st_size = 0\<rparr>"
definition dir_stat :: stat where "dir_stat = \<lparr>st_mode = 0x41ED, st_nlink = 2, st_size = 0\<rparr>"

section \<open>Fields of the structures\<close>

definition get_int :: "nat \<Rightarrow> byte list \<Rightarrow> int" where
  "get_int off b = sint (word_of_nat (le_dec (slice off 4 b)) :: 32 word)"

definition get_long :: "nat \<Rightarrow> byte list \<Rightarrow> int" where
  "get_long off b = sint (word_of_nat (le_dec (slice off 8 b)) :: 64 word)"

definition get_ulong :: "nat \<Rightarrow> byte list \<Rightarrow> ulong" where
  "get_ulong off b = word_of_nat (le_dec (slice off 8 b))"

definition put_int :: "nat \<Rightarrow> int \<Rightarrow> byte list \<Rightarrow> byte list" where
  "put_int off v b = splice off (le_enc 4 (unat (word_of_int v :: 32 word))) b"

definition put_long :: "nat \<Rightarrow> int \<Rightarrow> byte list \<Rightarrow> byte list" where
  "put_long off v b = splice off (le_enc 8 (unat (word_of_int v :: 64 word))) b"

definition put_ulong :: "nat \<Rightarrow> ulong \<Rightarrow> byte list \<Rightarrow> byte list" where
  "put_ulong off v b = splice off (le_enc 8 (unat v)) b"

text \<open>\<open>strcpy\<close> of a string into a block.\<close>

definition put_str :: "nat \<Rightarrow> byte list \<Rightarrow> byte list \<Rightarrow> byte list" where
  "put_str off v b = splice off (v @ [0]) b"

definition nDirectories :: "byte list \<Rightarrow> int" where "nDirectories root = get_int 0 root"
definition dname_off :: "nat \<Rightarrow> nat" where "dname_off i = 4 + DIR_ENTRY_SIZE * i"
definition dstart_off :: "nat \<Rightarrow> nat" where "dstart_off i = dname_off i + (MAX_DIRNAME + 1)"
definition nFiles :: "byte list \<Rightarrow> int" where "nFiles dir = get_int 0 dir"
definition fname_off :: "nat \<Rightarrow> nat" where "fname_off i = 4 + FILE_ENTRY_SIZE * i"
definition fext_off :: "nat \<Rightarrow> nat" where "fext_off i = fname_off i + (MAX_FILENAME + 1)"
definition fsize_off :: "nat \<Rightarrow> nat" where "fsize_off i = fext_off i + (MAX_EXTENSION + 1)"
definition fstart_off :: "nat \<Rightarrow> nat" where "fstart_off i = fsize_off i + 8"

lemmas field_offs = dname_off_def dstart_off_def fname_off_def fext_off_def fsize_off_def fstart_off_def

section \<open>Strings\<close>

text \<open>\<open>strcmp\<close> of a string in a block, which may run to the block's end, with a local string.\<close>

fun str_eq :: "byte list \<Rightarrow> byte list \<Rightarrow> bool kres" where
  "str_eq [] cs = Undefined"
| "str_eq (b # bs) [] = Ok (b = 0)"
| "str_eq (b # bs) (c # cs) = (if b = c then str_eq bs cs else Ok False)"

text \<open>The string that starts at a position of a block.\<close>

definition str_at :: "nat \<Rightarrow> byte list \<Rightarrow> byte list kres" where
  "str_at off b =
    (let s = takeWhile (\<lambda>x. x \<noteq> 0) (drop off b) in
     if off + length s < length b then Ok s else Undefined)"

text \<open>
  \<open>sscanf(path, "/%[^/]/%[^.].%s", directory, filename, extension)\<close>: the strings assigned, in
  order. A string that does not fit its array is undefined.
\<close>

definition is_space :: "byte \<Rightarrow> bool" where
  "is_space c \<longleftrightarrow> c = 32 \<or> (9 \<le> c \<and> c \<le> 13)"

definition scan_ext :: "byte list \<Rightarrow> byte list list kres" where
  "scan_ext p =
    (case p of [] \<Rightarrow> Ok []
     | c # p \<Rightarrow>
         if c \<noteq> 46 then Ok []
         else
           (let e = takeWhile (\<lambda>x. \<not> is_space x) (dropWhile is_space p) in
            if e = [] then Ok [] else if length e > MAX_EXTENSION then Undefined else Ok [e]))"

definition scan_file :: "byte list \<Rightarrow> byte list list kres" where
  "scan_file p =
    (case p of [] \<Rightarrow> Ok []
     | c # p \<Rightarrow>
         if c \<noteq> 47 then Ok []
         else
           (let f = takeWhile (\<lambda>x. x \<noteq> 46) p in
            if f = [] then Ok []
            else if length f > MAX_FILENAME then Undefined
            else kbind (scan_ext (dropWhile (\<lambda>x. x \<noteq> 46) p)) (\<lambda>es. Ok (f # es))))"

definition scan_path :: "byte list \<Rightarrow> byte list list kres" where
  "scan_path p =
    (case p of [] \<Rightarrow> Ok []
     | c # p \<Rightarrow>
         if c \<noteq> 47 then Ok []
         else
           (let d = takeWhile (\<lambda>x. x \<noteq> 47) p in
            if d = [] then Ok []
            else if length d > MAX_DIRNAME then Undefined
            else kbind (scan_file (dropWhile (\<lambda>x. x \<noteq> 47) p)) (\<lambda>fs. Ok (d # fs))))"

section \<open>Looking names up\<close>

text \<open>The loop over the directories of the root, \<open>k\<close> rounds from \<open>i\<close>.\<close>

primrec find_dir :: "byte list \<Rightarrow> byte list option \<Rightarrow> nat \<Rightarrow> nat \<Rightarrow> nat kres" where
  "find_dir root nm i 0 = Ok i"
| "find_dir root nm i (Suc k) =
    (if i \<ge> MAX_DIRS_IN_ROOT then Undefined
     else case nm of None \<Rightarrow> Undefined
       | Some nm \<Rightarrow>
           kbind (str_eq (drop (dname_off i) root) nm) (\<lambda>eq.
             if eq then Ok i else find_dir root (Some nm) (Suc i) k))"

text \<open>The loop over the files of a directory; the extension may be uninitialised.\<close>

primrec find_file :: "byte list \<Rightarrow> byte list \<Rightarrow> byte list option \<Rightarrow> nat \<Rightarrow> nat \<Rightarrow> nat kres" where
  "find_file dir nm ext i 0 = Ok i"
| "find_file dir nm ext i (Suc k) =
    (if i \<ge> MAX_FILES_IN_DIR then Undefined
     else
       kbind (str_eq (drop (fname_off i) dir) nm) (\<lambda>eq1.
         if \<not> eq1 then find_file dir nm ext (Suc i) k
         else case ext of None \<Rightarrow> Undefined
           | Some e \<Rightarrow>
               kbind (str_eq (drop (fext_off i) dir) e) (\<lambda>eq2.
                 if eq2 then Ok i else find_file dir nm ext (Suc i) k)))"

definition dir_start :: "byte list \<Rightarrow> nat \<Rightarrow> int kres" where
  "dir_start root i = (if i \<ge> MAX_DIRS_IN_ROOT then Undefined else Ok (get_long (dstart_off i) root))"

section \<open>The handlers\<close>

definition slash :: "byte list" where "slash = [47]"

definition cs1550_getattr :: "byte list \<Rightarrow> csdisk \<Rightarrow> (int \<times> stat) kres" where
  "cs1550_getattr path s =
    kbind (open_disk s) (\<lambda>d.
    if path = slash then Ok (0, dir_stat)
    else
      kbind (scan_path path) (\<lambda>toks.
      case toks of
        [] \<Rightarrow> Ok (- ENOENT, zero_stat)
      | directory # rest \<Rightarrow>
          kbind (open_block d 0) (\<lambda>root.
          kbind (find_dir root (Some directory) 0 (nat (nDirectories root))) (\<lambda>dir_index.
          if int dir_index = nDirectories root then Ok (- ENOENT, zero_stat)
          else
            case rest of
              [] \<Rightarrow> Ok (0, dir_stat)
            | filename # exts \<Rightarrow>
                kbind (dir_start root dir_index) (\<lambda>loc.
                kbind (open_block d loc) (\<lambda>dir.
                kbind (find_file dir filename (case exts of [] \<Rightarrow> None | e # _ \<Rightarrow> Some e) 0 (nat (nFiles dir)))
                  (\<lambda>file_index.
                if int file_index = nFiles dir then Ok (- ENOENT, zero_stat)
                else if file_index \<ge> MAX_FILES_IN_DIR then Undefined
                else Ok (0, \<lparr>st_mode = 0x81B6, st_nlink = 1, st_size = get_ulong (fsize_off file_index) dir\<rparr>))))))))"

text \<open>The loops of \<open>cs1550_readdir\<close>; the buffer for a file's name has 12 bytes.\<close>

primrec list_dirs :: "byte list \<Rightarrow> nat \<Rightarrow> nat \<Rightarrow> byte list list kres" where
  "list_dirs root i 0 = Ok []"
| "list_dirs root i (Suc k) =
    (if i \<ge> MAX_DIRS_IN_ROOT then Undefined
     else
       kbind (str_at (dname_off i) root) (\<lambda>nm.
       kbind (list_dirs root (Suc i) k) (\<lambda>nms. Ok (nm # nms))))"

primrec list_files :: "byte list \<Rightarrow> nat \<Rightarrow> nat \<Rightarrow> byte list list kres" where
  "list_files dir i 0 = Ok []"
| "list_files dir i (Suc k) =
    (if i \<ge> MAX_FILES_IN_DIR then Undefined
     else
       kbind (str_at (fname_off i) dir) (\<lambda>nm.
       kbind (str_at (fext_off i) dir) (\<lambda>ext.
       let full = nm @ [46] @ ext in
       if length full + 1 > MAX_FILENAME + MAX_EXTENSION + 1 then Undefined
       else kbind (list_files dir (Suc i) k) (\<lambda>nms. Ok (full # nms)))))"

definition cs1550_readdir :: "byte list \<Rightarrow> csdisk \<Rightarrow> (int \<times> byte list list) kres" where
  "cs1550_readdir path s =
    kbind (open_disk s) (\<lambda>d.
    kbind (open_block d 0) (\<lambda>root.
    let dots = [[46], [46, 46]] in
    if path = slash then
      kbind (list_dirs root 0 (nat (nDirectories root))) (\<lambda>nms. Ok (0, dots @ nms))
    else
      kbind (scan_path path) (\<lambda>toks.
      if length toks > 1 then Ok (- ENOENT, dots)
      else
        kbind (find_dir root (case toks of [] \<Rightarrow> None | t # _ \<Rightarrow> Some t) 0 (nat (nDirectories root))) (\<lambda>dir_index.
        if int dir_index = nDirectories root then Ok (- ENOENT, dots)
        else
          kbind (dir_start root dir_index) (\<lambda>loc.
          kbind (open_block d loc) (\<lambda>dir.
          kbind (list_files dir 0 (nat (nFiles dir))) (\<lambda>nms. Ok (0, dots @ nms))))))))"

definition cs1550_mkdir :: "byte list \<Rightarrow> csdisk \<Rightarrow> (int \<times> csdisk) kres" where
  "cs1550_mkdir path s =
    kbind (scan_path path) (\<lambda>toks.
    if length toks \<noteq> 1 then Ok (- EPERM, s)
    else
      (let directory = hd toks in
       if length directory > MAX_DIRNAME then Ok (- ENAMETOOLONG, s)
       else
         kbind (open_disk s) (\<lambda>d.
         kbind (open_block d 0) (\<lambda>root.
         let nDir = nDirectories root in
         kbind (find_dir root (Some directory) 0 (nat nDir)) (\<lambda>dir_index.
         if int dir_index < nDir then Ok (- EEXIST, s)
         else if nDir < 0 \<or> nDir \<ge> int MAX_DIRS_IN_ROOT then Ok (- ENOSPC, s)
         else
           kbind (find_next_free_block_index d (next_free_block_index s)) (\<lambda>(next_open_block, hint).
           let s = s\<lparr>next_free_block_index := hint\<rparr> in
           if next_open_block < 0 then Ok (- ENOSPC, s)
           else
             kbind (set_bitmap d next_open_block True) (\<lambda>d.
             let i = nat nDir;
                 root = put_int 0 (nDir + 1) root;
                 root = put_str (dname_off i) directory root;
                 root = put_long (dstart_off i) next_open_block root
             in kbind (write_block d 0 root) (\<lambda>d. Ok (0, s\<lparr>image := Some d\<rparr>)))))))))"

definition cs1550_rmdir :: "byte list \<Rightarrow> csdisk \<Rightarrow> (int \<times> csdisk) kres" where
  "cs1550_rmdir path s = Ok (0, s)"

text \<open>
  \<open>cs1550_mknod\<close>. The comparison with \<open>MAX_FILES_IN_DIR\<close> is unsigned. The entry it fills
  must lie inside the block.
\<close>

definition cs1550_mknod :: "byte list \<Rightarrow> csdisk \<Rightarrow> (int \<times> csdisk) kres" where
  "cs1550_mknod path s =
    kbind (scan_path path) (\<lambda>toks.
    if length toks < 3 then Ok (- EPERM, s)
    else
      (let directory = toks ! 0; filename = toks ! 1; extension = toks ! 2 in
       if length filename > MAX_FILENAME \<or> length extension > MAX_EXTENSION then Ok (- ENAMETOOLONG, s)
       else
         kbind (open_disk s) (\<lambda>d.
         kbind (open_block d 0) (\<lambda>root.
         kbind (find_dir root (Some directory) 0 (nat (nDirectories root))) (\<lambda>dir_index.
         if int dir_index = nDirectories root then Ok (- ENOENT, s)
         else
           kbind (dir_start root dir_index) (\<lambda>loc.
           kbind (open_block d loc) (\<lambda>dir.
           let nF = nFiles dir in
           kbind (find_file dir filename (Some extension) 0 (nat nF)) (\<lambda>file_index.
           if int file_index < nF then Ok (- EEXIST, s)
           else if nF < 0 \<or> nF > int MAX_FILES_IN_DIR then Ok (- ENOSPC, s)
           else if fname_off (nat nF) + FILE_ENTRY_SIZE > BLOCK_SIZE then Undefined
           else
             kbind (find_next_free_block_index d (next_free_block_index s)) (\<lambda>(next_open_block, hint).
             let s = s\<lparr>next_free_block_index := hint\<rparr> in
             if next_open_block < 0 then Ok (- ENOSPC, s)
             else
               kbind (set_bitmap d next_open_block True) (\<lambda>d.
               let i = nat nF;
                   dir = put_int 0 (nF + 1) dir;
                   dir = put_str (fname_off i) filename dir;
                   dir = put_str (fext_off i) extension dir;
                   dir = put_ulong (fsize_off i) 0 dir;
                   dir = put_long (fstart_off i) next_open_block dir
               in kbind (write_block d loc dir) (\<lambda>d. Ok (0, s\<lparr>image := Some d\<rparr>))))))))))))"

definition cs1550_unlink :: "byte list \<Rightarrow> csdisk \<Rightarrow> (int \<times> csdisk) kres" where
  "cs1550_unlink path s = Ok (0, s)"

subsection \<open>Reading and writing files\<close>

definition block_next :: "byte list \<Rightarrow> int" where "block_next block = get_long MAX_DATA_IN_BLOCK block"

text \<open>The part of \<open>cs1550_read\<close> and \<open>cs1550_write\<close> that finds the directory and the file.\<close>

datatype 'a found = NoDir | NoFile | Found 'a

definition locate :: "byte list list \<Rightarrow> byte list \<Rightarrow> (int \<times> byte list \<times> nat) found kres" where
  "locate toks d =
    kbind (open_block d 0) (\<lambda>root.
    kbind (find_dir root (Some (toks ! 0)) 0 (nat (nDirectories root))) (\<lambda>dir_index.
    if int dir_index = nDirectories root then Ok NoDir
    else
      kbind (dir_start root dir_index) (\<lambda>loc.
      kbind (open_block d loc) (\<lambda>dir.
      kbind (find_file dir (toks ! 1) (Some (toks ! 2)) 0 (nat (nFiles dir))) (\<lambda>file_index.
      if int file_index = nFiles dir then Ok NoFile
      else if file_index \<ge> MAX_FILES_IN_DIR then Undefined
      else Ok (Found (loc, dir, file_index)))))))"

text \<open>
  The loop that follows the chain to the block of the offset: \<open>None\<close> when the chain ends
  too early.
\<close>

partial_function (option) read_seek ::
    "byte list \<Rightarrow> ulong \<Rightarrow> byte list \<Rightarrow> ulong \<Rightarrow> ulong \<Rightarrow> (byte list \<times> ulong) option kres option" where
  "read_seek d offset block adj pos =
    (if offset > pos then
       if block_next block = 0 then Some (Ok None)
       else case open_block d (block_next block) of
           Ok b \<Rightarrow> read_seek d offset b (adj - word_of_nat MAX_DATA_IN_BLOCK) (pos + word_of_nat MAX_DATA_IN_BLOCK)
         | _ \<Rightarrow> Some Undefined
     else Some (Ok (Some (block, adj))))"

text \<open>\<open>memcpy\<close> from a block's data to the end of a buffer of a given capacity.\<close>

definition copy_out :: "nat \<Rightarrow> byte list \<Rightarrow> byte list \<Rightarrow> nat \<Rightarrow> nat \<Rightarrow> byte list kres" where
  "copy_out cap out block adj n =
    (if adj + n > MAX_DATA_IN_BLOCK \<or> length out + n > cap then Undefined else Ok (out @ slice adj n block))"

text \<open>The last loop of \<open>cs1550_read\<close>, which runs to the end of the file: \<open>want\<close> is \<open>fsize - offset\<close>.\<close>

function read_loop ::
    "byte list \<Rightarrow> nat \<Rightarrow> nat \<Rightarrow> nat \<Rightarrow> byte list \<Rightarrow> nat \<Rightarrow> byte list \<Rightarrow> byte list kres" where
  "read_loop d cap want adj block size_read out =
    (if size_read < want then
       let size_left = want - size_read in
       if size_left > MAX_DATA_IN_BLOCK then
         kbind (copy_out cap out block adj MAX_DATA_IN_BLOCK) (\<lambda>out.
         if block_next block = 0 then Ok out
         else kbind (open_block d (block_next block)) (\<lambda>block.
           read_loop d cap want adj block (size_read + MAX_DATA_IN_BLOCK) out))
       else
         kbind (copy_out cap out block adj size_left) (\<lambda>out.
           read_loop d cap want adj block (size_read + size_left) out)
     else Ok out)"
  by pat_completeness auto
termination
  by (relation "measure (\<lambda>(d, cap, want, adj, block, size_read, out). want - size_read)")
    (auto simp: MAX_DATA_IN_BLOCK_def BLOCK_SIZE_def)

declare read_loop.simps [simp del]

text \<open>
  The part of \<open>cs1550_read\<close> behind the lookup: \<open>size\<close> is the size after it has been cut to the
  file, \<open>cap\<close> the size of the caller's buffer.
\<close>

definition read_data ::
    "byte list \<Rightarrow> nat \<Rightarrow> ulong \<Rightarrow> ulong \<Rightarrow> ulong \<Rightarrow> byte list \<Rightarrow> (int \<times> byte list) kres" where
  "read_data d cap fsize size1 offset block =
    kbind (kbind (of_loop (read_seek d offset block offset (word_of_nat MAX_DATA_IN_BLOCK))) (\<lambda>x. x)) (\<lambda>r.
    case r of None \<Rightarrow> Ok (- ENOENT, [])
    | Some (block, adj) \<Rightarrow>
        (let want = unat (fsize - offset) in
         if adj + size1 > word_of_nat MAX_DATA_IN_BLOCK then
           (let first = unat (word_of_nat MAX_DATA_IN_BLOCK - adj) in
            kbind (copy_out cap [] block (unat adj) first) (\<lambda>out.
            if block_next block = 0 then Ok (- ENOENT, out)
            else
              kbind (open_block d (block_next block)) (\<lambda>block.
              kbind (read_loop d cap want 0 block first out) (\<lambda>out.
                Ok (sint (ucast size1 :: 32 word), out)))))
         else
           kbind (read_loop d cap want (unat adj) block 0 []) (\<lambda>out.
             Ok (sint (ucast size1 :: 32 word), out))))"

definition cs1550_read :: "byte list \<Rightarrow> ulong \<Rightarrow> ulong \<Rightarrow> csdisk \<Rightarrow> (int \<times> byte list) kres" where
  "cs1550_read path size0 offset s =
    kbind (scan_path path) (\<lambda>toks.
    if size0 = 0 then Ok (- EPERM, [])
    else if length toks \<noteq> 3 then Ok (- EISDIR, [])
    else if length (toks ! 0) > MAX_DIRNAME \<or> length (toks ! 1) > MAX_FILENAME \<or> length (toks ! 2) > MAX_EXTENSION
      then Ok (- ENOENT, [])
    else
      kbind (open_disk s) (\<lambda>d.
      kbind (locate toks d) (\<lambda>r.
      case r of NoDir \<Rightarrow> Ok (- ENOENT, []) | NoFile \<Rightarrow> Ok (- ENOENT, [])
      | Found (loc, dir, i) \<Rightarrow>
          kbind (open_block d (get_long (fstart_off i) dir)) (\<lambda>block.
          let fsize = get_ulong (fsize_off i) dir in
          read_data d (unat size0) fsize (if offset + size0 > fsize then fsize - offset else size0) offset block))))"

text \<open>The corresponding loop of \<open>cs1550_write\<close> stops at the last block of the chain.\<close>

partial_function (option) write_seek ::
    "byte list \<Rightarrow> ulong \<Rightarrow> int \<Rightarrow> byte list \<Rightarrow> ulong \<Rightarrow> ulong \<Rightarrow> (int \<times> byte list \<times> ulong) kres option" where
  "write_seek d offset bi block adj sofar =
    (if offset > sofar then
       if block_next block = 0 then Some (Ok (bi, block, adj))
       else case open_block d (block_next block) of
           Ok b \<Rightarrow> write_seek d offset (block_next block) b
             (adj - word_of_nat MAX_DATA_IN_BLOCK) (sofar + word_of_nat MAX_DATA_IN_BLOCK)
         | _ \<Rightarrow> Some Undefined
     else Some (Ok (bi, block, adj)))"

definition copy_in :: "byte list \<Rightarrow> nat \<Rightarrow> byte list \<Rightarrow> byte list kres" where
  "copy_in block adj bs = (if adj + length bs > MAX_DATA_IN_BLOCK then Undefined else Ok (splice adj bs block))"

text \<open>The loop of \<open>cs1550_write\<close> over the rest of the buffer.\<close>

function write_loop ::
    "byte list \<Rightarrow> int \<Rightarrow> nat \<Rightarrow> int \<Rightarrow> byte list \<Rightarrow> byte list \<Rightarrow> (byte list \<times> int) kres" where
  "write_loop d hint adj bi block buf =
    (if buf = [] then Ok (d, hint)
     else if length buf > MAX_DATA_IN_BLOCK then
       kbind (copy_in block adj (take MAX_DATA_IN_BLOCK buf)) (\<lambda>block.
       kbind (find_next_free_block_index d hint) (\<lambda>(next_open_block, hint).
       kbind (write_block d bi (put_long MAX_DATA_IN_BLOCK next_open_block block)) (\<lambda>d.
       kbind (open_block d next_open_block) (\<lambda>block.
         write_loop d hint adj next_open_block block (drop MAX_DATA_IN_BLOCK buf)))))
     else
       kbind (copy_in block adj buf) (\<lambda>block.
       kbind (write_block d bi block) (\<lambda>d. Ok (d, hint))))"
  by pat_completeness auto
termination
  by (relation "measure (\<lambda>(d, hint, adj, bi, block, buf). length buf)")
    (auto simp: MAX_DATA_IN_BLOCK_def BLOCK_SIZE_def)

declare write_loop.simps [simp del]

definition cs1550_write :: "byte list \<Rightarrow> byte list \<Rightarrow> ulong \<Rightarrow> csdisk \<Rightarrow> (int \<times> csdisk) kres" where
  "cs1550_write path buf offset s =
    kbind (scan_path path) (\<lambda>toks.
    if buf = [] then Ok (- EPERM, s)
    else if length toks \<noteq> 3 then Ok (- EEXIST, s)
    else
      kbind (open_disk s) (\<lambda>d.
      kbind (locate toks d) (\<lambda>r.
      case r of NoDir \<Rightarrow> Ok (- EEXIST, s) | NoFile \<Rightarrow> Ok (- ENOENT, s)
      | Found (loc, dir, i) \<Rightarrow>
          if offset > get_ulong (fsize_off i) dir then Ok (- EFBIG, s)
          else
            (let total_fsize = offset + word_of_nat (length buf); bi = get_long (fstart_off i) dir in
             kbind (open_block d bi) (\<lambda>block.
             kbind (kbind (of_loop (write_seek d offset bi block offset (word_of_nat MAX_DATA_IN_BLOCK))) (\<lambda>x. x))
               (\<lambda>(bi, block, adj).
             kbind
               (if adj + word_of_nat (length buf) > word_of_nat MAX_DATA_IN_BLOCK then
                  kbind (find_next_free_block_index d (next_free_block_index s)) (\<lambda>(next_open_block, hint).
                  let block = put_long MAX_DATA_IN_BLOCK next_open_block block in
                  kbind (set_bitmap d next_open_block True) (\<lambda>d.
                  let n = unat (word_of_nat MAX_DATA_IN_BLOCK - adj) in
                  kbind (copy_in block (unat adj) (take n buf)) (\<lambda>block.
                  kbind (write_block d bi block) (\<lambda>d.
                  kbind (open_block d next_open_block) (\<lambda>block.
                    write_loop d hint 0 next_open_block block (drop n buf))))))
                else write_loop d (next_free_block_index s) (unat adj) bi block buf)
               (\<lambda>(d, hint).
             kbind (write_block d loc (put_ulong (fsize_off i) total_fsize dir)) (\<lambda>d.
               Ok (sint (word_of_nat (length buf) :: 32 word),
                   s\<lparr>image := Some d, next_free_block_index := hint\<rparr>)))))))))"

definition cs1550_truncate :: "byte list \<Rightarrow> int \<Rightarrow> csdisk \<Rightarrow> (int \<times> csdisk) kres" where
  "cs1550_truncate path size0 s = Ok (0, s)"

definition cs1550_open :: "byte list \<Rightarrow> csdisk \<Rightarrow> (int \<times> csdisk) kres" where
  "cs1550_open path s = Ok (0, s)"

definition cs1550_flush :: "byte list \<Rightarrow> csdisk \<Rightarrow> (int \<times> csdisk) kres" where
  "cs1550_flush path s = Ok (0, s)"

section \<open>Laws of the field accessors\<close>

lemma slice_splice_disj:
  "a + len \<le> off \<or> off + length ys \<le> a \<Longrightarrow> a + len \<le> length xs \<Longrightarrow> off + length ys \<le> length xs \<Longrightarrow>
   slice a len (splice off ys xs) = slice a len xs"
  using slice_splice_before slice_splice_after by metis

lemma length_put [simp]:
  "off + 4 \<le> length b \<Longrightarrow> length (put_int off v b) = length b"
  "off + 8 \<le> length b \<Longrightarrow> length (put_long off v b) = length b"
  "off + 8 \<le> length b \<Longrightarrow> length (put_ulong off w b) = length b"
  "off + length s + 1 \<le> length b \<Longrightarrow> length (put_str off s b) = length b"
  by (simp_all add: put_int_def put_long_def put_ulong_def put_str_def)

lemma slice_put:
  "a + len \<le> off \<or> off + 4 \<le> a \<Longrightarrow> a + len \<le> length b \<Longrightarrow> off + 4 \<le> length b \<Longrightarrow> slice a len (put_int off v b) = slice a len b"
  "a + len \<le> off \<or> off + 8 \<le> a \<Longrightarrow> a + len \<le> length b \<Longrightarrow> off + 8 \<le> length b \<Longrightarrow> slice a len (put_long off v b) = slice a len b"
  "a + len \<le> off \<or> off + 8 \<le> a \<Longrightarrow> a + len \<le> length b \<Longrightarrow> off + 8 \<le> length b \<Longrightarrow> slice a len (put_ulong off w b) = slice a len b"
  "a + len \<le> off \<or> off + length s + 1 \<le> a \<Longrightarrow> a + len \<le> length b \<Longrightarrow> off + length s + 1 \<le> length b \<Longrightarrow>
   slice a len (put_str off s b) = slice a len b"
  by (simp_all add: put_int_def put_long_def put_ulong_def put_str_def slice_splice_disj)

lemma slice_splice_len: "off + n \<le> length xs \<Longrightarrow> n = length ys \<Longrightarrow> slice off n (splice off ys xs) = ys"
  by (simp add: slice_splice_same)

lemma get_put_int: "- (2 ^ 31) \<le> v \<Longrightarrow> v < 2 ^ 31 \<Longrightarrow> off + 4 \<le> length b \<Longrightarrow> get_int off (put_int off v b) = v"
proof -
  assume v: "- (2 ^ 31) \<le> v" "v < 2 ^ 31" and "off + 4 \<le> length b"
  then have "slice off 4 (put_int off v b) = le_enc 4 (unat (word_of_int v :: 32 word))"
    by (simp add: put_int_def slice_splice_len)
  moreover have "unat (word_of_int v :: 32 word) < 256 ^ 4" using unsigned_less [of "word_of_int v :: 32 word"] by simp
  ultimately show ?thesis using v by (simp add: get_int_def le_dec_enc signed_of_int signed_take_bit_int_eq_self)
qed

lemma get_put_long: "- (2 ^ 63) \<le> v \<Longrightarrow> v < 2 ^ 63 \<Longrightarrow> off + 8 \<le> length b \<Longrightarrow> get_long off (put_long off v b) = v"
proof -
  assume v: "- (2 ^ 63) \<le> v" "v < 2 ^ 63" and "off + 8 \<le> length b"
  then have "slice off 8 (put_long off v b) = le_enc 8 (unat (word_of_int v :: 64 word))"
    by (simp add: put_long_def slice_splice_len)
  moreover have "unat (word_of_int v :: 64 word) < 256 ^ 8" using unsigned_less [of "word_of_int v :: 64 word"] by simp
  ultimately show ?thesis using v by (simp add: get_long_def le_dec_enc signed_of_int signed_take_bit_int_eq_self)
qed

lemma get_put_ulong: "off + 8 \<le> length b \<Longrightarrow> get_ulong off (put_ulong off w b) = w"
proof -
  assume "off + 8 \<le> length b"
  then have "slice off 8 (put_ulong off w b) = le_enc 8 (unat w)"
    by (simp add: put_ulong_def slice_splice_len)
  moreover have "unat w < 256 ^ 8" using unsigned_less [of w] by simp
  ultimately show ?thesis by (simp add: get_ulong_def le_dec_enc)
qed

section \<open>Strings in blocks\<close>

definition has_str :: "nat \<Rightarrow> byte list \<Rightarrow> byte list \<Rightarrow> bool" where
  "has_str off b s \<longleftrightarrow> 0 \<notin> set s \<and> off + length s + 1 \<le> length b \<and> slice off (length s + 1) b = s @ [0]"

lemma has_str_drop: "has_str off b s \<Longrightarrow> drop off b = s @ 0 # drop (off + length s + 1) b"
  using append_take_drop_id [of "length s + 1" "drop off b"] by (simp add: has_str_def slice_def add.commute)

lemma str_eq_terminated: "0 \<notin> set s \<Longrightarrow> 0 \<notin> set t \<Longrightarrow> str_eq (s @ 0 # r) t = Ok (s = t)"
  by (induction "s @ 0 # r" t arbitrary: s rule: str_eq.induct) (auto simp: Cons_eq_append_conv append_eq_Cons_conv)

lemma str_eq_has_str: "has_str off b s \<Longrightarrow> 0 \<notin> set t \<Longrightarrow> str_eq (drop off b) t = Ok (s = t)"
  using has_str_drop [of off b s] str_eq_terminated [of s t] by (simp add: has_str_def)

lemma str_at_has_str: "has_str off b s \<Longrightarrow> str_at off b = Ok s"
proof -
  assume h: "has_str off b s"
  then have "takeWhile (\<lambda>x. x \<noteq> 0) (drop off b) = s"
    unfolding has_str_drop [OF h] by (subst takeWhile_append2) (auto simp: has_str_def)
  then show ?thesis using h by (simp add: str_at_def has_str_def)
qed

lemma has_str_put: "0 \<notin> set s \<Longrightarrow> off + length s + 1 \<le> length b \<Longrightarrow> has_str off (put_str off s b) s"
  by (simp add: has_str_def put_str_def slice_splice_len)

lemma has_str_slice: "has_str off b s \<Longrightarrow> length b' = length b \<Longrightarrow> slice off (length s + 1) b' = slice off (length s + 1) b \<Longrightarrow> has_str off b' s"
  by (simp add: has_str_def)

section \<open>Directories as lists\<close>

type_synonym dirs = "(byte list \<times> nat) list"
type_synonym files = "((byte list \<times> byte list) \<times> (ulong \<times> nat)) list"

definition root_wf :: "byte list \<Rightarrow> dirs \<Rightarrow> bool" where
  "root_wf root ds \<longleftrightarrow> length root = BLOCK_SIZE \<and> length ds \<le> MAX_DIRS_IN_ROOT \<and> nDirectories root = int (length ds) \<and>
     distinct (map fst ds) \<and>
     (\<forall>i < length ds. has_str (dname_off i) root (fst (ds ! i)) \<and> length (fst (ds ! i)) \<le> MAX_DIRNAME \<and>
        get_long (dstart_off i) root = int (snd (ds ! i)))"

definition dir_wf :: "byte list \<Rightarrow> files \<Rightarrow> bool" where
  "dir_wf dir fs \<longleftrightarrow> length dir = BLOCK_SIZE \<and> length fs \<le> MAX_FILES_IN_DIR \<and> nFiles dir = int (length fs) \<and>
     distinct (map fst fs) \<and>
     (\<forall>i < length fs. has_str (fname_off i) dir (fst (fst (fs ! i))) \<and> length (fst (fst (fs ! i))) \<le> MAX_FILENAME \<and>
        has_str (fext_off i) dir (snd (fst (fs ! i))) \<and> length (snd (fst (fs ! i))) \<le> MAX_EXTENSION \<and>
        get_ulong (fsize_off i) dir = fst (snd (fs ! i)) \<and> get_long (fstart_off i) dir = int (snd (snd (fs ! i))))"

text \<open>The position of a name, or the length of the list.\<close>

definition index_of :: "'a \<Rightarrow> 'a list \<Rightarrow> nat" where
  "index_of x xs = length (takeWhile (\<lambda>y. y \<noteq> x) xs)"

lemma index_of_less: "index_of x xs < length xs \<longleftrightarrow> x \<in> set xs"
  by (induction xs) (auto simp: index_of_def)

lemma index_of_le: "index_of x xs \<le> length xs"
  unfolding index_of_def by (rule length_takeWhile_le)

lemma nth_index_of: "x \<in> set xs \<Longrightarrow> xs ! index_of x xs = x"
  using nth_length_takeWhile [of "\<lambda>y. y \<noteq> x" xs] index_of_less [of x xs] by (simp add: index_of_def)

lemma index_of_absent: "x \<notin> set xs \<Longrightarrow> index_of x xs = length xs"
  using index_of_less [of x xs] index_of_le [of x xs] by simp

lemma index_of_step: "i < length xs \<Longrightarrow> index_of x (drop i xs) = (if xs ! i = x then 0 else Suc (index_of x (drop (Suc i) xs)))"
  unfolding index_of_def by (subst Cons_nth_drop_Suc [symmetric]) auto

lemma find_dir_from:
  assumes wf: "root_wf root ds" and nm: "0 \<notin> set nm"
  shows "i + k = length ds \<Longrightarrow> find_dir root (Some nm) i k = Ok (i + index_of nm (map fst (drop i ds)))"
proof (induction k arbitrary: i)
  case 0
  then show ?case by (simp add: index_of_def)
next
  case (Suc k)
  then have i: "i < length ds" "i < MAX_DIRS_IN_ROOT" using wf by (auto simp: root_wf_def)
  then have "str_eq (drop (dname_off i) root) nm = Ok (fst (ds ! i) = nm)"
    using wf nm str_eq_has_str by (auto simp: root_wf_def)
  moreover have "index_of nm (map fst (drop i ds)) = (if fst (ds ! i) = nm then 0 else Suc (index_of nm (map fst (drop (Suc i) ds))))"
    using index_of_step [of i "map fst ds" nm] i by (simp add: drop_map)
  ultimately show ?case using i Suc.IH [of "Suc i"] Suc.prems by simp
qed

lemma find_dir_eq:
  "root_wf root ds \<Longrightarrow> 0 \<notin> set nm \<Longrightarrow> find_dir root (Some nm) 0 (nat (nDirectories root)) = Ok (index_of nm (map fst ds))"
  using find_dir_from [of root ds nm 0 "length ds"] by (simp add: root_wf_def)

lemma find_file_from:
  assumes wf: "dir_wf dir fs" and nm: "0 \<notin> set nm" "0 \<notin> set ext"
  shows "i + k = length fs \<Longrightarrow> find_file dir nm (Some ext) i k = Ok (i + index_of (nm, ext) (map fst (drop i fs)))"
proof (induction k arbitrary: i)
  case 0
  then show ?case by (simp add: index_of_def)
next
  case (Suc k)
  then have i: "i < length fs" "i < MAX_FILES_IN_DIR" using wf by (auto simp: dir_wf_def)
  then have "str_eq (drop (fname_off i) dir) nm = Ok (fst (fst (fs ! i)) = nm)"
    "str_eq (drop (fext_off i) dir) ext = Ok (snd (fst (fs ! i)) = ext)"
    using wf nm str_eq_has_str by (auto simp: dir_wf_def)
  moreover have "index_of (nm, ext) (map fst (drop i fs)) =
      (if fst (fs ! i) = (nm, ext) then 0 else Suc (index_of (nm, ext) (map fst (drop (Suc i) fs))))"
    using index_of_step [of i "map fst fs" "(nm, ext)"] i by (simp add: drop_map)
  ultimately show ?case using i Suc.IH [of "Suc i"] Suc.prems by (cases "fst (fs ! i)") auto
qed

lemma find_file_eq:
  "dir_wf dir fs \<Longrightarrow> 0 \<notin> set nm \<Longrightarrow> 0 \<notin> set ext \<Longrightarrow>
   find_file dir nm (Some ext) 0 (nat (nFiles dir)) = Ok (index_of (nm, ext) (map fst fs))"
  using find_file_from [of dir fs nm ext 0 "length fs"] by (simp add: dir_wf_def)

subsection \<open>Adding entries\<close>

definition root_add :: "byte list \<Rightarrow> nat \<Rightarrow> nat \<Rightarrow> byte list \<Rightarrow> byte list" where
  "root_add nm n st root = put_long (dstart_off n) (int st) (put_str (dname_off n) nm (put_int 0 (int n + 1) root))"

lemma root_wf_add:
  assumes wf: "root_wf root ds" and n: "length ds < MAX_DIRS_IN_ROOT"
    and nm: "0 \<notin> set nm" "length nm \<le> MAX_DIRNAME" "nm \<notin> fst ` set ds" and st: "int st < 2 ^ 63"
  shows "root_wf (root_add nm (length ds) st root) (ds @ [(nm, st)])"
proof -
  let ?n = "length ds" let ?r = "root_add nm ?n st root"
  have len: "length root = 512" and n': "?n < 29" using wf n by (auto simp: root_wf_def cs_consts)
  then have lr: "length ?r = 512" using nm(2) by (simp add: root_add_def field_offs cs_consts)
  have sl: "slice a l ?r = slice a l root" if "4 \<le> a" "a + l \<le> dname_off ?n" for a l
    using that len n' nm(2) unfolding root_add_def by (simp add: slice_put field_offs cs_consts)
  have n0: "nDirectories ?r = int ?n + 1"
  proof -
    have "slice 0 4 ?r = slice 0 4 (put_int 0 (int ?n + 1) root)"
      using len n' nm(2) unfolding root_add_def by (simp add: slice_put field_offs cs_consts)
    then show ?thesis using get_put_int [of "int ?n + 1" 0 root] n' len by (simp add: nDirectories_def get_int_def)
  qed
  have new: "has_str (dname_off ?n) ?r nm" "get_long (dstart_off ?n) ?r = int st"
  proof -
    let ?r1 = "put_int 0 (int ?n + 1) root"
    have "has_str (dname_off ?n) (put_str (dname_off ?n) nm ?r1) nm"
      using nm len n' by (intro has_str_put) (auto simp: field_offs cs_consts)
    then show "has_str (dname_off ?n) ?r nm"
      by (rule has_str_slice) (use len n' nm(2) in \<open>auto simp: root_add_def slice_put field_offs cs_consts\<close>)
    show "get_long (dstart_off ?n) ?r = int st"
      unfolding root_add_def using st len n' nm(2) by (intro get_put_long) (auto simp: field_offs cs_consts)
  qed
  have old: "has_str (dname_off i) ?r (fst (ds ! i)) \<and> get_long (dstart_off i) ?r = int (snd (ds ! i))" if i: "i < ?n" for i
  proof -
    have w: "has_str (dname_off i) root (fst (ds ! i))" "length (fst (ds ! i)) \<le> 8" "get_long (dstart_off i) root = int (snd (ds ! i))"
      using wf i by (auto simp: root_wf_def cs_consts)
    have "slice (dname_off i) (length (fst (ds ! i)) + 1) ?r = slice (dname_off i) (length (fst (ds ! i)) + 1) root"
      "slice (dstart_off i) 8 ?r = slice (dstart_off i) 8 root"
      using i w(2) by (intro sl; simp add: field_offs cs_consts)+
    then show ?thesis using w has_str_slice [OF w(1)] lr len by (simp add: get_long_def)
  qed
  show ?thesis
    using wf n nm lr n0 new old by (auto simp: root_wf_def nth_append less_Suc_eq BLOCK_SIZE_def)
qed

definition dir_add :: "byte list \<Rightarrow> byte list \<Rightarrow> nat \<Rightarrow> nat \<Rightarrow> byte list \<Rightarrow> byte list" where
  "dir_add nm ext n st dir = put_long (fstart_off n) (int st) (put_ulong (fsize_off n) 0
     (put_str (fext_off n) ext (put_str (fname_off n) nm (put_int 0 (int n + 1) dir))))"

lemma dir_wf_add:
  assumes wf: "dir_wf dir fs" and n: "length fs < MAX_FILES_IN_DIR"
    and nm: "0 \<notin> set nm" "length nm \<le> MAX_FILENAME" "0 \<notin> set ext" "length ext \<le> MAX_EXTENSION" "(nm, ext) \<notin> fst ` set fs"
    and st: "int st < 2 ^ 63"
  shows "dir_wf (dir_add nm ext (length fs) st dir) (fs @ [((nm, ext), (0, st))])"
proof -
  let ?n = "length fs" let ?r = "dir_add nm ext ?n st dir"
  have len: "length dir = 512" and n': "?n < 17" using wf n by (auto simp: dir_wf_def cs_consts)
  have l8: "length nm \<le> 8" "length ext \<le> 3" using nm by (auto simp: cs_consts)
  then have lr: "length ?r = 512" using len n' by (simp add: dir_add_def field_offs cs_consts)
  have sl: "slice a l ?r = slice a l dir" if "4 \<le> a" "a + l \<le> fname_off ?n" for a l
    using that len n' l8 unfolding dir_add_def by (simp add: slice_put field_offs cs_consts)
  have n0: "nFiles ?r = int ?n + 1"
  proof -
    have "slice 0 4 ?r = slice 0 4 (put_int 0 (int ?n + 1) dir)"
      using len n' l8 unfolding dir_add_def by (simp add: slice_put field_offs cs_consts)
    then show ?thesis using get_put_int [of "int ?n + 1" 0 dir] n' len by (simp add: nFiles_def get_int_def)
  qed
  let ?r1 = "put_int 0 (int ?n + 1) dir" let ?r2 = "put_str (fname_off ?n) nm ?r1" let ?r3 = "put_str (fext_off ?n) ext ?r2"
  let ?r4 = "put_ulong (fsize_off ?n) 0 ?r3"
  have lens: "length ?r1 = 512" "length ?r2 = 512" "length ?r3 = 512" "length ?r4 = 512"
    using len n' l8 by (simp_all add: field_offs cs_consts)
  have "has_str (fname_off ?n) ?r2 nm" "has_str (fext_off ?n) ?r3 ext"
    using nm lens n' l8 by (intro has_str_put; simp add: field_offs cs_consts)+
  then have new: "has_str (fname_off ?n) ?r nm" "has_str (fext_off ?n) ?r ext"
    using lr lens n' l8 by (auto elim!: has_str_slice simp: dir_add_def slice_put field_offs cs_consts)
  have "get_ulong (fsize_off ?n) ?r4 = 0" using lens n' by (intro get_put_ulong) (simp add: field_offs cs_consts)
  moreover have "slice (fsize_off ?n) 8 ?r = slice (fsize_off ?n) 8 ?r4"
    using lens n' unfolding dir_add_def by (simp add: slice_put field_offs cs_consts)
  ultimately have sz: "get_ulong (fsize_off ?n) ?r = 0" by (simp add: get_ulong_def)
  have start: "get_long (fstart_off ?n) ?r = int st"
    unfolding dir_add_def using st lens n' by (intro get_put_long) (simp_all add: field_offs cs_consts)
  have old: "has_str (fname_off i) ?r (fst (fst (fs ! i))) \<and> has_str (fext_off i) ?r (snd (fst (fs ! i))) \<and>
      get_ulong (fsize_off i) ?r = fst (snd (fs ! i)) \<and> get_long (fstart_off i) ?r = int (snd (snd (fs ! i)))" if i: "i < ?n" for i
  proof -
    have w: "has_str (fname_off i) dir (fst (fst (fs ! i)))" "length (fst (fst (fs ! i))) \<le> 8"
      "has_str (fext_off i) dir (snd (fst (fs ! i)))" "length (snd (fst (fs ! i))) \<le> 3"
      "get_ulong (fsize_off i) dir = fst (snd (fs ! i))" "get_long (fstart_off i) dir = int (snd (snd (fs ! i)))"
      using wf i by (auto simp: dir_wf_def cs_consts)
    have "slice (fname_off i) (length (fst (fst (fs ! i))) + 1) ?r = slice (fname_off i) (length (fst (fst (fs ! i))) + 1) dir"
      "slice (fext_off i) (length (snd (fst (fs ! i))) + 1) ?r = slice (fext_off i) (length (snd (fst (fs ! i))) + 1) dir"
      "slice (fsize_off i) 8 ?r = slice (fsize_off i) 8 dir" "slice (fstart_off i) 8 ?r = slice (fstart_off i) 8 dir"
      using i w(2,4) by (intro sl; simp add: field_offs cs_consts)+
    then show ?thesis using w has_str_slice [OF w(1)] has_str_slice [OF w(3)] lr len by (simp add: get_long_def get_ulong_def)
  qed
  show ?thesis
    using wf n nm lr n0 new sz start old by (auto simp: dir_wf_def nth_append less_Suc_eq BLOCK_SIZE_def)
qed

text \<open>Everything of the entries but the size of entry \<open>i\<close> lies outside that field.\<close>

lemma resize_slice:
  assumes "length dir = 512" "i < 17" "j < 17" and a: "fname_off j \<le> a" "a + l \<le> fname_off j + 29"
    and "j \<noteq> i \<or> a + l \<le> fsize_off i \<or> fsize_off i + 8 \<le> a"
  shows "slice a l (put_ulong (fsize_off i) w dir) = slice a l dir"
proof (rule slice_put(3))
  have "fname_off j + 29 \<le> fname_off i" if "j < i" using that by (simp add: field_offs cs_consts)
  moreover have "fname_off i + 29 \<le> fname_off j" if "i < j" using that by (simp add: field_offs cs_consts)
  moreover have "fname_off i \<le> fsize_off i" "fsize_off i + 8 \<le> fname_off i + 29" by (simp_all add: field_offs cs_consts)
  ultimately show "a + l \<le> fsize_off i \<or> fsize_off i + 8 \<le> a" using assms(4-6) by (metis (full_types) le_trans linorder_neqE_nat)
  show "a + l \<le> length dir" "fsize_off i + 8 \<le> length dir" using assms by (simp_all add: field_offs cs_consts)
qed

lemma dir_wf_resize:
  assumes wf: "dir_wf dir fs" and i: "i < length fs"
  shows "dir_wf (put_ulong (fsize_off i) w dir) (fs[i := (fst (fs ! i), (w, snd (snd (fs ! i))))])"
proof -
  let ?r = "put_ulong (fsize_off i) w dir"
  have len: "length dir = 512" and n: "length fs \<le> 17" using wf by (auto simp: dir_wf_def cs_consts)
  then have lr: "length ?r = 512" using i by (simp add: field_offs cs_consts)
  have "has_str (fname_off j) ?r (fst (fst (fs ! j))) \<and> has_str (fext_off j) ?r (snd (fst (fs ! j))) \<and>
      get_ulong (fsize_off j) ?r = (if j = i then w else fst (snd (fs ! j))) \<and> get_long (fstart_off j) ?r = int (snd (snd (fs ! j)))"
    if j: "j < length fs" for j
  proof -
    have w: "has_str (fname_off j) dir (fst (fst (fs ! j)))" "length (fst (fst (fs ! j))) \<le> 8"
      "has_str (fext_off j) dir (snd (fst (fs ! j)))" "length (snd (fst (fs ! j))) \<le> 3"
      "get_ulong (fsize_off j) dir = fst (snd (fs ! j))" "get_long (fstart_off j) dir = int (snd (snd (fs ! j)))"
      using wf j by (auto simp: dir_wf_def cs_consts)
    note rs = resize_slice [OF len, of i j, where w = w]
    have ij: "i < 17" "j < 17" using i j n by simp_all
    have "slice (fname_off j) (length (fst (fst (fs ! j))) + 1) ?r = slice (fname_off j) (length (fst (fst (fs ! j))) + 1) dir"
      by (rule rs [OF ij]) (use w(2) in \<open>auto simp: field_offs cs_consts\<close>)
    moreover have "slice (fext_off j) (length (snd (fst (fs ! j))) + 1) ?r = slice (fext_off j) (length (snd (fst (fs ! j))) + 1) dir"
      by (rule rs [OF ij]) (use w(4) in \<open>auto simp: field_offs cs_consts\<close>)
    moreover have "slice (fstart_off j) 8 ?r = slice (fstart_off j) 8 dir"
      by (rule rs [OF ij]) (auto simp: field_offs cs_consts)
    moreover have "slice (fsize_off j) 8 ?r = slice (fsize_off j) 8 dir" if "j \<noteq> i"
      by (rule rs [OF ij]) (use that in \<open>auto simp: field_offs cs_consts\<close>)
    moreover have "get_ulong (fsize_off i) ?r = w" using i n len by (intro get_put_ulong) (simp add: field_offs cs_consts)
    ultimately show ?thesis using w has_str_slice [OF w(1)] has_str_slice [OF w(3)] lr len
      by (cases "j = i") (simp_all add: get_long_def get_ulong_def)
  qed
  moreover have "nFiles ?r = nFiles dir"
    using i n len by (simp add: nFiles_def get_int_def slice_put field_offs cs_consts)
  moreover have "map fst (fs[i := (fst (fs ! i), (w, snd (snd (fs ! i))))]) = map fst fs"
    using i by (simp add: map_update list_update_same_conv)
  ultimately show ?thesis
    using wf i lr by (auto simp: dir_wf_def nth_list_update BLOCK_SIZE_def)
qed

end
