(* ===== verification/Cs1550_Props.thy ===== *)
theory Cs1550_Props
  imports Cs1550_Fs "HOL-Library.Multiset"
begin

text \<open>
  Correctness of the handlers of \<open>cs1550.c\<close>: an invariant of the disk, an abstract file system
  (directory names to file names to sizes) that the metadata handlers refine, the contents
  that \<open>cs1550_read\<close> and \<open>cs1550_write\<close> give a file, and the inputs on which the handlers leave
  the bounds of their arrays or lose blocks.
\<close>

section \<open>The invariant\<close>

definition zero_block :: "byte list" where "zero_block = replicate BLOCK_SIZE 0"

text \<open>
  The root block lists the directories \<open>ds\<close>, their blocks list the files \<open>fs\<close>, the blocks in
  use are different, marked and in front of the bitmap, and the unmarked ones are zero: the
  file system frees nothing, and a fresh disk is zero.
\<close>

definition used_blocks :: "dirs \<Rightarrow> files list \<Rightarrow> nat list" where
  "used_blocks ds fs = map snd ds @ concat (map (map (\<lambda>f. snd (snd f))) fs)"

definition cs_disk :: "nat \<Rightarrow> byte list \<Rightarrow> dirs \<Rightarrow> files list \<Rightarrow> bool" where
  "cs_disk N d ds fs \<longleftrightarrow> disk_wf N d \<and> N - 3 \<le> bitmap_blocks \<and> root_wf (dblock d 0) ds \<and> length fs = length ds \<and>
     (\<forall>i < length ds. dir_wf (dblock d (snd (ds ! i))) (fs ! i)) \<and>
     distinct (used_blocks ds fs) \<and>
     (\<forall>b \<in> set (used_blocks ds fs). 0 < b \<and> b < N - 3 \<and> \<not> block_free d b) \<and>
     (\<forall>b. 0 < b \<and> b < N - 3 \<and> block_free d b \<longrightarrow> dblock d b = zero_block)"

definition cs_inv :: "nat \<Rightarrow> csdisk \<Rightarrow> dirs \<Rightarrow> files list \<Rightarrow> bool" where
  "cs_inv N s ds fs \<longleftrightarrow> (\<exists>d. image s = Some d \<and> cs_disk N d ds fs) \<and> 1 \<le> next_free_block_index s"

text \<open>The abstract file system.\<close>

type_synonym absfs = "byte list \<rightharpoonup> (byte list \<times> byte list \<rightharpoonup> ulong)"

definition cs_abs :: "dirs \<Rightarrow> files list \<Rightarrow> absfs" where
  "cs_abs ds fs nm = (let i = index_of nm (map fst ds) in
     if i < length ds then Some (\<lambda>k. map_option fst (map_of (fs ! i) k)) else None)"

lemma map_of_index: "map_of xs k = (let j = index_of k (map fst xs) in if j < length xs then Some (snd (xs ! j)) else None)"
  by (induction xs) (auto simp: index_of_def Let_def)

lemma cs_abs_dir: "cs_abs ds fs nm = None \<longleftrightarrow> nm \<notin> fst ` set ds"
  using index_of_less [of nm "map fst ds"] by (auto simp: cs_abs_def Let_def)

lemma index_of_append: "x \<in> set xs \<Longrightarrow> index_of x (xs @ ys) = index_of x xs"
  "x \<notin> set xs \<Longrightarrow> index_of x (xs @ ys) = length xs + index_of x ys"
  by (induction xs) (auto simp: index_of_def)

lemma index_of_one [simp]: "index_of x [y] = (if x = y then 0 else 1)"
  by (simp add: index_of_def)

lemma cs_abs_new_dir:
  assumes "nm \<notin> fst ` set ds" and "length fs = length ds"
  shows "cs_abs (ds @ [(nm, b)]) (fs @ [[]]) = (cs_abs ds fs)(nm \<mapsto> Map.empty)"
proof
  fix x
  consider "x \<in> fst ` set ds" | "x = nm" | "x \<notin> fst ` set ds" "x \<noteq> nm" by blast
  then show "cs_abs (ds @ [(nm, b)]) (fs @ [[]]) x = ((cs_abs ds fs)(nm \<mapsto> Map.empty)) x"
  proof cases
    case 1
    then have "index_of x (map fst ds) < length ds" using index_of_less [of x "map fst ds"] by simp
    with 1 assms show ?thesis by (auto simp: cs_abs_def Let_def index_of_append nth_append)
  next
    case 2
    with assms show ?thesis by (auto simp: cs_abs_def Let_def index_of_append nth_append fun_eq_iff)
  next
    case 3
    with assms show ?thesis by (auto simp: cs_abs_def Let_def index_of_append index_of_absent)
  qed
qed

section \<open>Allocation\<close>

text \<open>A free block in front of the bitmap, at or behind the hint.\<close>

definition space_left :: "nat \<Rightarrow> csdisk \<Rightarrow> bool" where
  "space_left N s \<longleftrightarrow> (\<exists>d. image s = Some d \<and> (\<exists>i < N - 3. next_free_block_index s \<le> int i \<and> block_free d i))"

text \<open>The block \<open>b\<close> was the first free one from the hint on; now it is marked and the hint.\<close>

definition allocated :: "csdisk \<Rightarrow> nat \<Rightarrow> csdisk \<Rightarrow> bool" where
  "allocated s b s' \<longleftrightarrow> next_free_block_index s \<le> int b \<and> next_free_block_index s' = int b \<and>
     block_free (the (image s)) b \<and> (\<forall>j. next_free_block_index s \<le> int j \<and> j < b \<longrightarrow> \<not> block_free (the (image s)) j) \<and>
     (\<forall>j. block_free (the (image s')) j \<longleftrightarrow> block_free (the (image s)) j \<and> j \<noteq> b)"

lemma bitmap_blocks_val: "bitmap_blocks = 12288"
  by (simp add: bitmap_blocks_def BLOCK_SIZE_def BITMAP_SIZE_IN_BLOCKS_def)

lemma TOTAL_BLOCKS_val: "TOTAL_BLOCKS = 1048573"
  by (simp add: TOTAL_BLOCKS_def TOTAL_DISK_SIZE_def BLOCK_SIZE_def BITMAP_SIZE_IN_BLOCKS_def)

lemma alloc_ok:
  assumes inv: "cs_inv N s ds fs" and d: "image s = Some d" and sp: "space_left N s"
  shows "\<exists>b. find_next_free_block_index d (next_free_block_index s) = Ok (int b, int b) \<and>
    0 < b \<and> b < N - 3 \<and> next_free_block_index s \<le> int b \<and> block_free d b \<and>
    (\<forall>j. next_free_block_index s \<le> int j \<and> j < b \<longrightarrow> \<not> block_free d j)"
proof -
  have cd: "cs_disk N d ds fs" "1 \<le> next_free_block_index s" using inv d by (auto simp: cs_inv_def)
  have wf: "disk_wf N d" and N: "N - 3 \<le> bitmap_blocks" using cd by (auto simp: cs_disk_def)
  let ?h = "nat (next_free_block_index s)"
  obtain i where i: "i < N - 3" "?h \<le> i" "block_free d i" using sp d by (auto simp: space_left_def nat_le_iff)
  define b where "b = (LEAST b. ?h \<le> b \<and> block_free d b)"
  have b: "?h \<le> b" "block_free d b" using LeastI [of "\<lambda>b. ?h \<le> b \<and> block_free d b" i] i by (auto simp: b_def)
  have ble: "b \<le> i" unfolding b_def by (rule Least_le) (use i in simp)
  have least: "\<not> block_free d j" if "?h \<le> j" "j < b" for j using not_less_Least [of j "\<lambda>b. ?h \<le> b \<and> block_free d b"] that by (auto simp: b_def)
  have "b < TOTAL_BLOCKS" using ble i(1) N by (simp add: TOTAL_BLOCKS_val bitmap_blocks_val)
  then have "find_free_from d ?h = Some b" using b least by (auto simp: find_free_from_spec)
  moreover have "\<not> length d < BLOCK_SIZE * BITMAP_SIZE_IN_BLOCKS" using wf by (simp add: disk_wf_def BLOCK_SIZE_def BITMAP_SIZE_IN_BLOCKS_def)
  ultimately have "find_next_free_block_index d (next_free_block_index s) = Ok (int b, int b)"
    using cd(2) by (simp add: find_next_free_block_index_def)
  then show ?thesis using b ble i(1) least cd(2) by (intro exI [of _ b]) (auto simp: nat_le_iff)
qed

text \<open>Marking a block and rewriting another: the disk changes that \<open>mkdir\<close> and \<open>mknod\<close> make.\<close>

lemma alloc_write:
  assumes wf: "disk_wf N d" and b: "b < bitmap_blocks" and w: "w < N - 3" and blk: "length blk = BLOCK_SIZE"
  shows "\<exists>d1 d2. set_bitmap d (int b) True = Ok d1 \<and> write_block d1 (int w) blk = Ok d2 \<and> disk_wf N d2 \<and>
    (\<forall>j < N - 3. dblock d2 j = (if j = w then blk else dblock d j)) \<and> (\<forall>j. block_free d2 j \<longleftrightarrow> block_free d j \<and> j \<noteq> b)"
proof -
  obtain d1 where 1: "set_bitmap d (int b) True = Ok d1" "disk_wf N d1"
      "\<And>j. block_free d1 j \<longleftrightarrow> block_free d j \<and> j \<noteq> b" "\<And>j. j < N - 3 \<Longrightarrow> dblock d1 j = dblock d j"
    using set_bitmap_ok [OF wf b, of True] by auto
  have wN: "w < N" using w by simp
  let ?d2 = "splice (BLOCK_SIZE * w) blk d1"
  have "write_block d1 (int w) blk = Ok ?d2" by (rule write_block_eq [OF 1(2) wN blk])
  moreover have "dblock ?d2 j = (if j = w then blk else dblock d j)" if "j < N - 3" for j
    using dblock_write [OF 1(2) wN _ blk, of j] 1(4) that by simp
  ultimately show ?thesis
    using 1 disk_wf_write [OF 1(2) wN blk] block_free_write [OF 1(2) w blk] by blast
qed

lemma dir_wf_zero: "dir_wf zero_block []"
  by (simp add: dir_wf_def zero_block_def nFiles_def get_int_def slice_def BLOCK_SIZE_def numeral_eq_Suc)

lemma cs_disk_D:
  assumes "cs_disk N d ds fs"
  shows "disk_wf N d" "N - 3 \<le> bitmap_blocks" "root_wf (dblock d 0) ds" "length fs = length ds"
    "i < length ds \<Longrightarrow> dir_wf (dblock d (snd (ds ! i))) (fs ! i)" "distinct (used_blocks ds fs)"
    "b \<in> set (used_blocks ds fs) \<Longrightarrow> 0 < b \<and> b < N - 3 \<and> \<not> block_free d b"
    "0 < b \<Longrightarrow> b < N - 3 \<Longrightarrow> block_free d b \<Longrightarrow> dblock d b = zero_block" "0 < N - 3"
    "i < length ds \<Longrightarrow> 0 < snd (ds ! i) \<and> snd (ds ! i) < N - 3"
proof -
  show "disk_wf N d" "N - 3 \<le> bitmap_blocks" "root_wf (dblock d 0) ds" "length fs = length ds"
    "i < length ds \<Longrightarrow> dir_wf (dblock d (snd (ds ! i))) (fs ! i)" "distinct (used_blocks ds fs)"
    "b \<in> set (used_blocks ds fs) \<Longrightarrow> 0 < b \<and> b < N - 3 \<and> \<not> block_free d b"
    "0 < b \<Longrightarrow> b < N - 3 \<Longrightarrow> block_free d b \<Longrightarrow> dblock d b = zero_block"
    using assms by (auto simp: cs_disk_def)
  show "0 < N - 3" using assms by (simp add: cs_disk_def disk_wf_def BITMAP_SIZE_IN_BLOCKS_def)
  show "i < length ds \<Longrightarrow> 0 < snd (ds ! i) \<and> snd (ds ! i) < N - 3"
    using assms by (auto simp: cs_disk_def used_blocks_def)
qed

lemma cs_disk_mkdir:
  assumes cd: "cs_disk N d ds fs" and n: "length ds < MAX_DIRS_IN_ROOT"
    and nm: "0 \<notin> set nm" "length nm \<le> MAX_DIRNAME" "nm \<notin> fst ` set ds"
    and b: "0 < b" "b < N - 3" "block_free d b"
  shows "\<exists>d1 d2. set_bitmap d (int b) True = Ok d1 \<and> write_block d1 0 (root_add nm (length ds) b (dblock d 0)) = Ok d2 \<and>
    cs_disk N d2 (ds @ [(nm, b)]) (fs @ [[]]) \<and> (\<forall>j. block_free d2 j \<longleftrightarrow> block_free d j \<and> j \<noteq> b)"
proof -
  note D = cs_disk_D [OF cd]
  have bb: "b < bitmap_blocks" using b(2) D(2) by simp
  then have wf': "root_wf (root_add nm (length ds) b (dblock d 0)) (ds @ [(nm, b)])"
    by (intro root_wf_add D(3) n nm) (simp add: bitmap_blocks_val)
  then have len: "length (root_add nm (length ds) b (dblock d 0)) = BLOCK_SIZE" by (simp add: root_wf_def)
  obtain d1 d2 where d2: "set_bitmap d (int b) True = Ok d1" "write_block d1 (int 0) (root_add nm (length ds) b (dblock d 0)) = Ok d2"
      "disk_wf N d2" "\<And>j. j < N - 3 \<Longrightarrow> dblock d2 j = (if j = 0 then root_add nm (length ds) b (dblock d 0) else dblock d j)"
      "\<And>j. block_free d2 j \<longleftrightarrow> block_free d j \<and> j \<noteq> b"
    using alloc_write [OF D(1) bb D(9) len] by blast
  have nu: "b \<notin> set (used_blocks ds fs)" using D(7) b(3) by blast
  have ub: "used_blocks (ds @ [(nm, b)]) (fs @ [[]]) = map snd ds @ b # concat (map (map (\<lambda>f. snd (snd f))) fs)"
    by (simp add: used_blocks_def)
  have dirs: "dir_wf (dblock d2 (snd ((ds @ [(nm, b)]) ! i))) ((fs @ [[]]) ! i)" if "i < Suc (length ds)" for i
  proof (cases "i < length ds")
    case True
    then show ?thesis using d2(4) [of "snd (ds ! i)"] D(4) D(5,10) [OF True] by (simp add: nth_append)
  next
    case False
    then have "i = length ds" using that by simp
    then show ?thesis using d2(4) [OF b(2)] b D(4,8) dir_wf_zero by (simp add: nth_append)
  qed
  have "cs_disk N d2 (ds @ [(nm, b)]) (fs @ [[]])"
    unfolding cs_disk_def
  proof (intro conjI)
    show "disk_wf N d2" "N - 3 \<le> bitmap_blocks" "length (fs @ [[]]) = length (ds @ [(nm, b)])" using d2(3) D(2,4) by simp_all
    show "root_wf (dblock d2 0) (ds @ [(nm, b)])" using wf' d2(4) [OF D(9)] by simp
    show "\<forall>i < length (ds @ [(nm, b)]). dir_wf (dblock d2 (snd ((ds @ [(nm, b)]) ! i))) ((fs @ [[]]) ! i)" using dirs by simp
    show "distinct (used_blocks (ds @ [(nm, b)]) (fs @ [[]]))"
      using D(6) nu unfolding ub by (auto simp: used_blocks_def)
    show "\<forall>c \<in> set (used_blocks (ds @ [(nm, b)]) (fs @ [[]])). 0 < c \<and> c < N - 3 \<and> \<not> block_free d2 c"
      using D(7) b d2(5) unfolding ub by (auto simp: used_blocks_def)
    show "\<forall>c. 0 < c \<and> c < N - 3 \<and> block_free d2 c \<longrightarrow> dblock d2 c = zero_block" using d2(4,5) D(8) by auto
  qed
  with d2(1,2,5) show ?thesis by auto
qed

section \<open>Paths\<close>

lemma set_dropWhile_sub: "set (dropWhile P xs) \<subseteq> set xs" by (auto dest: set_dropWhileD)
lemma set_takeWhile_sub: "set (takeWhile P xs) \<subseteq> set xs" by (auto dest: set_takeWhileD)

lemma scan_path_tokens:
  assumes "scan_path p = Ok toks" and "0 \<notin> set p"
  shows "length toks \<le> 3" and "t \<in> set toks \<Longrightarrow> 0 \<notin> set t" and "0 < length toks \<Longrightarrow> length (toks ! 0) \<le> MAX_DIRNAME"
    and "1 < length toks \<Longrightarrow> length (toks ! 1) \<le> MAX_FILENAME" and "2 < length toks \<Longrightarrow> length (toks ! 2) \<le> MAX_EXTENSION"
proof -
  have e: "length es \<le> 1 \<and> (\<forall>t \<in> set es. 0 \<notin> set t \<and> length t \<le> MAX_EXTENSION)" if "scan_ext q = Ok es" "0 \<notin> set q" for q es
    using that by (auto simp: scan_ext_def Let_def split: list.splits if_splits dest!: set_takeWhileD set_dropWhileD)
  have f: "length ts \<le> 2 \<and> (\<forall>t \<in> set ts. 0 \<notin> set t) \<and> (0 < length ts \<longrightarrow> length (ts ! 0) \<le> MAX_FILENAME) \<and>
      (1 < length ts \<longrightarrow> length (ts ! 1) \<le> MAX_EXTENSION)" if sf: "scan_file q = Ok ts" and z: "0 \<notin> set q" for q ts
  proof (cases ts)
    case (Cons t es)
    then obtain q' where q: "q = 47 # q'" "t = takeWhile (\<lambda>x. x \<noteq> 46) q'" "length t \<le> MAX_FILENAME"
        "scan_ext (dropWhile (\<lambda>x. x \<noteq> 46) q') = Ok es"
      using sf by (auto simp: scan_file_def Let_def kres_simps split: list.splits if_splits)
    have "0 \<notin> set (dropWhile (\<lambda>x. x \<noteq> 46) q')" "0 \<notin> set t" using z q by (auto dest: set_dropWhileD set_takeWhileD)
    with e [OF q(4)] q(3) Cons show ?thesis by (cases es) auto
  qed simp
  have "length toks \<le> 3 \<and> (\<forall>t \<in> set toks. 0 \<notin> set t) \<and> (0 < length toks \<longrightarrow> length (toks ! 0) \<le> MAX_DIRNAME) \<and>
      (1 < length toks \<longrightarrow> length (toks ! 1) \<le> MAX_FILENAME) \<and> (2 < length toks \<longrightarrow> length (toks ! 2) \<le> MAX_EXTENSION)"
  proof (cases toks)
    case (Cons t ts)
    then obtain q' where q: "p = 47 # q'" "t = takeWhile (\<lambda>x. x \<noteq> 47) q'" "length t \<le> MAX_DIRNAME"
        "scan_file (dropWhile (\<lambda>x. x \<noteq> 47) q') = Ok ts"
      using assms(1) by (auto simp: scan_path_def Let_def kres_simps split: list.splits if_splits)
    have "0 \<notin> set (dropWhile (\<lambda>x. x \<noteq> 47) q')" "0 \<notin> set t" using assms(2) q by (auto dest: set_dropWhileD set_takeWhileD)
    with f [OF q(4)] q(3) Cons show ?thesis by (cases ts) (auto simp: numeral_eq_Suc)
  qed simp
  then show "length toks \<le> 3" "t \<in> set toks \<Longrightarrow> 0 \<notin> set t" "0 < length toks \<Longrightarrow> length (toks ! 0) \<le> MAX_DIRNAME"
    "1 < length toks \<Longrightarrow> length (toks ! 1) \<le> MAX_FILENAME" "2 < length toks \<Longrightarrow> length (toks ! 2) \<le> MAX_EXTENSION" by auto
qed

section \<open>The metadata handlers refine the abstract file system\<close>

lemma cs_inv_D:
  assumes "cs_inv N s ds fs"
  obtains d where "image s = Some d" "cs_disk N d ds fs" "1 \<le> next_free_block_index s"
  using assms by (auto simp: cs_inv_def)

lemma open_root: "cs_disk N d ds fs \<Longrightarrow> open_block d 0 = Ok (dblock d 0)"
  using open_block_eq [of N d 0] cs_disk_D(1,9) [of N d ds fs] by simp

lemma root_count: "cs_disk N d ds fs \<Longrightarrow> nDirectories (dblock d 0) = int (length ds)"
  using cs_disk_D(3) by (auto simp: root_wf_def)

lemma open_subdir:
  assumes "cs_disk N d ds fs" and "i < length ds"
  shows "dir_start (dblock d 0) i = Ok (int (snd (ds ! i)))"
    and "open_block d (int (snd (ds ! i))) = Ok (dblock d (snd (ds ! i)))"
    and "nFiles (dblock d (snd (ds ! i))) = int (length (fs ! i))"
proof -
  note D = cs_disk_D [OF assms(1)]
  show "dir_start (dblock d 0) i = Ok (int (snd (ds ! i)))"
    using D(3) assms(2) by (auto simp: dir_start_def root_wf_def)
  show "open_block d (int (snd (ds ! i))) = Ok (dblock d (snd (ds ! i)))"
    using D(10) [OF assms(2)] by (intro open_block_eq [OF D(1)]) linarith
  show "nFiles (dblock d (snd (ds ! i))) = int (length (fs ! i))"
    using D(5) [OF assms(2)] by (simp add: dir_wf_def)
qed

lemma mkdir_success:
  assumes inv: "cs_inv N s ds fs" and d: "image s = Some d" and sp: "space_left N s" and n: "length ds < MAX_DIRS_IN_ROOT"
    and scan: "scan_path path = Ok [nm]" and nm: "0 \<notin> set nm" "length nm \<le> MAX_DIRNAME" "nm \<notin> fst ` set ds"
  shows "\<exists>s' b. cs1550_mkdir path s = Ok (0, s') \<and> cs_inv N s' (ds @ [(nm, b)]) (fs @ [[]]) \<and> allocated s b s'"
proof -
  have cd: "cs_disk N d ds fs" "1 \<le> next_free_block_index s" using inv d by (auto simp: cs_inv_def)
  obtain b where b: "find_next_free_block_index d (next_free_block_index s) = Ok (int b, int b)" "0 < b" "b < N - 3" "block_free d b"
      "next_free_block_index s \<le> int b" "\<And>j. next_free_block_index s \<le> int j \<Longrightarrow> j < b \<Longrightarrow> \<not> block_free d j"
    using alloc_ok [OF inv d sp] by blast
  obtain d1 d2 where d2: "set_bitmap d (int b) True = Ok d1" "write_block d1 0 (root_add nm (length ds) b (dblock d 0)) = Ok d2"
      "cs_disk N d2 (ds @ [(nm, b)]) (fs @ [[]])" "\<And>j. block_free d2 j \<longleftrightarrow> block_free d j \<and> j \<noteq> b"
    using cs_disk_mkdir [OF cd(1) n nm b(2-4)] by blast
  let ?s = "s\<lparr>next_free_block_index := int b, image := Some d2\<rparr>"
  have "cs1550_mkdir path s = Ok (0, ?s)"
    using scan nm d n b(1) d2(1,2) index_of_absent [of nm "map fst ds"]
    unfolding cs1550_mkdir_def
    by (simp add: open_disk_def open_root [OF cd(1)] root_count [OF cd(1)] find_dir_eq [OF cs_disk_D(3) [OF cd(1)], unfolded root_count [OF cd(1)], simplified]
        root_add_def Let_def add.commute)
  moreover have "cs_inv N ?s (ds @ [(nm, b)]) (fs @ [[]])" using d2(3) b(2) by (simp add: cs_inv_def)
  moreover have "allocated s b ?s" using d d2(4) b(4-6) by (simp add: allocated_def)
  ultimately show ?thesis by blast
qed

lemma mset_concat_snoc:
  assumes "i < length xss"
  shows "mset (concat (xss[i := xss ! i @ [b]])) = add_mset b (mset (concat xss))"
proof -
  have 1: "concat xss = concat (take i xss) @ xss ! i @ concat (drop (Suc i) xss)"
    using id_take_nth_drop [OF assms] by (metis concat.simps(2) concat_append)
  have 2: "concat (xss[i := xss ! i @ [b]]) = concat (take i xss) @ (xss ! i @ [b]) @ concat (drop (Suc i) xss)"
    using assms by (simp add: upd_conv_take_nth_drop)
  show ?thesis unfolding 1 2 by simp
qed

lemma used_blocks_snoc:
  assumes "i < length fs"
  shows "mset (used_blocks ds (fs[i := fs ! i @ [(k, (w, b))]])) = mset (b # used_blocks ds fs)"
proof -
  let ?g = "map (\<lambda>f. snd (snd f)) :: files \<Rightarrow> nat list"
  have "map ?g (fs[i := fs ! i @ [(k, (w, b))]]) = (map ?g fs)[i := map ?g fs ! i @ [b]]"
    using assms by (simp add: map_update)
  then show ?thesis using mset_concat_snoc [of i "map ?g fs" b] assms by (simp add: used_blocks_def)
qed

lemma cs_disk_mknod:
  assumes cd: "cs_disk N d ds fs" and i: "i < length ds" and n: "length (fs ! i) < MAX_FILES_IN_DIR"
    and nm: "0 \<notin> set nm" "length nm \<le> MAX_FILENAME" "0 \<notin> set ext" "length ext \<le> MAX_EXTENSION" "(nm, ext) \<notin> fst ` set (fs ! i)"
    and b: "0 < b" "b < N - 3" "block_free d b"
  shows "\<exists>d1 d2. set_bitmap d (int b) True = Ok d1 \<and>
    write_block d1 (int (snd (ds ! i))) (dir_add nm ext (length (fs ! i)) b (dblock d (snd (ds ! i)))) = Ok d2 \<and>
    cs_disk N d2 ds (fs[i := fs ! i @ [((nm, ext), (0, b))]]) \<and> (\<forall>j. block_free d2 j \<longleftrightarrow> block_free d j \<and> j \<noteq> b)"
proof -
  note D = cs_disk_D [OF cd]
  let ?w = "snd (ds ! i)" let ?blk = "dir_add nm ext (length (fs ! i)) b (dblock d ?w)" let ?fs = "fs[i := fs ! i @ [((nm, ext), (0, b))]]"
  have bb: "b < bitmap_blocks" using b(2) D(2) by simp
  then have wf': "dir_wf ?blk (fs ! i @ [((nm, ext), (0, b))])"
    by (intro dir_wf_add D(5) [OF i] n nm) (simp add: bitmap_blocks_val)
  then have len: "length ?blk = BLOCK_SIZE" by (simp add: dir_wf_def)
  have w: "0 < ?w" "?w < N - 3" using D(10) [OF i] by auto
  obtain d1 d2 where d2: "set_bitmap d (int b) True = Ok d1" "write_block d1 (int ?w) ?blk = Ok d2"
      "disk_wf N d2" "\<And>j. j < N - 3 \<Longrightarrow> dblock d2 j = (if j = ?w then ?blk else dblock d j)"
      "\<And>j. block_free d2 j \<longleftrightarrow> block_free d j \<and> j \<noteq> b"
    using alloc_write [OF D(1) bb w(2) len] by blast
  have nu: "b \<notin> set (used_blocks ds fs)" using D(7) b(3) by blast
  have um: "mset (used_blocks ds ?fs) = mset (b # used_blocks ds fs)" using used_blocks_snoc i D(4) by simp
  have us: "set (used_blocks ds ?fs) = insert b (set (used_blocks ds fs))" using mset_eq_setD [OF um] by simp
  have ud: "distinct (used_blocks ds ?fs)" using mset_eq_imp_distinct_iff [OF um] nu D(6) by simp
  have wu: "?w \<in> set (used_blocks ds fs)" using i by (simp add: used_blocks_def)
  have dist: "snd (ds ! j) = ?w \<longleftrightarrow> j = i" if "j < length ds" for j
    using D(6) that i nth_eq_iff_index_eq [of "map snd ds" j i] by (simp add: used_blocks_def)
  have "cs_disk N d2 ds ?fs"
    unfolding cs_disk_def
  proof (intro conjI)
    show "disk_wf N d2" "N - 3 \<le> bitmap_blocks" "length ?fs = length ds" using d2(3) D(2,4) by simp_all
    show "root_wf (dblock d2 0) ds" using d2(4) [OF D(9)] D(3) w by simp
    show "\<forall>j < length ds. dir_wf (dblock d2 (snd (ds ! j))) (?fs ! j)"
    proof (intro allI impI)
      fix j assume j: "j < length ds"
      then show "dir_wf (dblock d2 (snd (ds ! j))) (?fs ! j)"
        using d2(4) [of "snd (ds ! j)"] D(10) [OF j] D(5) [OF j] wf' dist [OF j] D(4) i by (cases "j = i") auto
    qed
    show "distinct (used_blocks ds ?fs)" by (rule ud)
    show "\<forall>c \<in> set (used_blocks ds ?fs). 0 < c \<and> c < N - 3 \<and> \<not> block_free d2 c" unfolding us using D(7) b d2(5) by auto
    show "\<forall>c. 0 < c \<and> c < N - 3 \<and> block_free d2 c \<longrightarrow> dblock d2 c = zero_block"
    proof (intro allI impI)
      fix c assume c: "0 < c \<and> c < N - 3 \<and> block_free d2 c"
      then have "block_free d c" "c \<noteq> ?w" using d2(5) D(7) [OF wu] by auto
      then show "dblock d2 c = zero_block" using d2(4) [of c] D(8) c by simp
    qed
  qed
  with d2(1,2,5) show ?thesis by auto
qed

lemma mknod_success:
  assumes inv: "cs_inv N s ds fs" and d: "image s = Some d" and sp: "space_left N s"
    and scan: "scan_path path = Ok [dn, nm, ext]" and dn: "0 \<notin> set dn" "index_of dn (map fst ds) = i" "i < length ds"
    and n: "length (fs ! i) < MAX_FILES_IN_DIR"
    and nm: "0 \<notin> set nm" "length nm \<le> MAX_FILENAME" "0 \<notin> set ext" "length ext \<le> MAX_EXTENSION" "(nm, ext) \<notin> fst ` set (fs ! i)"
  shows "\<exists>s' b. cs1550_mknod path s = Ok (0, s') \<and> cs_inv N s' ds (fs[i := fs ! i @ [((nm, ext), (0, b))]]) \<and> allocated s b s'"
proof -
  have cd: "cs_disk N d ds fs" "1 \<le> next_free_block_index s" using inv d by (auto simp: cs_inv_def)
  note D = cs_disk_D [OF cd(1)] and sub = open_subdir [OF cd(1) dn(3)]
  obtain b where b: "find_next_free_block_index d (next_free_block_index s) = Ok (int b, int b)" "0 < b" "b < N - 3" "block_free d b"
      "next_free_block_index s \<le> int b" "\<And>j. next_free_block_index s \<le> int j \<Longrightarrow> j < b \<Longrightarrow> \<not> block_free d j"
    using alloc_ok [OF inv d sp] by blast
  let ?w = "snd (ds ! i)" let ?blk = "dir_add nm ext (length (fs ! i)) b (dblock d ?w)"
  obtain d1 d2 where d2: "set_bitmap d (int b) True = Ok d1" "write_block d1 (int ?w) ?blk = Ok d2"
      "cs_disk N d2 ds (fs[i := fs ! i @ [((nm, ext), (0, b))]])" "\<And>j. block_free d2 j \<longleftrightarrow> block_free d j \<and> j \<noteq> b"
    using cs_disk_mknod [OF cd(1) dn(3) n nm b(2-4)] by blast
  let ?s = "s\<lparr>next_free_block_index := int b, image := Some d2\<rparr>"
  have fd: "find_dir (dblock d 0) (Some dn) 0 (length ds) = Ok i"
    using find_dir_eq [OF D(3) dn(1)] dn(2) by (simp add: root_count [OF cd(1)])
  have ff: "find_file (dblock d ?w) nm (Some ext) 0 (length (fs ! i)) = Ok (length (fs ! i))"
    using find_file_eq [OF D(5) [OF dn(3)] nm(1,3)] index_of_absent [of "(nm, ext)" "map fst (fs ! i)"] nm(5) sub(3) by simp
  have room: "\<not> fname_off (length (fs ! i)) + FILE_ENTRY_SIZE > BLOCK_SIZE" using n by (simp add: fname_off_def cs_consts)
  have "cs1550_mknod path s = Ok (0, ?s)"
    using scan nm d n b(1) d2(1,2) fd ff sub dn(3) room
    unfolding cs1550_mknod_def
    by (simp add: open_disk_def open_root [OF cd(1)] root_count [OF cd(1)] dir_add_def Let_def add.commute)
  moreover have "cs_inv N ?s ds (fs[i := fs ! i @ [((nm, ext), (0, b))]])" using d2(3) b(2) by (simp add: cs_inv_def)
  moreover have "allocated s b ?s" using d d2(4) b(4-6) by (simp add: allocated_def)
  ultimately show ?thesis by blast
qed

lemma cs_abs_new_file:
  assumes "i < length ds" "length fs = length ds" "index_of dn (map fst ds) = i" "(nm, ext) \<notin> fst ` set (fs ! i)"
    and "cs_abs ds fs dn = Some m"
  shows "cs_abs ds (fs[i := fs ! i @ [((nm, ext), (w, b))]]) = (cs_abs ds fs)(dn \<mapsto> m((nm, ext) \<mapsto> w))"
proof
  fix x
  have dn: "dn \<in> set (map fst ds)" using assms(1,3) index_of_less [of dn "map fst ds"] by simp
  have inj: "index_of x (map fst ds) = i \<Longrightarrow> x = dn"
    using assms(1,3) nth_index_of [of x "map fst ds"] nth_index_of [OF dn] index_of_less [of x "map fst ds"] by simp
  have m: "m = (\<lambda>k. map_option fst (map_of (fs ! i) k))" using assms(1,3,5) by (simp add: cs_abs_def Let_def)
  have "map_of (fs ! i) (nm, ext) = None" using assms(4) by (simp add: map_of_eq_None_iff)
  then have new: "(\<lambda>k. map_option fst (map_of (fs ! i @ [((nm, ext), (w, b))]) k)) = m((nm, ext) \<mapsto> w)"
    by (auto simp: m fun_eq_iff map_add_def split: option.splits)
  show "cs_abs ds (fs[i := fs ! i @ [((nm, ext), (w, b))]]) x = ((cs_abs ds fs)(dn \<mapsto> m((nm, ext) \<mapsto> w))) x"
  proof (cases "x = dn")
    case True
    then show ?thesis using assms(1-3) new by (simp add: cs_abs_def Let_def)
  next
    case False
    then have "index_of x (map fst ds) \<noteq> i" using inj by blast
    then show ?thesis using False by (simp add: cs_abs_def Let_def)
  qed
qed

text \<open>
  What \<open>cs1550_getattr\<close> means on the abstract file system. Files have an extension, so a path of two
  components names none.
\<close>

definition abs_getattr :: "absfs \<Rightarrow> byte list list \<Rightarrow> int \<times> stat" where
  "abs_getattr A toks =
    (case toks of [] \<Rightarrow> (- ENOENT, zero_stat)
     | dn # rest \<Rightarrow>
         (case A dn of None \<Rightarrow> (- ENOENT, zero_stat)
          | Some m \<Rightarrow>
              (case rest of [] \<Rightarrow> (0, dir_stat) | [nm] \<Rightarrow> (- ENOENT, zero_stat)
               | nm # ext # _ \<Rightarrow>
                   (case m (nm, ext) of None \<Rightarrow> (- ENOENT, zero_stat)
                    | Some sz \<Rightarrow> (0, \<lparr>st_mode = 0x81B6, st_nlink = 1, st_size = sz\<rparr>)))))"

text \<open>A path without an extension that names the first part of a file of the directory.\<close>

definition unextended :: "absfs \<Rightarrow> byte list list \<Rightarrow> bool" where
  "unextended A toks \<longleftrightarrow> length toks = 2 \<and> (\<exists>m ext. A (toks ! 0) = Some m \<and> (toks ! 1, ext) \<in> dom m)"

lemma find_file_unextended:
  assumes wf: "dir_wf dir fs" and nm: "0 \<notin> set nm"
  shows "i + k = length fs \<Longrightarrow>
    find_file dir nm None i k = (if nm \<in> fst ` fst ` set (drop i fs) then Undefined else Ok (i + k))"
proof (induction k arbitrary: i)
  case (Suc k)
  then have i: "i < length fs" "i < MAX_FILES_IN_DIR" using wf by (auto simp: dir_wf_def)
  then have "str_eq (drop (fname_off i) dir) nm = Ok (fst (fst (fs ! i)) = nm)"
    using wf nm str_eq_has_str by (auto simp: dir_wf_def)
  moreover have "drop i fs = fs ! i # drop (Suc i) fs" using i by (simp add: Cons_nth_drop_Suc)
  ultimately show ?case using i Suc.IH [of "Suc i"] Suc.prems by auto
qed simp

lemma getattr_refine:
  assumes inv: "cs_inv N s ds fs" and p: "0 \<notin> set path" "scan_path path = Ok toks"
  shows "cs1550_getattr path s =
    (if path = slash then Ok (0, dir_stat)
     else if unextended (cs_abs ds fs) toks then Undefined
     else Ok (abs_getattr (cs_abs ds fs) toks))"
proof (cases "path = slash")
  case True
  obtain d where "image s = Some d" using inv by (rule cs_inv_D)
  then show ?thesis using True by (simp add: cs1550_getattr_def open_disk_def)
next
  case ns: False
  obtain d where d: "image s = Some d" "cs_disk N d ds fs" using inv by (rule cs_inv_D)
  note D = cs_disk_D [OF d(2)] and T = scan_path_tokens [OF p(2,1)]
  show ?thesis
  proof (cases toks)
    case Nil
    then show ?thesis using p d ns by (simp add: cs1550_getattr_def open_disk_def abs_getattr_def unextended_def)
  next
    case (Cons dn rest)
    let ?i = "index_of dn (map fst ds)"
    have z: "0 \<notin> set dn" using T(2) Cons by simp
    have fd: "find_dir (dblock d 0) (Some dn) 0 (length ds) = Ok ?i"
      using find_dir_eq [OF D(3) z] by (simp add: root_count [OF d(2)])
    note base = open_disk_def open_root [OF d(2)] root_count [OF d(2)] cs1550_getattr_def abs_getattr_def unextended_def
    show ?thesis
    proof (cases "?i < length ds")
      case False
      then have "?i = length ds" "cs_abs ds fs dn = None" using index_of_le [of dn "map fst ds"] by (auto simp: cs_abs_def)
      then show ?thesis using p d(1) ns Cons fd by (simp add: base)
    next
      case True
      then have A: "cs_abs ds fs dn = Some (\<lambda>k. map_option fst (map_of (fs ! ?i) k))" by (simp add: cs_abs_def)
      note sub = open_subdir [OF d(2) True]
      consider "rest = []" | nm where "rest = [nm]" | nm ext where "rest = [nm, ext]"
        using T(1) Cons by (cases rest; cases "tl rest") (auto simp: numeral_eq_Suc)
      then show ?thesis
      proof cases
        case 1
        then show ?thesis using p d(1) ns Cons fd True A by (simp add: base)
      next
        case c2: (2 nm)
        have z2: "0 \<notin> set nm" using T(2) Cons c2 by simp
        have dm: "(\<exists>ext. (nm, ext) \<in> dom (\<lambda>k. map_option fst (map_of (fs ! ?i) k))) \<longleftrightarrow> nm \<in> fst ` fst ` set (fs ! ?i)"
          by (force simp: dom_map_of_conv_image_fst [symmetric] domIff)
        show ?thesis
          using p d(1) ns Cons c2 fd True A sub find_file_unextended [OF D(5) [OF True] z2, of 0 "length (fs ! ?i)"] dm
          by (simp add: base)
      next
        case c3: (3 nm ext)
        have z2: "0 \<notin> set nm" "0 \<notin> set ext" using T(2) Cons c3 by auto
        let ?j = "index_of (nm, ext) (map fst (fs ! ?i))"
        have ff: "find_file (dblock d (snd (ds ! ?i))) nm (Some ext) 0 (length (fs ! ?i)) = Ok ?j"
          using find_file_eq [OF D(5) [OF True] z2] sub(3) by simp
        have le: "?j \<le> length (fs ! ?i)" using index_of_le [of "(nm, ext)" "map fst (fs ! ?i)"] by simp
        have sz: "?j < length (fs ! ?i) \<Longrightarrow> get_ulong (fsize_off ?j) (dblock d (snd (ds ! ?i))) = fst (snd (fs ! ?i ! ?j)) \<and> ?j < MAX_FILES_IN_DIR"
          using D(5) [OF True] by (auto simp: dir_wf_def)
        show ?thesis
          using p d(1) ns Cons c3 fd True A sub ff le sz map_of_index [of "fs ! ?i" "(nm, ext)"]
          by (cases "?j < length (fs ! ?i)") (simp_all add: base Let_def)
      qed
    qed
  qed
qed

lemma mkdir_refine:
  assumes inv: "cs_inv N s ds fs" and p: "0 \<notin> set path" "scan_path path = Ok toks" and sp: "space_left N s"
  shows "\<exists>r s' ds' fs'. cs1550_mkdir path s = Ok (r, s') \<and> cs_inv N s' ds' fs' \<and>
    (if length toks \<noteq> 1 then r = - EPERM \<and> s' = s \<and> cs_abs ds' fs' = cs_abs ds fs
     else if cs_abs ds fs (hd toks) \<noteq> None then r = - EEXIST \<and> s' = s \<and> cs_abs ds' fs' = cs_abs ds fs
     else if length ds = MAX_DIRS_IN_ROOT then r = - ENOSPC \<and> s' = s \<and> cs_abs ds' fs' = cs_abs ds fs
     else r = 0 \<and> cs_abs ds' fs' = (cs_abs ds fs)(hd toks \<mapsto> Map.empty))"
proof -
  obtain d where d: "image s = Some d" "cs_disk N d ds fs" using inv by (rule cs_inv_D)
  note D = cs_disk_D [OF d(2)] and T = scan_path_tokens [OF p(2,1)]
  show ?thesis
  proof (cases "length toks = 1")
    case False
    then show ?thesis using inv p by (intro exI [of _ "- EPERM"] exI [of _ s] exI [of _ ds] exI [of _ fs]) (simp add: cs1550_mkdir_def)
  next
    case one: True
    then obtain nm where toks: "toks = [nm]" by (cases toks) auto
    have nm: "0 \<notin> set nm" "length nm \<le> MAX_DIRNAME" using T toks by auto
    have fd: "find_dir (dblock d 0) (Some nm) 0 (length ds) = Ok (index_of nm (map fst ds))"
      using find_dir_eq [OF D(3) nm(1)] by (simp add: root_count [OF d(2)])
    note base = open_disk_def open_root [OF d(2)] root_count [OF d(2)] cs1550_mkdir_def Let_def
    have le: "length ds \<le> MAX_DIRS_IN_ROOT" using D(3) by (simp add: root_wf_def)
    consider "nm \<in> fst ` set ds" | "nm \<notin> fst ` set ds" "length ds = MAX_DIRS_IN_ROOT" | "nm \<notin> fst ` set ds" "length ds < MAX_DIRS_IN_ROOT"
      using le by linarith
    then show ?thesis
    proof cases
      case 1
      then have "index_of nm (map fst ds) < length ds" "cs_abs ds fs nm \<noteq> None"
        using index_of_less [of nm "map fst ds"] by (auto simp: cs_abs_dir)
      then show ?thesis using inv p d(1) toks nm fd
        by (intro exI [of _ "- EEXIST"] exI [of _ s] exI [of _ ds] exI [of _ fs]) (simp add: base)
    next
      case 2
      then have "index_of nm (map fst ds) = length ds" "cs_abs ds fs nm = None"
        using index_of_absent [of nm "map fst ds"] by (auto simp: cs_abs_dir)
      then show ?thesis using inv p d(1) toks nm fd 2(2)
        by (intro exI [of _ "- ENOSPC"] exI [of _ s] exI [of _ ds] exI [of _ fs]) (simp add: base)
    next
      case 3
      then obtain s' b where "cs1550_mkdir path s = Ok (0, s')" "cs_inv N s' (ds @ [(nm, b)]) (fs @ [[]])"
        using mkdir_success [OF inv d(1) sp _ _ nm] p(2) toks by blast
      then show ?thesis using 3 toks cs_abs_new_dir [OF 3(1) D(4), of b] cs_abs_dir [of ds fs nm] by auto
    qed
  qed
qed

text \<open>\<open>cs1550_mknod\<close> on every branch that ends inside the directory's block.\<close>

lemma mknod_refine:
  assumes inv: "cs_inv N s ds fs" and p: "0 \<notin> set path" "scan_path path = Ok toks"
  shows "if length toks < 3 then cs1550_mknod path s = Ok (- EPERM, s)
    else case cs_abs ds fs (toks ! 0) of
      None \<Rightarrow> cs1550_mknod path s = Ok (- ENOENT, s)
    | Some m \<Rightarrow>
        if m (toks ! 1, toks ! 2) \<noteq> None then cs1550_mknod path s = Ok (- EEXIST, s)
        else length (fs ! index_of (toks ! 0) (map fst ds)) < MAX_FILES_IN_DIR \<longrightarrow>
          (space_left N s \<longrightarrow> (\<exists>s' fs'. cs1550_mknod path s = Ok (0, s') \<and> cs_inv N s' ds fs' \<and>
             cs_abs ds fs' = (cs_abs ds fs)(toks ! 0 \<mapsto> m((toks ! 1, toks ! 2) \<mapsto> 0)))) \<and>
          (\<forall>b h. find_next_free_block_index (the (image s)) (next_free_block_index s) = Ok (b, h) \<longrightarrow> b < 0 \<longrightarrow>
             cs1550_mknod path s = Ok (- ENOSPC, s\<lparr>next_free_block_index := h\<rparr>))"
proof -
  obtain d where d: "image s = Some d" "cs_disk N d ds fs" using inv by (rule cs_inv_D)
  note D = cs_disk_D [OF d(2)] and T = scan_path_tokens [OF p(2,1)]
  show ?thesis
  proof (cases "length toks < 3")
    case True
    then show ?thesis using p by (simp add: cs1550_mknod_def)
  next
    case three: False
    then have l3: "length toks = 3" using T(1) by simp
    then obtain dn nm ext where toks: "toks = [dn, nm, ext]" by (auto simp: numeral_eq_Suc length_Suc_conv)
    have nm: "0 \<notin> set dn" "0 \<notin> set nm" "length nm \<le> MAX_FILENAME" "0 \<notin> set ext" "length ext \<le> MAX_EXTENSION"
      using T toks by (auto simp: numeral_eq_Suc)
    let ?i = "index_of dn (map fst ds)"
    have fd: "find_dir (dblock d 0) (Some dn) 0 (length ds) = Ok ?i"
      using find_dir_eq [OF D(3) nm(1)] by (simp add: root_count [OF d(2)])
    note base = open_disk_def open_root [OF d(2)] root_count [OF d(2)] cs1550_mknod_def Let_def
    show ?thesis
    proof (cases "?i < length ds")
      case False
      then have "?i = length ds" "cs_abs ds fs dn = None" using index_of_le [of dn "map fst ds"] by (auto simp: cs_abs_def)
      then show ?thesis using p d(1) toks nm fd by (simp add: base)
    next
      case True
      then have A: "cs_abs ds fs dn = Some (\<lambda>k. map_option fst (map_of (fs ! ?i) k))" by (simp add: cs_abs_def)
      note sub = open_subdir [OF d(2) True]
      let ?j = "index_of (nm, ext) (map fst (fs ! ?i))"
      have ff: "find_file (dblock d (snd (ds ! ?i))) nm (Some ext) 0 (length (fs ! ?i)) = Ok ?j"
        using find_file_eq [OF D(5) [OF True] nm(2,4)] sub(3) by simp
      show ?thesis
      proof (cases "(nm, ext) \<in> fst ` set (fs ! ?i)")
        case in_dir: True
        have "?j < length (fs ! ?i)" using index_of_less [of "(nm, ext)" "map fst (fs ! ?i)"] in_dir by auto
        moreover have "map_of (fs ! ?i) (nm, ext) \<noteq> None" using in_dir by (simp add: map_of_eq_None_iff)
        ultimately show ?thesis using p d(1) toks nm fd A sub True ff by (simp add: base)
      next
        case False
        then have mo: "map_of (fs ! ?i) (nm, ext) = None" by (simp add: map_of_eq_None_iff)
        have j: "?j = length (fs ! ?i)" using False by (intro index_of_absent [where xs = "map fst (fs ! ?i)", simplified]) simp
        have full: "cs1550_mknod path s = Ok (- ENOSPC, s\<lparr>next_free_block_index := h\<rparr>)"
          if "length (fs ! ?i) < MAX_FILES_IN_DIR" "find_next_free_block_index d (next_free_block_index s) = Ok (b, h)" "b < 0" for b h
          using that p d(1) toks nm fd A sub True ff j by (simp add: base field_offs cs_consts FILE_ENTRY_SIZE_def)
        have new: "\<exists>s' fs'. cs1550_mknod path s = Ok (0, s') \<and> cs_inv N s' ds fs' \<and>
            cs_abs ds fs' = (cs_abs ds fs)(dn \<mapsto> (\<lambda>k. map_option fst (map_of (fs ! ?i) k))((nm, ext) \<mapsto> 0))"
          if room: "length (fs ! ?i) < MAX_FILES_IN_DIR" and sp: "space_left N s"
        proof -
          obtain s' b where "cs1550_mknod path s = Ok (0, s')" "cs_inv N s' ds (fs[?i := fs ! ?i @ [((nm, ext), (0, b))]])"
            using mknod_success [OF inv d(1) sp _ nm(1) refl True room nm(2-5) False] p(2) toks by blast
          then show ?thesis using cs_abs_new_file [OF True D(4) refl False A, of 0 b] by blast
        qed
        show ?thesis using toks A mo full new d(1) by simp
      qed
    qed
  qed
qed

text \<open>The eighteenth file of a directory does not fit its block, but passes the check.\<close>

lemma mknod_overflow:
  assumes inv: "cs_inv N s ds fs" and p: "0 \<notin> set path" "scan_path path = Ok [dn, nm, ext]"
    and i: "index_of dn (map fst ds) = i" "i < length ds" and full: "length (fs ! i) = MAX_FILES_IN_DIR"
    and new: "(nm, ext) \<notin> fst ` set (fs ! i)"
  shows "cs1550_mknod path s = Undefined"
proof -
  obtain d where d: "image s = Some d" "cs_disk N d ds fs" using inv by (rule cs_inv_D)
  note D = cs_disk_D [OF d(2)] and T = scan_path_tokens [OF p(2,1)] and sub = open_subdir [OF d(2) i(2)]
  have nm: "0 \<notin> set dn" "0 \<notin> set nm" "length nm \<le> MAX_FILENAME" "0 \<notin> set ext" "length ext \<le> MAX_EXTENSION"
    using T by (auto simp: numeral_eq_Suc)
  have fd: "find_dir (dblock d 0) (Some dn) 0 (length ds) = Ok i"
    using find_dir_eq [OF D(3) nm(1)] i(1) by (simp add: root_count [OF d(2)])
  have ff: "find_file (dblock d (snd (ds ! i))) nm (Some ext) 0 (length (fs ! i)) = Ok (length (fs ! i))"
    using find_file_eq [OF D(5) [OF i(2)] nm(2,4)] index_of_absent [of "(nm, ext)" "map fst (fs ! i)"] new sub(3) by simp
  have "fname_off (length (fs ! i)) + FILE_ENTRY_SIZE > BLOCK_SIZE" unfolding full by (simp add: fname_off_def cs_consts)
  then show ?thesis
    using p(2) nm d(1) fd ff sub i(2) full
    by (simp add: cs1550_mknod_def open_disk_def open_root [OF d(2)] root_count [OF d(2)] Let_def)
qed

section \<open>Reading a file\<close>

text \<open>The blocks of a file, linked in this order, and the bytes they hold.\<close>

definition file_blocks :: "nat \<Rightarrow> byte list \<Rightarrow> nat list \<Rightarrow> bool" where
  "file_blocks N d bs \<longleftrightarrow> disk_wf N d \<and> bs \<noteq> [] \<and> (\<forall>b \<in> set bs. 0 < b \<and> b < N) \<and>
     (\<forall>k. Suc k < length bs \<longrightarrow> block_next (dblock d (bs ! k)) = int (bs ! Suc k))"

definition block_data :: "byte list \<Rightarrow> byte list" where
  "block_data b = take MAX_DATA_IN_BLOCK b"

definition file_data :: "byte list \<Rightarrow> nat list \<Rightarrow> byte list" where
  "file_data d bs = concat (map (\<lambda>b. block_data (dblock d b)) bs)"

lemma slice_concat:
  "(\<And>xs. xs \<in> set xss \<Longrightarrow> length xs = n) \<Longrightarrow> k < length xss \<Longrightarrow> slice (n * k) n (concat xss) = xss ! k"
proof (induction xss arbitrary: k)
  case (Cons xs xss)
  then have l: "length xs = n" by simp
  show ?case
  proof (cases k)
    case 0
    then show ?thesis using l by (simp add: slice_def)
  next
    case (Suc j)
    then have "slice (n * k) n (concat (xs # xss)) = slice (n * j) n (concat xss)" using l by (simp add: slice_def)
    with Suc Cons show ?thesis by simp
  qed
qed simp

lemma length_file_data: "file_blocks N d bs \<Longrightarrow> length (file_data d bs) = MAX_DATA_IN_BLOCK * length bs"
proof -
  assume fb: "file_blocks N d bs"
  then have "length (block_data (dblock d b)) = MAX_DATA_IN_BLOCK" if "b \<in> set bs" for b
    using that by (auto simp: block_data_def file_blocks_def cs_consts)
  then show ?thesis unfolding file_data_def by (induction bs) auto
qed

lemma slice_file_data:
  assumes fb: "file_blocks N d bs" and k: "k < length bs" and n: "a + n \<le> MAX_DATA_IN_BLOCK"
  shows "slice (MAX_DATA_IN_BLOCK * k + a) n (file_data d bs) = slice a n (dblock d (bs ! k))"
proof -
  have "slice (MAX_DATA_IN_BLOCK * k) MAX_DATA_IN_BLOCK (file_data d bs) = block_data (dblock d (bs ! k))"
    unfolding file_data_def
  proof (subst slice_concat)
    show "length xs = MAX_DATA_IN_BLOCK" if "xs \<in> set (map (\<lambda>b. block_data (dblock d b)) bs)" for xs
      using that fb by (auto simp: block_data_def file_blocks_def cs_consts)
  qed (use k in auto)
  then have "slice a n (slice (MAX_DATA_IN_BLOCK * k) MAX_DATA_IN_BLOCK (file_data d bs)) = slice a n (block_data (dblock d (bs ! k)))"
    by simp
  moreover have "n \<le> MAX_DATA_IN_BLOCK - a" using n by simp
  ultimately show ?thesis by (simp add: slice_def block_data_def drop_take min_def add.commute)
qed

lemma file_block_facts:
  assumes "file_blocks N d bs" and "k < length bs"
  shows "open_block d (int (bs ! k)) = Ok (dblock d (bs ! k))" and "0 < bs ! k"
    and "Suc k < length bs \<Longrightarrow> block_next (dblock d (bs ! k)) = int (bs ! Suc k)"
    and "Suc k < length bs \<Longrightarrow> open_block d (block_next (dblock d (bs ! k))) = Ok (dblock d (bs ! Suc k))"
    and "Suc k < length bs \<Longrightarrow> block_next (dblock d (bs ! k)) \<noteq> 0"
proof -
  have *: "open_block d (int (bs ! j)) = Ok (dblock d (bs ! j)) \<and> 0 < bs ! j" if "j < length bs" for j
    using assms(1) that open_block_eq by (auto simp: file_blocks_def)
  then show "open_block d (int (bs ! k)) = Ok (dblock d (bs ! k))" "0 < bs ! k" using assms(2) by auto
  show nx: "Suc k < length bs \<Longrightarrow> block_next (dblock d (bs ! k)) = int (bs ! Suc k)" using assms(1) by (auto simp: file_blocks_def)
  then show "Suc k < length bs \<Longrightarrow> open_block d (block_next (dblock d (bs ! k))) = Ok (dblock d (bs ! Suc k))"
    "Suc k < length bs \<Longrightarrow> block_next (dblock d (bs ! k)) \<noteq> 0" using * by fastforce+
qed

text \<open>The number of blocks that the seek loops skip.\<close>

definition seek_block :: "nat \<Rightarrow> nat" where
  "seek_block off = (off - 1) div MAX_DATA_IN_BLOCK"

lemma seek_block_bounds:
  "MAX_DATA_IN_BLOCK * seek_block off \<le> off" "off - MAX_DATA_IN_BLOCK * seek_block off \<le> MAX_DATA_IN_BLOCK"
  "k \<le> seek_block off \<Longrightarrow> MAX_DATA_IN_BLOCK * Suc k < off \<longleftrightarrow> k < seek_block off"
proof -
  let ?n = "MAX_DATA_IN_BLOCK"
  have n: "0 < ?n" by (simp add: cs_consts)
  have m: "?n * seek_block off \<le> off - 1" "off - 1 < ?n * seek_block off + ?n"
    using n div_times_less_eq_dividend [of "off - 1" ?n] dividend_less_div_times [OF n, of "off - 1"]
    by (auto simp: seek_block_def mult.commute)
  then show "?n * seek_block off \<le> off" "off - ?n * seek_block off \<le> ?n" by linarith+
  assume k: "k \<le> seek_block off"
  show "?n * Suc k < off \<longleftrightarrow> k < seek_block off"
  proof
    assume "k < seek_block off"
    then have "?n * Suc k \<le> ?n * seek_block off" by (intro mult_le_mono2) simp
    moreover have "off \<noteq> 0" using \<open>k < seek_block off\<close> by (cases off) (auto simp: seek_block_def)
    ultimately show "?n * Suc k < off" using m(1) by linarith
  next
    assume a: "?n * Suc k < off"
    show "k < seek_block off"
    proof (rule ccontr)
      assume "\<not> k < seek_block off"
      then have "k = seek_block off" using k by simp
      then show False using a m(2) by simp
    qed
  qed
qed

lemma unat_u64: "n < 2 ^ 64 \<Longrightarrow> unat (word_of_nat n :: ulong) = n"
  by (simp add: unat_of_nat take_bit_nat_eq_self)

lemma MAX_DATA_val: "MAX_DATA_IN_BLOCK = 504"
  by (simp add: cs_consts)






text \<open>A file: its place in its directory, its size and its blocks.\<close>

definition cs_file :: "nat \<Rightarrow> byte list \<Rightarrow> dirs \<Rightarrow> files list \<Rightarrow> byte list list \<Rightarrow> nat \<Rightarrow> nat list \<Rightarrow> bool" where
  "cs_file N d ds fs toks fsize bs \<longleftrightarrow> length toks = 3 \<and> file_blocks N d bs \<and> fsize \<le> MAX_DATA_IN_BLOCK * length bs \<and> fsize < 2 ^ 63 \<and>
     (let i = index_of (toks ! 0) (map fst ds); j = index_of (toks ! 1, toks ! 2) (map fst (fs ! i)) in
      i < length ds \<and> j < length (fs ! i) \<and> snd (fs ! i ! j) = (word_of_nat fsize, hd bs))"

lemma locate_file:
  assumes cd: "cs_disk N d ds fs" and cf: "cs_file N d ds fs toks fsize bs" and z: "\<And>t. t \<in> set toks \<Longrightarrow> 0 \<notin> set t"
  shows "\<exists>i j. i < length ds \<and> j < length (fs ! i) \<and> i = index_of (toks ! 0) (map fst ds) \<and>
    j = index_of (toks ! 1, toks ! 2) (map fst (fs ! i)) \<and>
    locate toks d = Ok (Found (int (snd (ds ! i)), dblock d (snd (ds ! i)), j)) \<and>
    get_ulong (fsize_off j) (dblock d (snd (ds ! i))) = word_of_nat fsize \<and>
    get_long (fstart_off j) (dblock d (snd (ds ! i))) = int (hd bs)"
proof -
  note D = cs_disk_D [OF cd]
  let ?i = "index_of (toks ! 0) (map fst ds)" let ?j = "index_of (toks ! 1, toks ! 2) (map fst (fs ! ?i))"
  have c: "length toks = 3" "?i < length ds" "?j < length (fs ! ?i)" "snd (fs ! ?i ! ?j) = (word_of_nat fsize, hd bs)"
    using cf by (auto simp: cs_file_def Let_def)
  have zz: "0 \<notin> set (toks ! 0)" "0 \<notin> set (toks ! 1)" "0 \<notin> set (toks ! 2)" using z c(1) by simp_all
  note sub = open_subdir [OF cd c(2)]
  have w: "get_ulong (fsize_off ?j) (dblock d (snd (ds ! ?i))) = word_of_nat fsize"
    "get_long (fstart_off ?j) (dblock d (snd (ds ! ?i))) = int (hd bs)" "?j < MAX_FILES_IN_DIR"
    using D(5) [OF c(2)] c(3,4) by (auto simp: dir_wf_def)
  have "find_dir (dblock d 0) (Some (toks ! 0)) 0 (length ds) = Ok ?i"
    using find_dir_eq [OF D(3) zz(1)] by (simp add: root_count [OF cd])
  moreover have "find_file (dblock d (snd (ds ! ?i))) (toks ! 1) (Some (toks ! 2)) 0 (length (fs ! ?i)) = Ok ?j"
    using find_file_eq [OF D(5) [OF c(2)] zz(2,3)] sub(3) by simp
  ultimately have "locate toks d = Ok (Found (int (snd (ds ! ?i)), dblock d (snd (ds ! ?i)), ?j))"
    using sub c w(3) by (simp add: locate_def open_root [OF cd] root_count [OF cd])
  then show ?thesis using c w by blast
qed


section \<open>Writing a file\<close>

lemma write_seek_ok:
  assumes fb: "file_blocks N d bs" and off: "unat offset < 2 ^ 63" and j: "seek_block (unat offset) < length bs"
  shows "k \<le> seek_block (unat offset) \<Longrightarrow>
    write_seek d offset (int (bs ! k)) (dblock d (bs ! k)) (word_of_nat (unat offset - 504 * k)) (word_of_nat (504 * Suc k)) =
      Some (Ok (int (bs ! seek_block (unat offset)), dblock d (bs ! seek_block (unat offset)),
        word_of_nat (unat offset - 504 * seek_block (unat offset))))"
proof (induction "seek_block (unat offset) - k" arbitrary: k)
  case (Suc m)
  let ?o = "unat offset"
  have k: "k < seek_block ?o" using Suc by simp
  then have lt: "504 * Suc k < ?o" using seek_block_bounds(3) [of k ?o] by (simp add: MAX_DATA_val)
  then have gt: "word_of_nat (504 * Suc k) < offset" unfolding word_less_nat_alt using off by (subst unat_u64) auto
  have sk: "Suc k < length bs" using k j by simp
  have "word_of_nat (?o - 504 * k) - word_of_nat MAX_DATA_IN_BLOCK = (word_of_nat (?o - 504 * Suc k) :: ulong)"
    using lt by (simp add: MAX_DATA_val of_nat_diff)
  moreover have "word_of_nat (504 * Suc k) + word_of_nat MAX_DATA_IN_BLOCK = (word_of_nat (504 * Suc (Suc k)) :: ulong)"
    by (simp add: MAX_DATA_val)
  moreover have "m = seek_block ?o - Suc k" "Suc k \<le> seek_block ?o" using Suc.hyps(2) k by simp_all
  note IH = Suc.hyps(1) [OF this]
  ultimately show ?case
    using gt file_block_facts(3,4,5) [OF fb _ sk] sk IH by (subst write_seek.simps) simp
next
  case 0
  then have k: "k = seek_block (unat offset)" by simp
  have "\<not> 504 * Suc k < unat offset" using seek_block_bounds(3) [of k "unat offset"] k by (simp add: MAX_DATA_val)
  moreover have "504 * seek_block (unat offset) \<le> unat offset" using seek_block_bounds(1) [of "unat offset"] by (simp add: MAX_DATA_val)
  ultimately have "\<not> word_of_nat (504 * Suc k) < offset"
    unfolding word_less_nat_alt using off k by (subst unat_u64) auto
  then show ?case using k by (subst write_seek.simps) simp
qed

lemma write_loop_last:
  assumes "buf \<noteq> []" "adj + length buf \<le> 504"
  shows "write_loop d hint adj bi block buf = kbind (write_block d bi (splice adj buf block)) (\<lambda>d. Ok (d, hint))"
  using assms by (subst write_loop.simps) (simp add: copy_in_def MAX_DATA_val)

lemma block_next_splice: "adj + length buf \<le> 504 \<Longrightarrow> length block = 512 \<Longrightarrow> block_next (splice adj buf block) = block_next block"
  by (simp add: block_next_def get_long_def MAX_DATA_val slice_splice_after)

lemma file_data_write:
  assumes fb: "file_blocks N d bs" and k: "k < length bs" and n: "adj + length buf \<le> 504" and dist: "distinct bs"
    and d': "\<And>b. b \<in> set bs \<Longrightarrow> dblock d' b = (if b = bs ! k then splice adj buf (dblock d b) else dblock d b)" "disk_wf N d'"
  shows "file_blocks N d' bs" and "file_data d' bs = splice (504 * k + adj) buf (file_data d bs)"
proof -
  have len: "length (dblock d b) = 512" if "b \<in> set bs" for b
    using fb that length_dblock [of N d b] by (simp add: file_blocks_def BLOCK_SIZE_def)
  have nx: "block_next (dblock d' b) = block_next (dblock d b)" if "b \<in> set bs" for b
    using d'(1) [OF that] block_next_splice [OF n len [OF that]] by (cases "b = bs ! k") simp_all
  show fb': "file_blocks N d' bs" using fb d'(2) nx by (auto simp: file_blocks_def)
  show "file_data d' bs = splice (504 * k + adj) buf (file_data d bs)"
  proof (rule nth_equalityI)
    have l: "length (file_data d' bs) = 504 * length bs" "length (file_data d bs) = 504 * length bs"
      using length_file_data [OF fb'] length_file_data [OF fb] by (simp_all add: MAX_DATA_val)
    have "504 * Suc k \<le> 504 * length bs" using k by (intro mult_le_mono2) simp
    then have fit: "504 * k + adj + length buf \<le> length (file_data d bs)" using l n by simp
    then show "length (file_data d' bs) = length (splice (504 * k + adj) buf (file_data d bs))" using l by simp
    fix i assume i: "i < length (file_data d' bs)"
    define q where "q = i div 504" define r where "r = i mod 504"
    have qr: "i = 504 * q + r" "r < 504" "q < length bs" using i l by (auto simp: q_def r_def less_mult_imp_div_less mult.commute)
    have get: "file_data e bs ! i = dblock e (bs ! q) ! r" if "file_blocks N e bs" for e
    proof -
      have le: "length (file_data e bs) = 504 * length bs" using length_file_data [OF that] by (simp add: MAX_DATA_val)
      have "length (dblock e (bs ! q)) = 512" using that qr(3) length_dblock [of N e] by (simp add: file_blocks_def BLOCK_SIZE_def)
      moreover have "slice (504 * q + r) 1 (file_data e bs) = slice r 1 (dblock e (bs ! q))"
        using slice_file_data [OF that qr(3), of r 1] qr(2) by (simp add: MAX_DATA_val)
      then have "slice i 1 (file_data e bs) ! 0 = slice r 1 (dblock e (bs ! q)) ! 0" using qr(1) by simp
      ultimately show ?thesis using i l le qr by (simp add: slice_def)
    qed
    have bq: "bs ! q \<in> set bs" "bs ! q = bs ! k \<longleftrightarrow> q = k" using qr(3) k dist by (auto simp: nth_eq_iff_index_eq)
    have "504 * k + adj \<le> i \<and> i < 504 * k + adj + length buf \<longleftrightarrow> q = k \<and> adj \<le> r \<and> r < adj + length buf"
    proof (cases "q = k")
      case False
      then have "504 * q + 504 \<le> 504 * k \<or> 504 * k + 504 \<le> 504 * q" by (metis Suc_leI mult_Suc_right mult_le_mono2 nat_neq_iff add.commute)
      then show ?thesis using qr n False by linarith
    qed (use qr in auto)
    moreover have "dblock d' (bs ! q) ! r = (if q = k \<and> adj \<le> r \<and> r < adj + length buf then buf ! (r - adj) else dblock d (bs ! q) ! r)"
      using d'(1) [OF bq(1)] bq(2) len [OF bq(1)] n qr(2) by (auto simp: nth_splice)
    ultimately show "file_data d' bs ! i = splice (504 * k + adj) buf (file_data d bs) ! i"
      using get [OF fb'] get [OF fb] fit i l qr(1) by (auto simp: nth_splice)
  qed
qed

text \<open>The state of the disk that a write inside a block leaves.\<close>

definition resize_file :: "nat \<Rightarrow> nat \<Rightarrow> ulong \<Rightarrow> files list \<Rightarrow> files list" where
  "resize_file i j w fs = fs[i := (fs ! i)[j := (fst (fs ! i ! j), (w, snd (snd (fs ! i ! j))))]]"

lemma used_blocks_resize: "i < length fs \<Longrightarrow> j < length (fs ! i) \<Longrightarrow> used_blocks ds (resize_file i j w fs) = used_blocks ds fs"
proof -
  assume i: "i < length fs" and j: "j < length (fs ! i)"
  have "map (\<lambda>f. snd (snd f)) ((fs ! i)[j := (fst (fs ! i ! j), (w, snd (snd (fs ! i ! j))))]) = map (\<lambda>f. snd (snd f)) (fs ! i)"
    using j by (simp add: map_update list_update_same_conv)
  then have "map (map (\<lambda>f. snd (snd f))) (resize_file i j w fs) = map (map (\<lambda>f. snd (snd f))) fs"
    using i by (simp add: resize_file_def map_update list_update_same_conv)
  then show ?thesis by (simp add: used_blocks_def)
qed

lemma cs_disk_write:
  assumes cd: "cs_disk N d ds fs" and i: "i < length ds" and j: "j < length (fs ! i)"
    and b: "0 < b" "b < N - 3" "\<not> block_free d b" "b \<notin> snd ` set ds" and blk: "length blk = BLOCK_SIZE"
  shows "\<exists>d1 d2. write_block d (int b) blk = Ok d1 \<and>
    write_block d1 (int (snd (ds ! i))) (put_ulong (fsize_off j) w (dblock d (snd (ds ! i)))) = Ok d2 \<and>
    cs_disk N d2 ds (resize_file i j w fs) \<and>
    (\<forall>c < N. c \<noteq> snd (ds ! i) \<longrightarrow> dblock d2 c = (if c = b then blk else dblock d c))"
proof -
  note D = cs_disk_D [OF cd]
  let ?w = "snd (ds ! i)" let ?dir = "put_ulong (fsize_off j) w (dblock d ?w)"
  have w: "0 < ?w" "?w < N - 3" using D(10) [OF i] by auto
  then have bN: "b < N" "?w < N" using b(2) by linarith+
  have wf': "dir_wf ?dir ((fs ! i)[j := (fst (fs ! i ! j), (w, snd (snd (fs ! i ! j))))])" by (rule dir_wf_resize [OF D(5) [OF i] j])
  then have len: "length ?dir = BLOCK_SIZE" by (simp add: dir_wf_def)
  let ?d1 = "splice (BLOCK_SIZE * b) blk d" let ?d2 = "splice (BLOCK_SIZE * ?w) ?dir ?d1"
  have wf1: "disk_wf N ?d1" by (rule disk_wf_write [OF D(1) bN(1) blk])
  have wf2: "disk_wf N ?d2" by (rule disk_wf_write [OF wf1 bN(2) len])
  have blocks: "dblock ?d2 c = (if c = ?w then ?dir else if c = b then blk else dblock d c)" if "c < N" for c
    using dblock_write [OF wf1 bN(2) that len] dblock_write [OF D(1) bN(1) that blk] by simp
  have free: "block_free ?d2 c = block_free d c" for c
    using block_free_write [OF wf1 w(2) len] block_free_write [OF D(1) b(2) blk] by simp
  have bw: "b \<noteq> ?w" using b(4) i by auto
  have ne: "snd (ds ! c) \<noteq> b" if "c < length ds" for c using b(4) that by auto
  have dist: "snd (ds ! c) = ?w \<longleftrightarrow> c = i" if "c < length ds" for c
    using D(6) that i nth_eq_iff_index_eq [of "map snd ds" c i] by (simp add: used_blocks_def)
  have N3: "c < N - 3 \<Longrightarrow> c < N" for c by simp
  have wu: "?w \<in> set (used_blocks ds fs)" using i by (simp add: used_blocks_def)
  have ub: "used_blocks ds (resize_file i j w fs) = used_blocks ds fs" using used_blocks_resize i j D(4) by simp
  have "cs_disk N ?d2 ds (resize_file i j w fs)"
    unfolding cs_disk_def ub
  proof (intro conjI)
    show "disk_wf N ?d2" "N - 3 \<le> bitmap_blocks" "length (resize_file i j w fs) = length ds"
      using wf2 D(2,4) by (simp_all add: resize_file_def)
    show "root_wf (dblock ?d2 0) ds" using blocks [of 0] D(3,9) w b(1) by simp
    show "\<forall>c < length ds. dir_wf (dblock ?d2 (snd (ds ! c))) (resize_file i j w fs ! c)"
    proof (intro allI impI)
      fix c assume c: "c < length ds"
      have "snd (ds ! c) < N" using D(10) [OF c] N3 by blast
      then show "dir_wf (dblock ?d2 (snd (ds ! c))) (resize_file i j w fs ! c)"
        using blocks ne [OF c] D(5) [OF c] wf' dist [OF c] D(4) i by (cases "c = i") (auto simp: resize_file_def)
    qed
    show "distinct (used_blocks ds fs)" by (rule D(6))
    show "\<forall>c \<in> set (used_blocks ds fs). 0 < c \<and> c < N - 3 \<and> \<not> block_free ?d2 c" using D(7) free by auto
    show "\<forall>c. 0 < c \<and> c < N - 3 \<and> block_free ?d2 c \<longrightarrow> dblock ?d2 c = zero_block"
    proof (intro allI impI)
      fix c assume c: "0 < c \<and> c < N - 3 \<and> block_free ?d2 c"
      then have "c \<noteq> b" "c \<noteq> ?w" using b(3) free D(7) [OF wu] by auto
      then show "dblock ?d2 c = zero_block" using blocks [of c] N3 c D(8) free by auto
    qed
  qed
  then show ?thesis
    using write_block_eq [OF D(1) bN(1) blk] write_block_eq [OF wf1 bN(2) len] blocks
    by (intro exI [of _ ?d1] exI [of _ ?d2]) auto
qed

lemma write_in_block:
  assumes inv: "cs_inv N s ds fs" and p: "0 \<notin> set path" "scan_path path = Ok toks"
    and cf: "cs_file N (the (image s)) ds fs toks fsize bs"
    and blocks: "distinct bs" "set bs \<inter> snd ` set ds = {}" "\<And>b. b \<in> set bs \<Longrightarrow> b < N - 3 \<and> \<not> block_free (the (image s)) b"
    and buf: "buf \<noteq> []" "unat offset \<le> fsize" "length buf < 2 ^ 31"
    and fits: "unat offset - 504 * seek_block (unat offset) + length buf \<le> 504"
  shows "\<exists>s' fs'. cs1550_write path buf offset s = Ok (int (length buf), s') \<and> cs_inv N s' ds fs' \<and>
    cs_file N (the (image s')) ds fs' toks (unat offset + length buf) bs \<and>
    file_data (the (image s')) bs = splice (unat offset) buf (file_data (the (image s)) bs)"
proof -
  obtain d where d: "image s = Some d" "cs_disk N d ds fs" using inv by (rule cs_inv_D)
  note T = scan_path_tokens [OF p(2,1)] and D = cs_disk_D [OF d(2)]
  let ?o = "unat offset" let ?k = "seek_block ?o" let ?b = "bs ! ?k" let ?w = "offset + word_of_nat (length buf)"
  have c: "length toks = 3" "file_blocks N d bs" "fsize \<le> 504 * length bs" "fsize < 2 ^ 63" using cf d(1) by (auto simp: cs_file_def MAX_DATA_val)
  have cfd: "cs_file N d ds fs toks fsize bs" using cf d(1) by simp
  from locate_file [OF d(2) cfd T(2)] obtain i j where ij: "i < length ds" "j < length (fs ! i)" "i = index_of (toks ! 0) (map fst ds)"
      "j = index_of (toks ! 1, toks ! 2) (map fst (fs ! i))"
      "locate toks d = Ok (Found (int (snd (ds ! i)), dblock d (snd (ds ! i)), j))"
      "get_ulong (fsize_off j) (dblock d (snd (ds ! i))) = word_of_nat fsize"
      "get_long (fstart_off j) (dblock d (snd (ds ! i))) = int (hd bs)"
    by blast
  have bs: "0 < length bs" "hd bs = bs ! 0" using c(2) by (auto simp: file_blocks_def hd_conv_nth)
  have sb: "504 * ?k \<le> ?o" using seek_block_bounds(1) [of ?o] by (simp add: MAX_DATA_val)
  have kl: "?k < length bs"
  proof (cases "?o = 0")
    case False
    have "504 * ?k \<le> ?o - 1" using div_times_less_eq_dividend [of "?o - 1" 504] by (simp add: seek_block_def MAX_DATA_val mult.commute)
    then have "504 * ?k < 504 * length bs" using False buf(2) c(3) by linarith
    then show ?thesis by simp
  qed (use bs in \<open>simp add: seek_block_def\<close>)
  have off63: "?o < 2 ^ 63" using buf(2) c(4) by simp
  have sk: "write_seek d offset (int (bs ! 0)) (dblock d (bs ! 0)) offset (word_of_nat MAX_DATA_IN_BLOCK) =
      Some (Ok (int ?b, dblock d ?b, word_of_nat (?o - 504 * ?k)))"
    using write_seek_ok [OF c(2) off63 kl, of 0] by (simp add: MAX_DATA_val)
  have ua: "unat (word_of_nat (?o - 504 * ?k) :: ulong) = ?o - 504 * ?k" using off63 by (intro unat_u64) simp
  have nb: "\<not> word_of_nat MAX_DATA_IN_BLOCK < (word_of_nat (?o - 504 * ?k) + word_of_nat (length buf) :: ulong)"
  proof -
    have "unat (word_of_nat (?o - 504 * ?k + length buf) :: ulong) = ?o - 504 * ?k + length buf"
      using fits by (intro unat_u64) simp
    then show ?thesis using fits unfolding word_less_nat_alt of_nat_add [symmetric] by (simp add: MAX_DATA_val unat_u64)
  qed
  have nfb: "\<not> word_of_nat fsize < offset" using buf(2) c(4) by (simp add: word_less_nat_alt unat_u64)
  have bf: "0 < ?b" "?b < N - 3" "\<not> block_free d ?b" "?b \<notin> snd ` set ds"
    using file_block_facts(2) [OF c(2) kl] blocks(2,3) kl d(1) by (auto dest: nth_mem)
  have lenb: "length (dblock d ?b) = 512" using D(1) bf(2) length_dblock [of N d ?b] by (simp add: BLOCK_SIZE_def)
  let ?blk = "splice (?o - 504 * ?k) buf (dblock d ?b)"
  have blk: "length ?blk = BLOCK_SIZE" using lenb fits by (simp add: BLOCK_SIZE_def)
  obtain d1 d2 where d2: "write_block d (int ?b) ?blk = Ok d1"
      "write_block d1 (int (snd (ds ! i))) (put_ulong (fsize_off j) ?w (dblock d (snd (ds ! i)))) = Ok d2"
      "cs_disk N d2 ds (resize_file i j ?w fs)"
      "\<And>c. c < N \<Longrightarrow> c \<noteq> snd (ds ! i) \<Longrightarrow> dblock d2 c = (if c = ?b then ?blk else dblock d c)"
    using cs_disk_write [OF d(2) ij(1,2) bf blk, of ?w] by blast
  have wl: "write_loop d (next_free_block_index s) (?o - 504 * ?k) (int ?b) (dblock d ?b) buf = Ok (d1, next_free_block_index s)"
    using write_loop_last [OF buf(1) fits] d2(1) by simp
  let ?s = "s\<lparr>image := Some d2, next_free_block_index := next_free_block_index s\<rparr>"
  have ret: "sint (word_of_nat (length buf) :: 32 word) = int (length buf)"
    using buf(3) by (simp add: signed_of_nat signed_take_bit_int_eq_self)
  have run: "cs1550_write path buf offset s = Ok (int (length buf), ?s)"
    using p(2) buf(1) c(1) d(1) ij(5-7) nfb file_block_facts(1) [OF c(2) bs(1)] bs(2) sk nb wl d2(2) ret ua
    by (simp add: cs1550_write_def open_disk_def Let_def)
  have inb: "b < N \<and> b \<noteq> snd (ds ! i)" if "b \<in> set bs" for b
    using that blocks(2) c(2) ij(1) by (auto simp: file_blocks_def)
  have "dblock d2 b = (if b = ?b then splice (?o - 504 * ?k) buf (dblock d b) else dblock d b)" if "b \<in> set bs" for b
    using d2(4) inb [OF that] by auto
  from file_data_write [OF c(2) kl fits blocks(1) this cs_disk_D(1) [OF d2(3)]]
  have fd: "file_blocks N d2 bs" "file_data d2 bs = splice ?o buf (file_data d bs)" using sb by simp_all
  have uw: "?w = word_of_nat (?o + length buf)" by simp
  have "?o + length buf \<le> 504 * Suc ?k" using fits sb by simp
  moreover have "504 * Suc ?k \<le> 504 * length bs" using kl by (intro mult_le_mono2) simp
  ultimately have le: "?o + length buf \<le> MAX_DATA_IN_BLOCK * length bs" by (simp add: MAX_DATA_val)
  have big: "?o + length buf < 2 ^ 63"
  proof -
    have "504 * length bs \<le> 504 * N"
    proof (rule mult_le_mono2)
      have "set bs \<subseteq> {..<N}" using c(2) by (auto simp: file_blocks_def)
      from card_mono [OF _ this] show "length bs \<le> N" using distinct_card [OF blocks(1)] by simp
    qed
    moreover have "N \<le> 12291" using D(2) by (simp add: bitmap_blocks_val)
    ultimately show ?thesis using le by (simp add: MAX_DATA_val)
  qed
  have cf': "snd (fs ! i ! j) = (word_of_nat fsize, hd bs)" using cf d(1) ij(3,4) by (auto simp: cs_file_def Let_def)
  have keys: "map fst (resize_file i j ?w fs ! i) = map fst (fs ! i)"
    using ij(1,2) D(4) by (simp add: resize_file_def map_update list_update_same_conv)
  have "cs_file N d2 ds (resize_file i j ?w fs) toks (?o + length buf) bs"
    unfolding cs_file_def Let_def ij(3) [symmetric] keys ij(4) [symmetric]
    using c(1) fd(1) le big ij(1,2) D(4) cf' uw by (simp add: resize_file_def)
  moreover have "cs_inv N ?s ds (resize_file i j ?w fs)" using d2(3) inv by (simp add: cs_inv_def)
  ultimately show ?thesis using run fd(2) d(1) by (intro exI [of _ ?s] exI [of _ "resize_file i j ?w fs"]) simp
qed

section \<open>Writes of several blocks\<close>

lemma find_next_eq:
  assumes "disk_wf N d" "b < N - 3" "N - 3 \<le> bitmap_blocks" "0 \<le> h" "h \<le> int b" "block_free d b" "\<And>j. h \<le> int j \<Longrightarrow> j < b \<Longrightarrow> \<not> block_free d j"
  shows "find_next_free_block_index d h = Ok (int b, int b)"
proof -
  have "find_free_from d (nat h) = Some b"
    unfolding find_free_from_spec using assms by (auto simp: TOTAL_BLOCKS_val bitmap_blocks_val nat_le_iff)
  then show ?thesis using assms(1,4) by (simp add: find_next_free_block_index_def disk_wf_def BLOCK_SIZE_def BITMAP_SIZE_IN_BLOCKS_def)
qed

lemma length_put_next [simp]: "length b = 512 \<Longrightarrow> length (put_long MAX_DATA_IN_BLOCK v b) = 512"
  by (simp add: MAX_DATA_val)

lemma block_next_put: "length b = 512 \<Longrightarrow> block_next (put_long MAX_DATA_IN_BLOCK (int n) b) = int n" if "n < 2 ^ 63"
  unfolding block_next_def using that by (intro get_put_long) (auto simp: MAX_DATA_val)

text \<open>One round of the loop: fill the block, link it to the next free one, go on there.\<close>

lemma write_loop_round:
  assumes wf: "disk_wf N d" and bi: "bi < N" and nb: "nb < N" and len: "length block = 512" "504 < length buf"
    and fn: "find_next_free_block_index d h = Ok (int nb, h')"
  shows "write_loop d h 0 (int bi) block buf =
    (let d' = splice (BLOCK_SIZE * bi) (put_long MAX_DATA_IN_BLOCK (int nb) (splice 0 (take 504 buf) block)) d in
     write_loop d' h' 0 (int nb) (dblock d' nb) (drop 504 buf))"
proof -
  let ?blk = "put_long MAX_DATA_IN_BLOCK (int nb) (splice 0 (take 504 buf) block)"
  have l: "length (splice 0 (take 504 buf) block) = 512" using len by simp
  then have l': "length ?blk = BLOCK_SIZE" by (simp add: BLOCK_SIZE_def)
  have "disk_wf N (splice (BLOCK_SIZE * bi) ?blk d)" by (rule disk_wf_write [OF wf bi l'])
  then show ?thesis
    using len fn write_block_eq [OF wf bi l'] open_block_eq [OF _ nb]
    by (subst write_loop.simps) (auto simp: copy_in_def MAX_DATA_val Let_def)
qed

text \<open>
  The loop does not mark the block it links to, so on an unmarked block it finds the same
  block again: the block is linked to itself and the chunks overwrite each other.
\<close>

lemma write_loop_self:
  assumes N: "N - 3 \<le> bitmap_blocks" and b: "b < N - 3"
  shows "disk_wf N d \<Longrightarrow> block_free d b \<Longrightarrow>
    \<exists>d'. write_loop d (int b) 0 (int b) (dblock d b) buf = Ok (d', int b) \<and> disk_wf N d' \<and> (\<forall>j. block_free d' j = block_free d j) \<and>
      (\<forall>j < N. j \<noteq> b \<longrightarrow> dblock d' j = dblock d j) \<and> (504 < length buf \<longrightarrow> block_next (dblock d' b) = int b) \<and>
      (length buf \<le> 504 \<longrightarrow> block_next (dblock d' b) = block_next (dblock d b))"
proof (induction "length buf" arbitrary: buf d rule: less_induct)
  case less
  note wf = less.prems(1)
  have bN: "b < N" using b by simp
  have len: "length (dblock d b) = 512" using length_dblock [OF wf bN] by (simp add: BLOCK_SIZE_def)
  consider "buf = []" | "buf \<noteq> []" "length buf \<le> 504" | "504 < length buf" by linarith
  then show ?case
  proof cases
    case 1
    then show ?thesis using wf by (intro exI [of _ d]) (subst write_loop.simps, simp)
  next
    case 2
    let ?blk = "splice 0 buf (dblock d b)" let ?d = "splice (BLOCK_SIZE * b) ?blk d"
    have l: "length ?blk = BLOCK_SIZE" using len 2 by (simp add: BLOCK_SIZE_def)
    have "write_loop d (int b) 0 (int b) (dblock d b) buf = Ok (?d, int b)"
      using write_loop_last [OF 2(1), of 0] 2 write_block_eq [OF wf bN l] by simp
    then show ?thesis
      using 2 disk_wf_write [OF wf bN l] block_free_write [OF wf b l] dblock_write [OF wf bN _ l] bN block_next_splice [of 0 buf "dblock d b"] len
      by (intro exI [of _ ?d]) simp
  next
    case 3
    let ?blk = "put_long MAX_DATA_IN_BLOCK (int b) (splice 0 (take 504 buf) (dblock d b))" let ?d = "splice (BLOCK_SIZE * b) ?blk d"
    have fn: "find_next_free_block_index d (int b) = Ok (int b, int b)"
      by (rule find_next_eq [OF wf b N]) (use less.prems(2) in auto)
    have l: "length ?blk = BLOCK_SIZE" using len by (simp add: BLOCK_SIZE_def)
    have nx: "block_next ?blk = int b" using b N len by (intro block_next_put) (auto simp: bitmap_blocks_val)
    note wf' = disk_wf_write [OF wf bN l] and fr = block_free_write [OF wf b l] and db = dblock_write [OF wf bN _ l]
    have sh: "length (drop 504 buf) < length buf" using 3 by simp
    have "block_free ?d b" using fr less.prems(2) by simp
    from less.hyps [OF sh wf' this] obtain d' where d': "write_loop ?d (int b) 0 (int b) (dblock ?d b) (drop 504 buf) = Ok (d', int b)"
      "disk_wf N d'" "\<And>j. block_free d' j = block_free d j" "\<And>j. j < N \<Longrightarrow> j \<noteq> b \<Longrightarrow> dblock d' j = dblock d j"
      "block_next (dblock d' b) = int b"
      using fr db bN nx by (auto simp: not_less)
    then show ?thesis using write_loop_round [OF wf bN bN len 3 fn] 3 by (intro exI [of _ d']) (simp add: Let_def)
  qed
qed

lemma write_three_blocks:
  assumes inv: "cs_inv N s ds fs" and p: "0 \<notin> set path" "scan_path path = Ok toks" and d: "image s = Some d"
    and cf: "cs_file N d ds fs toks 0 [b0]" and b0: "b0 < N - 3" "\<not> block_free d b0" "b0 \<notin> snd ` set ds"
    and b1: "next_free_block_index s \<le> int b1" "b1 < b2" "block_free d b1" "\<And>j. next_free_block_index s \<le> int j \<Longrightarrow> j < b1 \<Longrightarrow> \<not> block_free d j"
    and b2: "b2 < N - 3" "block_free d b2" "\<And>j. b1 < j \<Longrightarrow> j < b2 \<Longrightarrow> \<not> block_free d j"
    and buf: "3 * 504 < length buf" "length buf < 2 ^ 31"
  shows "\<exists>s' d'. cs1550_write path buf 0 s = Ok (int (length buf), s') \<and> image s' = Some d' \<and> disk_wf N d' \<and>
    block_next (dblock d' b0) = int b1 \<and> block_next (dblock d' b1) = int b2 \<and> block_next (dblock d' b2) = int b2 \<and>
    block_free d' b2 \<and> next_free_block_index s' = int b2"
proof -
  have cd: "cs_disk N d ds fs" "1 \<le> next_free_block_index s" using inv d by (auto simp: cs_inv_def)
  note T = scan_path_tokens [OF p(2,1)] and D = cs_disk_D [OF cd(1)]
  have c: "length toks = 3" "file_blocks N d [b0]" using cf by (auto simp: cs_file_def)
  from locate_file [OF cd(1) cf T(2)] obtain i j where ij: "i < length ds" "j < length (fs ! i)"
      "locate toks d = Ok (Found (int (snd (ds ! i)), dblock d (snd (ds ! i)), j))"
      "get_ulong (fsize_off j) (dblock d (snd (ds ! i))) = word_of_nat 0" "get_long (fstart_off j) (dblock d (snd (ds ! i))) = int (hd [b0])"
    by blast
  let ?w = "snd (ds ! i)"
  have wu: "?w \<in> set (used_blocks ds fs)" using ij(1) by (simp add: used_blocks_def)
  have w: "0 < ?w" "?w < N - 3" "\<not> block_free d ?w" using D(7) [OF wu] by auto
  have ne: "b0 \<noteq> b1" "b0 \<noteq> b2" "?w \<noteq> b0" "?w \<noteq> b1" "?w \<noteq> b2" "b1 \<noteq> b2" using b0 b1 b2 w ij(1) by auto
  have lt: "b0 < N" "b1 < N" "b2 < N" "?w < N" "b1 < N - 3" using b0 b1 b2 w by linarith+
  have b1b: "b1 < bitmap_blocks" using lt(5) D(2) by simp
  have f1: "find_next_free_block_index d (next_free_block_index s) = Ok (int b1, int b1)"
    using find_next_eq [OF D(1) lt(5) D(2) _ b1(1,3)] b1(4) cd(2) by simp
  obtain d1 where d1: "set_bitmap d (int b1) True = Ok d1" "disk_wf N d1" "\<And>j. block_free d1 j \<longleftrightarrow> (if j = b1 then False else block_free d j)"
      "\<And>j. j < N - 3 \<Longrightarrow> dblock d1 j = dblock d j"
    using set_bitmap_ok [OF D(1) b1b, of True] by auto
  have len: "length (dblock e b) = 512" if "disk_wf N e" "b < N" for e b using length_dblock that by (simp add: BLOCK_SIZE_def)
  let ?blk0 = "splice 0 (take 504 buf) (put_long MAX_DATA_IN_BLOCK (int b1) (dblock d b0))" let ?d2 = "splice (BLOCK_SIZE * b0) ?blk0 d1"
  have l0: "length ?blk0 = BLOCK_SIZE" using len [OF D(1) lt(1)] buf(1) by (simp add: BLOCK_SIZE_def)
  have nx0: "block_next ?blk0 = int b1"
    using block_next_splice [of 0 "take 504 buf"] block_next_put [of b1 "dblock d b0"] len [OF D(1) lt(1)] buf(1) b1b by (simp add: bitmap_blocks_val)
  note wf2 = disk_wf_write [OF d1(2) lt(1) l0] and fr2 = block_free_write [OF d1(2) b0(1) l0] and db2 = dblock_write [OF d1(2) lt(1) _ l0]
  let ?buf1 = "drop 504 buf"
  have f2: "find_next_free_block_index ?d2 (int b1) = Ok (int b2, int b2)"
    using b1(2) b2 fr2 d1(3) by (intro find_next_eq [OF wf2 b2(1) D(2)]) auto
  let ?blk1 = "put_long MAX_DATA_IN_BLOCK (int b2) (splice 0 (take 504 ?buf1) (dblock ?d2 b1))" let ?d3 = "splice (BLOCK_SIZE * b1) ?blk1 ?d2"
  have l1: "length ?blk1 = BLOCK_SIZE" using len [OF wf2 lt(2)] buf(1) by (simp add: BLOCK_SIZE_def)
  have nx1: "block_next ?blk1 = int b2"
    using block_next_put [of b2 "splice 0 (take 504 ?buf1) (dblock ?d2 b1)"] len [OF wf2 lt(2)] buf(1) b2(1) D(2) by (simp add: bitmap_blocks_val)
  note wf3 = disk_wf_write [OF wf2 lt(2) l1] and fr3 = block_free_write [OF wf2 lt(5) l1] and db3 = dblock_write [OF wf2 lt(2) _ l1]
  have "block_free ?d3 b2" using fr3 fr2 d1(3) b2(2) ne by simp
  from write_loop_self [OF D(2) b2(1) wf3 this, of "drop 504 ?buf1"] obtain d4 where
    d4: "write_loop ?d3 (int b2) 0 (int b2) (dblock ?d3 b2) (drop 504 ?buf1) = Ok (d4, int b2)" "disk_wf N d4"
      "\<And>j. block_free d4 j = block_free ?d3 j" "\<And>j. j < N \<Longrightarrow> j \<noteq> b2 \<Longrightarrow> dblock d4 j = dblock ?d3 j" "block_next (dblock d4 b2) = int b2"
    using buf(1) by auto
  have loop: "write_loop ?d2 (int b1) 0 (int b1) (dblock ?d2 b1) ?buf1 = Ok (d4, int b2)"
    using write_loop_round [OF wf2 lt(2,3) len [OF wf2 lt(2)] _ f2, of ?buf1] buf(1) d4(1) by (simp add: Let_def)
  let ?dir = "put_ulong (fsize_off j) (word_of_nat (length buf)) (dblock d ?w)" let ?d5 = "splice (BLOCK_SIZE * ?w) ?dir d4"
  have ld: "length ?dir = BLOCK_SIZE" using dir_wf_resize [OF D(5) [OF ij(1)] ij(2)] by (simp add: dir_wf_def)
  note wf5 = disk_wf_write [OF d4(2) lt(4) ld] and fr5 = block_free_write [OF d4(2) w(2) ld] and db5 = dblock_write [OF d4(2) lt(4) _ ld]
  let ?s = "s\<lparr>image := Some ?d5, next_free_block_index := int b2\<rparr>"
  have sk: "write_seek d 0 (int b0) (dblock d b0) 0 (word_of_nat MAX_DATA_IN_BLOCK) = Some (Ok (int b0, dblock d b0, 0))"
    by (subst write_seek.simps) simp
  have big: "word_of_nat MAX_DATA_IN_BLOCK < (word_of_nat (length buf) :: ulong)" "unat (word_of_nat MAX_DATA_IN_BLOCK :: ulong) = 504"
    using buf by (simp_all add: word_less_nat_alt unat_u64 MAX_DATA_val)
  have ret: "sint (word_of_nat (length buf) :: 32 word) = int (length buf)"
    using buf(2) by (simp add: signed_of_nat signed_take_bit_int_eq_self)
  have ci: "copy_in (put_long MAX_DATA_IN_BLOCK (int b1) (dblock d b0)) 0 (take 504 buf) = Ok ?blk0"
    by (simp add: copy_in_def MAX_DATA_val)
  have "buf \<noteq> []" using buf(1) by auto
  then have run: "cs1550_write path buf 0 s = Ok (int (length buf), ?s)"
    using p(2) c(1) d ij(3-5) sk big f1 d1(1) ci loop ret open_block_eq [OF D(1) lt(1)] write_block_eq [OF d1(2) lt(1) l0] open_block_eq [OF wf2 lt(2)]
      write_block_eq [OF d4(2) lt(4) ld]
    by (simp add: cs1550_write_def open_disk_def Let_def)
  have "block_next (dblock ?d5 b0) = int b1" "block_next (dblock ?d5 b1) = int b2" "block_next (dblock ?d5 b2) = int b2"
    using db5 lt ne d4(4,5) db3 db2 nx0 nx1 by simp_all
  moreover have "block_free ?d5 b2" using fr5 d4(3) fr3 fr2 d1(3) b2(2) ne by simp
  ultimately show ?thesis using run wf5 by (intro exI [of _ ?s] exI [of _ ?d5]) simp
qed

section \<open>A fresh disk\<close>

definition cs_fresh :: "nat \<Rightarrow> csdisk" where
  "cs_fresh N = \<lparr>image = Some (replicate (BLOCK_SIZE * N) 0), next_free_block_index = 1\<rparr>"

lemma dblock_zero: "i < N \<Longrightarrow> dblock (replicate (BLOCK_SIZE * N) 0) i = zero_block"
proof -
  assume "i < N"
  then have "BLOCK_SIZE * i + BLOCK_SIZE \<le> BLOCK_SIZE * N" using mult_le_mono2 [of "Suc i" N BLOCK_SIZE] by simp
  then show ?thesis by (simp add: dblock_def slice_def zero_block_def)
qed

lemma disk_wf_zero: "3 < N \<Longrightarrow> disk_wf N (replicate (BLOCK_SIZE * N) 0)"
  by (simp add: disk_wf_def BITMAP_SIZE_IN_BLOCKS_def)

lemma block_free_zero: assumes "3 < N" shows "block_free (replicate (BLOCK_SIZE * N) 0) i"
proof (cases "i < bitmap_blocks")
  case True
  then have "BLOCK_SIZE * (N - 3) + i div 8 < BLOCK_SIZE * N" using assms by (auto simp: bitmap_blocks_val BLOCK_SIZE_def)
  then show ?thesis by (simp add: block_free_def bitmap_byte_eq [OF disk_wf_zero [OF assms]] True get_ith_bit_def)
next
  case False
  then show ?thesis by (simp add: block_free_def bitmap_byte_eq [OF disk_wf_zero [OF assms]] get_ith_bit_def)
qed

lemma root_wf_zero: "root_wf zero_block []"
  by (simp add: root_wf_def zero_block_def nDirectories_def get_int_def slice_def BLOCK_SIZE_def numeral_eq_Suc)

lemma cs_inv_fresh:
  assumes "3 < N" "N - 3 \<le> bitmap_blocks" shows "cs_inv N (cs_fresh N) [] []"
proof -
  have "dblock (replicate (BLOCK_SIZE * N) 0) b = zero_block" if "b < N - 3" for b using dblock_zero [of b N] that by simp
  moreover have "0 < N - 3" using assms(1) by simp
  ultimately show ?thesis
    using assms(2) disk_wf_zero [OF assms(1)] root_wf_zero by (simp add: cs_inv_def cs_fresh_def cs_disk_def used_blocks_def)
qed

lemma space_fresh: "4 < N \<Longrightarrow> space_left N (cs_fresh N)"
proof -
  assume "4 < N"
  then have "1 < N - 3 \<and> 1 \<le> int 1 \<and> block_free (replicate (BLOCK_SIZE * N) 0) 1" using block_free_zero [of N 1] by simp
  then show ?thesis unfolding space_left_def cs_fresh_def csdisk.simps by blast
qed

text \<open>The paths /d and /d/f.t.\<close>

definition path_d :: "byte list" where "path_d = [47, 100]"
definition path_f :: "byte list" where "path_f = [47, 100, 47, 102, 46, 116]"

lemma scan_demo: "scan_path path_d = Ok [[100]]" "scan_path path_f = Ok [[100], [102], [116]]"
  unfolding path_d_def path_f_def by code_simp+

lemma allocated_D:
  assumes "allocated s b s'"
  shows "next_free_block_index s \<le> int b" "next_free_block_index s' = int b" "block_free (the (image s)) b"
    "next_free_block_index s \<le> int j \<Longrightarrow> j < b \<Longrightarrow> \<not> block_free (the (image s)) j"
    "block_free (the (image s')) j \<longleftrightarrow> block_free (the (image s)) j \<and> j \<noteq> b"
  using assms by (auto simp: allocated_def)

lemma demo_dir:
  "\<exists>s1. cs1550_mkdir path_d (cs_fresh 16) = Ok (0, s1) \<and> cs_inv 16 s1 [([100], 1)] [[]] \<and> next_free_block_index s1 = 1 \<and>
     (\<forall>j. block_free (the (image s1)) j \<longleftrightarrow> j \<noteq> 1)"
proof -
  have inv: "cs_inv 16 (cs_fresh 16) [] []" by (rule cs_inv_fresh) (simp_all add: bitmap_blocks_val)
  have im: "image (cs_fresh 16) = Some (replicate (BLOCK_SIZE * 16) 0)" by (simp add: cs_fresh_def)
  obtain s1 b where s1: "cs1550_mkdir path_d (cs_fresh 16) = Ok (0, s1)" "cs_inv 16 s1 [([100], b)] [[]]" "allocated (cs_fresh 16) b s1"
    using mkdir_success [OF inv im space_fresh _ scan_demo(1)] by (auto simp: cs_consts)
  have fz: "block_free (replicate (BLOCK_SIZE * 16) 0) j" for j by (rule block_free_zero) simp
  note A = allocated_D [OF s1(3)]
  have "\<not> 1 < b" using A(4) [of 1] fz [of 1] by (auto simp: cs_fresh_def)
  then have "b = 1" using A(1) by (simp add: cs_fresh_def)
  with s1 A(2) A(5) fz show ?thesis by (intro exI [of _ s1]) (simp add: cs_fresh_def)
qed

lemma demo_file:
  "\<exists>s1 s2. cs1550_mkdir path_d (cs_fresh 16) = Ok (0, s1) \<and> cs1550_mknod path_f s1 = Ok (0, s2) \<and>
     cs_inv 16 s2 [([100], 1)] [[(([102], [116]), (0, 2))]] \<and> next_free_block_index s2 = 2 \<and>
     (\<forall>j. block_free (the (image s2)) j \<longleftrightarrow> j \<noteq> 1 \<and> j \<noteq> 2)"
proof -
  obtain s1 where s1: "cs1550_mkdir path_d (cs_fresh 16) = Ok (0, s1)" "cs_inv 16 s1 [([100], 1)] [[]]" "next_free_block_index s1 = 1"
      "\<And>j. block_free (the (image s1)) j \<longleftrightarrow> j \<noteq> 1"
    using demo_dir by blast
  obtain d where d: "image s1 = Some d" using s1(2) by (rule cs_inv_D)
  have sp: "space_left 16 s1" unfolding space_left_def using d s1(3,4) by (intro exI [of _ d] conjI exI [of _ 2]) auto
  obtain s2 b where s2: "cs1550_mknod path_f s1 = Ok (0, s2)" "cs_inv 16 s2 [([100], 1)] [[(([102], [116]), (0, b))]]" "allocated s1 b s2"
    using mknod_success [OF s1(2) d sp scan_demo(2) _ refl] by (auto simp: cs_consts index_of_def)
  note A = allocated_D [OF s2(3)]
  have "b \<noteq> 1" using A(3) s1(4) by blast
  moreover have "\<not> 2 < b" using A(4) [of 2] s1(3) s1(4) [of 2] by auto
  ultimately have "b = 2" using A(1) s1(3) by simp
  with s1 s2 A(2) A(5) show ?thesis by (intro exI [of _ s1] exI [of _ s2]) simp
qed

lemma demo_cs_file:
  assumes inv: "cs_inv 16 s [([100], 1)] [[(([102], [116]), (0, 2))]]"
  shows "cs_file 16 (the (image s)) [([100], 1)] [[(([102], [116]), (0, 2))]] [[100], [102], [116]] 0 [2]"
proof -
  obtain d where "image s = Some d" "cs_disk 16 d [([100], 1)] [[(([102], [116]), (0, 2))]]" using inv by (rule cs_inv_D)
  then show ?thesis by (simp add: cs_file_def file_blocks_def cs_disk_def index_of_def)
qed

section \<open>Properties\<close>

lemma demo_space: "\<exists>d. image s = Some d \<Longrightarrow> next_free_block_index s \<le> 5 \<Longrightarrow> block_free (the (image s)) 5 \<Longrightarrow> space_left 16 s"
  unfolding space_left_def by force

text \<open>
  C18: \<open>cs1550_mkdir\<close> refines the creation of a directory in the abstract file system. While
  there is a free block, it reports a path that is not one component, an existing name and a
  full root, changing nothing; otherwise it succeeds, adds exactly that empty directory, and
  keeps the invariant of the disk.
\<close>

theorem cs_mkdir_refines:
  assumes "cs_inv N s ds fs" and "0 \<notin> set path" and "scan_path path = Ok toks" and "space_left N s"
  shows "\<exists>r s' ds' fs'. cs1550_mkdir path s = Ok (r, s') \<and> cs_inv N s' ds' fs' \<and>
    (if length toks \<noteq> 1 then r = - EPERM \<and> s' = s \<and> cs_abs ds' fs' = cs_abs ds fs
     else if cs_abs ds fs (hd toks) \<noteq> None then r = - EEXIST \<and> s' = s \<and> cs_abs ds' fs' = cs_abs ds fs
     else if length ds = MAX_DIRS_IN_ROOT then r = - ENOSPC \<and> s' = s \<and> cs_abs ds' fs' = cs_abs ds fs
     else r = 0 \<and> cs_abs ds' fs' = (cs_abs ds fs)(hd toks \<mapsto> Map.empty))"
  by (rule mkdir_refine [OF assms])

lemma fresh16: "cs_inv 16 (cs_fresh 16) [] []" "space_left 16 (cs_fresh 16)"
  by (rule cs_inv_fresh; simp add: bitmap_blocks_val) (rule space_fresh, simp)

lemma cs_abs_empty [simp]: "cs_abs [] fs nm = None"
  by (simp add: cs_abs_dir)

theorem cs_mkdir_refines_witness:
  "\<exists>s' ds' fs'. cs1550_mkdir path_d (cs_fresh 16) = Ok (0, s') \<and> cs_inv 16 s' ds' fs' \<and> cs_abs ds' fs' [100] = Some Map.empty"
proof -
  have z: "0 \<notin> set path_d" by (simp add: path_d_def)
  from cs_mkdir_refines [OF fresh16(1) z scan_demo(1) fresh16(2)]
  show ?thesis by (force simp: cs_consts)
qed

text \<open>
  C20: \<open>cs1550_mknod\<close> refines the creation of an empty file. A path of fewer than three parts, a missing
  directory and an existing file are reported, and nothing changes. Otherwise, in a directory with fewer than
  \<open>MAX_FILES_IN_DIR\<close> files: if a block of the disk from the search hint on is free (\<open>space_left\<close>) then the
  call succeeds, adds exactly that file, of size 0, and keeps the invariant of the disk; and if the search for
  a free block fails then it reports that there is no space and changes only the hint. The remaining case of a
  disk without a free block, in which the search finds one past the end of the bitmap, is not covered.
\<close>

theorem cs_mknod_refines:
  assumes "cs_inv N s ds fs" and "0 \<notin> set path" and "scan_path path = Ok toks"
  shows "if length toks < 3 then cs1550_mknod path s = Ok (- EPERM, s)
    else case cs_abs ds fs (toks ! 0) of
      None \<Rightarrow> cs1550_mknod path s = Ok (- ENOENT, s)
    | Some m \<Rightarrow>
        if m (toks ! 1, toks ! 2) \<noteq> None then cs1550_mknod path s = Ok (- EEXIST, s)
        else length (fs ! index_of (toks ! 0) (map fst ds)) < MAX_FILES_IN_DIR \<longrightarrow>
          (space_left N s \<longrightarrow> (\<exists>s' fs'. cs1550_mknod path s = Ok (0, s') \<and> cs_inv N s' ds fs' \<and>
             cs_abs ds fs' = (cs_abs ds fs)(toks ! 0 \<mapsto> m((toks ! 1, toks ! 2) \<mapsto> 0)))) \<and>
          (\<forall>b h. find_next_free_block_index (the (image s)) (next_free_block_index s) = Ok (b, h) \<longrightarrow> b < 0 \<longrightarrow>
             cs1550_mknod path s = Ok (- ENOSPC, s\<lparr>next_free_block_index := h\<rparr>))"
  by (rule mknod_refine [OF assms])

lemma cs_abs_demo: "cs_abs [([100], Suc 0)] [[]] [100] = Some Map.empty"
  by (simp add: cs_abs_def index_of_def)

theorem cs_mknod_refines_witness:
  "\<exists>s1 s' fs'. cs1550_mkdir path_d (cs_fresh 16) = Ok (0, s1) \<and> cs1550_mknod path_f s1 = Ok (0, s') \<and>
     cs_inv 16 s' [([100], 1)] fs' \<and> cs_abs [([100], 1)] fs' [100] = Some (Map.empty(([102], [116]) \<mapsto> 0)) \<and>
     cs1550_mknod path_f s' = Ok (- EEXIST, s') \<and> cs1550_mknod path_f (cs_fresh 16) = Ok (- ENOENT, cs_fresh 16) \<and>
     cs1550_mknod path_d s1 = Ok (- EPERM, s1)"
proof -
  obtain s1 where s1: "cs1550_mkdir path_d (cs_fresh 16) = Ok (0, s1)" "cs_inv 16 s1 [([100], 1)] [[]]"
      "next_free_block_index s1 = 1" "\<And>j. block_free (the (image s1)) j \<longleftrightarrow> j \<noteq> 1"
    using demo_dir by blast
  have z: "0 \<notin> set path_f" "0 \<notin> set path_d" by (simp_all add: path_f_def path_d_def)
  have sp: "space_left 16 s1" using s1 by (intro demo_space) (auto simp: cs_inv_def)
  have room: "index_of [100] (map fst [([100 :: byte], 1 :: nat)]) = 0" "0 < MAX_FILES_IN_DIR" by (simp_all add: cs_consts)
  obtain s' fs' where s': "cs1550_mknod path_f s1 = Ok (0, s')" "cs_inv 16 s' [([100], 1)] fs'"
      "cs_abs [([100], 1)] fs' [100] = Some (Map.empty(([102], [116]) \<mapsto> 0))"
    using cs_mknod_refines [OF s1(2) z(1) scan_demo(2)] sp room cs_abs_demo by auto
  have "cs1550_mknod path_f s' = Ok (- EEXIST, s')" using cs_mknod_refines [OF s'(2) z(1) scan_demo(2)] s'(3) by simp
  moreover have "cs1550_mknod path_f (cs_fresh 16) = Ok (- ENOENT, cs_fresh 16)"
    using cs_mknod_refines [OF fresh16(1) z(1) scan_demo(2)] by simp
  moreover have "cs1550_mknod path_d s1 = Ok (- EPERM, s1)" using cs_mknod_refines [OF s1(2) z(2) scan_demo(1)] by simp
  ultimately show ?thesis using s1(1) s' by blast
qed

text \<open>
  C23: \<open>cs1550_getattr\<close> computes the attributes from the abstract file system, for every path that the
  scan accepts: the root and directories, regular files with their size, or no such entry. The exception is
  a path of two parts without an extension, such as /d/f, for a file f with some extension in d: there the
  code compares an array that it never set, which is undefined.
\<close>

theorem cs_getattr_refines:
  assumes "cs_inv N s ds fs" and "0 \<notin> set path" and "scan_path path = Ok toks"
  shows "cs1550_getattr path s =
    (if path = slash then Ok (0, dir_stat)
     else if unextended (cs_abs ds fs) toks then Undefined
     else Ok (abs_getattr (cs_abs ds fs) toks))"
  by (rule getattr_refine [OF assms])

text \<open>The demo file after two bytes are written to it, and the path /d/f.\<close>

definition path_u :: "byte list" where "path_u = [47, 100, 47, 102]"

lemma scan_more: "scan_path path_u = Ok [[100], [102]]" "scan_path slash = Ok []"
  unfolding path_u_def slash_def by code_simp+

lemma demo_written:
  "\<exists>s fs. cs_inv 16 s [([100], 1)] fs \<and> (\<exists>m. cs_abs [([100], 1)] fs [100] = Some m \<and> m ([102], [116]) = Some 2)"
proof -
  obtain s where s: "cs_inv 16 s [([100], 1)] [[(([102], [116]), (0, 2))]]" "\<And>j. block_free (the (image s)) j \<longleftrightarrow> j \<noteq> 1 \<and> j \<noteq> 2"
    using demo_file by blast
  have z: "0 \<notin> set path_f" by (simp add: path_f_def)
  obtain s' fs' where s': "cs_inv 16 s' [([100], 1)] fs'"
      "cs_file 16 (the (image s')) [([100], 1)] fs' [[100], [102], [116]] (Suc (Suc 0)) [2]"
    using write_in_block [OF s(1) z scan_demo(2) demo_cs_file [OF s(1)], of "[104, 105]" 0] s(2) by (auto simp: seek_block_def)
  then have "cs_abs [([100], 1)] fs' [100] = Some (\<lambda>k. map_option fst (map_of (fs' ! 0) k))"
    "map_of (fs' ! 0) ([102], [116]) = Some (2, 2)"
    using map_of_index [of "fs' ! 0" "([102], [116])"] by (auto simp: cs_abs_def cs_file_def Let_def)
  with s'(1) show ?thesis by force
qed

theorem cs_getattr_refines_witness:
  "\<exists>s. cs1550_getattr path_f s = Ok (0, \<lparr>st_mode = 0x81B6, st_nlink = 1, st_size = 2\<rparr>) \<and>
     cs1550_getattr path_d s = Ok (0, dir_stat) \<and> cs1550_getattr slash s = Ok (0, dir_stat) \<and>
     cs1550_getattr path_u s = Undefined \<and> cs1550_getattr path_d (cs_fresh 16) = Ok (- ENOENT, zero_stat)"
proof -
  obtain s fs m where s: "cs_inv 16 s [([100], 1)] fs" "cs_abs [([100], 1)] fs [100] = Some m" "m ([102], [116]) = Some 2"
    using demo_written by blast
  have z: "0 \<notin> set path_f" "0 \<notin> set path_d" "0 \<notin> set slash" "0 \<notin> set path_u" "path_f \<noteq> slash" "path_d \<noteq> slash" "path_u \<noteq> slash"
    by (simp_all add: path_f_def path_d_def path_u_def slash_def)
  have "cs1550_getattr path_f s = Ok (0, \<lparr>st_mode = 0x81B6, st_nlink = 1, st_size = 2\<rparr>)"
    using cs_getattr_refines [OF s(1) z(1) scan_demo(2)] z s(2,3) by (simp add: abs_getattr_def unextended_def)
  moreover have "cs1550_getattr path_d s = Ok (0, dir_stat)"
    using cs_getattr_refines [OF s(1) z(2) scan_demo(1)] z s(2) by (simp add: abs_getattr_def unextended_def)
  moreover have "cs1550_getattr slash s = Ok (0, dir_stat)"
    using cs_getattr_refines [OF s(1) z(3) scan_more(2)] by simp
  moreover have "unextended (cs_abs [([100], 1)] fs) [[100], [102]]" using s(2,3) by (auto simp: unextended_def)
  then have "cs1550_getattr path_u s = Undefined" using cs_getattr_refines [OF s(1) z(4) scan_more(1)] z by simp
  moreover have "cs1550_getattr path_d (cs_fresh 16) = Ok (- ENOENT, zero_stat)"
    using cs_getattr_refines [OF fresh16(1) z(2) scan_demo(1)] z by (simp add: abs_getattr_def unextended_def)
  ultimately show ?thesis by blast
qed

text \<open>
  C25: a directory holds 17 files, but \<open>cs1550_mknod\<close> lets an eighteenth pass its check and
  writes its entry past the end of the 512-byte block.
\<close>

theorem cs_mknod_overflow:
  assumes "cs_inv N s ds fs" and "0 \<notin> set path" and "scan_path path = Ok [dn, nm, ext]"
    and "index_of dn (map fst ds) = i" and "i < length ds" and "length (fs ! i) = MAX_FILES_IN_DIR"
    and "(nm, ext) \<notin> fst ` set (fs ! i)"
  shows "cs1550_mknod path s = Undefined"
  by (rule mknod_overflow [OF assms])


text \<open>The path /d/c.t, for a name of one character, and a directory that such files fill.\<close>

definition path_c :: "nat \<Rightarrow> byte list" where "path_c k = [47, 100, 47, word_of_nat (65 + k), 46, 116]"

lemma path_c_ok:
  assumes "k < 18" shows "scan_path (path_c k) = Ok [[100], [word_of_nat (65 + k)], [116]]" "0 \<notin> set (path_c k)"
    "j < k \<Longrightarrow> word_of_nat (65 + j) \<noteq> (word_of_nat (65 + k) :: byte)"
proof -
  have "list_all (\<lambda>k. scan_path (path_c k) = Ok [[100], [word_of_nat (65 + k)], [116]] \<and> 0 \<notin> set (path_c k)) [0..<18]"
    unfolding path_c_def by code_simp
  then show "scan_path (path_c k) = Ok [[100], [word_of_nat (65 + k)], [116]]" "0 \<notin> set (path_c k)"
    using assms by (simp_all add: list_all_iff)
  have "list_all (\<lambda>k. list_all (\<lambda>j. word_of_nat (65 + j) \<noteq> (word_of_nat (65 + k) :: byte)) [0..<k]) [0..<18]" by code_simp
  then show "j < k \<Longrightarrow> word_of_nat (65 + j) \<noteq> (word_of_nat (65 + k) :: byte)" using assms by (simp add: list_all_iff)
qed

lemma demo_full:
  "n \<le> 17 \<Longrightarrow> \<exists>s f. cs_inv 32 s [([100], 1)] [f] \<and> length f = n \<and> fst ` set f = (\<lambda>k. ([word_of_nat (65 + k)], [116])) ` {..<n} \<and>
     next_free_block_index s \<le> int n + 1 \<and> (\<forall>j > n + 1. block_free (the (image s)) j)"
proof (induction n)
  case 0
  have inv: "cs_inv 32 (cs_fresh 32) [] []" by (rule cs_inv_fresh) (simp_all add: bitmap_blocks_val)
  have im: "image (cs_fresh 32) = Some (replicate (BLOCK_SIZE * 32) 0)" by (simp add: cs_fresh_def)
  obtain s1 b where s1: "cs_inv 32 s1 [([100], b)] [[]]" "allocated (cs_fresh 32) b s1"
    using mkdir_success [OF inv im space_fresh _ scan_demo(1)] by (auto simp: cs_consts)
  have fz: "block_free (replicate (BLOCK_SIZE * 32) 0) j" for j by (rule block_free_zero) simp
  note A = allocated_D [OF s1(2)]
  have "\<not> 1 < b" using A(4) [of 1] fz [of 1] by (auto simp: cs_fresh_def)
  then have "b = 1" using A(1) by (simp add: cs_fresh_def)
  with s1 A(2,5) fz show ?case by (intro exI [of _ s1] exI [of _ "[]"]) (simp add: cs_fresh_def)
next
  case (Suc n)
  then obtain s f where s: "cs_inv 32 s [([100], 1)] [f]" "length f = n" "fst ` set f = (\<lambda>k. ([word_of_nat (65 + k)], [116])) ` {..<n}"
      "next_free_block_index s \<le> int n + 1" "\<And>j. n + 1 < j \<Longrightarrow> block_free (the (image s)) j"
    by auto
  obtain d where d: "image s = Some d" using s(1) by (rule cs_inv_D)
  have k: "n < 18" using Suc.prems by simp
  have sp: "space_left 32 s" unfolding space_left_def using d s(4) s(5) [of "n + 2"] Suc.prems by (intro exI [of _ d] conjI exI [of _ "n + 2"]) auto
  have new: "([word_of_nat (65 + n)], [116]) \<notin> fst ` set f" using path_c_ok(3) [OF k] by (auto simp: s(3) eq_commute [of "word_of_nat (65 + n)"] simp del: of_nat_add)
  have nz: "0 \<noteq> (word_of_nat (65 + n) :: byte)" using path_c_ok(2) [OF k] by (simp add: path_c_def)
  have ix: "index_of [100] (map fst [([100 :: byte], 1 :: nat)]) = 0" by (simp add: index_of_def)
  have c: "0 < length [([100 :: byte], 1 :: nat)]" "length ([f] ! 0) < MAX_FILES_IN_DIR" "0 \<notin> set [100 :: byte]" "0 \<notin> set [116 :: byte]"
    "0 \<notin> set [word_of_nat (65 + n) :: byte]" "length [word_of_nat (65 + n) :: byte] \<le> MAX_FILENAME" "length [116 :: byte] \<le> MAX_EXTENSION"
    "([word_of_nat (65 + n)], [116]) \<notin> fst ` set ([f] ! 0)"
    using s(2) Suc.prems nz new by (simp_all add: cs_consts del: of_nat_add)
  obtain s2 b where s2: "cs_inv 32 s2 [([100], 1)] [f @ [(([word_of_nat (65 + n)], [116]), (0, b))]]" "allocated s b s2"
    using mknod_success [OF s(1) d sp path_c_ok(1) [OF k] c(3) ix c(1,2,5,6,4,7,8)] by auto
  note A = allocated_D [OF s2(2)]
  have le: "b \<le> Suc n + 1"
  proof (rule ccontr)
    assume "\<not> b \<le> Suc n + 1"
    then show False using A(4) [of "n + 2"] s(4) s(5) [of "n + 2"] by simp
  qed
  show ?case
  proof (intro exI conjI allI impI)
    show "cs_inv 32 s2 [([100], 1)] [f @ [(([word_of_nat (65 + n)], [116]), (0, b))]]" by (rule s2(1))
    show "fst ` set (f @ [(([word_of_nat (65 + n)], [116]), (0, b))]) = (\<lambda>k. ([word_of_nat (65 + k)], [116])) ` {..<Suc n}"
      unfolding lessThan_Suc set_append image_Un s(3) by (simp del: of_nat_add)
    show "block_free (the (image s2)) j" if "Suc n + 1 < j" for j using A(5) [of j] s(5) [of j] le that by simp
  qed (use s(2) le A(2) in simp_all)
qed

theorem cs_mknod_overflow_witness:
  "\<exists>s f. cs_inv 32 s [([100], 1)] [f] \<and> length f = 17 \<and> cs1550_mknod (path_c 17) s = Undefined"
proof -
  obtain s f where s: "cs_inv 32 s [([100], 1)] [f]" "length f = 17" "fst ` set f = (\<lambda>k. ([word_of_nat (65 + k)], [116])) ` {..<17}"
    using demo_full [of 17] by auto
  have new: "([word_of_nat (65 + 17)], [116]) \<notin> fst ` set ([f] ! 0)" using path_c_ok(3) [of 17] by (auto simp: s(3) eq_commute [of "word_of_nat (65 + 17)"] simp del: of_nat_add)
  have "cs1550_mknod (path_c 17) s = Undefined"
    by (rule cs_mknod_overflow [OF s(1) path_c_ok(2) path_c_ok(1) _ _ _ new]) (simp_all add: index_of_def s(2) cs_consts)
  with s show ?thesis by blast
qed



text \<open>
  C24: writing more than three blocks' worth of data to an empty file does not lay out a file. The
  write reports success, but the third block is not marked in the bitmap, so the next search
  finds it again: the block is linked to itself, and stays free for another file.
\<close>

theorem cs_write_three_blocks:
  assumes "cs_inv N s ds fs" and "0 \<notin> set path" and "scan_path path = Ok toks" and "image s = Some d"
    and "cs_file N d ds fs toks 0 [b0]" and "b0 < N - 3" and "\<not> block_free d b0" and "b0 \<notin> snd ` set ds"
    and "next_free_block_index s \<le> int b1" and "b1 < b2" and "block_free d b1"
    and "\<And>j. next_free_block_index s \<le> int j \<Longrightarrow> j < b1 \<Longrightarrow> \<not> block_free d j"
    and "b2 < N - 3" and "block_free d b2" and "\<And>j. b1 < j \<Longrightarrow> j < b2 \<Longrightarrow> \<not> block_free d j"
    and "3 * 504 < length buf" and "length buf < 2 ^ 31"
  shows "\<exists>s' d'. cs1550_write path buf 0 s = Ok (int (length buf), s') \<and> image s' = Some d' \<and> disk_wf N d' \<and>
    block_next (dblock d' b0) = int b1 \<and> block_next (dblock d' b1) = int b2 \<and> block_next (dblock d' b2) = int b2 \<and>
    block_free d' b2 \<and> next_free_block_index s' = int b2"
  by (rule write_three_blocks [OF assms])

theorem cs_write_three_blocks_witness:
  "\<exists>s s' d'. cs1550_write path_f (replicate 2000 65) 0 s = Ok (2000, s') \<and> image s' = Some d' \<and>
     block_next (dblock d' 4) = 4 \<and> block_free d' 4"
proof -
  obtain s where s: "cs_inv 16 s [([100], 1)] [[(([102], [116]), (0, 2))]]" "next_free_block_index s = 2"
      "\<And>j. block_free (the (image s)) j \<longleftrightarrow> j \<noteq> 1 \<and> j \<noteq> 2"
    using demo_file by blast
  obtain d where d: "image s = Some d" using s(1) by (rule cs_inv_D)
  have bf: "block_free d j \<longleftrightarrow> j \<noteq> 1 \<and> j \<noteq> 2" for j using s(3) d by simp
  have z: "0 \<notin> set path_f" by (simp add: path_f_def)
  have cf: "cs_file 16 d [([100], 1)] [[(([102], [116]), (0, 2))]] [[100], [102], [116]] 0 [2]" using demo_cs_file [OF s(1)] d by simp
  from cs_write_three_blocks [OF s(1) z scan_demo(2) d cf, of 3 4 "replicate 2000 65"] show ?thesis
    using s(2) bf by auto
qed

end
