(* ===== verification/Ring.thy ===== *)
theory Ring
  imports Prelude
begin

text \<open>
  Ring buffers addressed by free-running 32-bit counters, as the console's input buffer and pipes
  use them: the byte with counter \<open>i\<close> is kept at index \<open>i % N\<close>. The counters wrap around at
  \<open>2 ^ 32\<close>, which is harmless just if \<open>N\<close> divides that; the locale collects the laws
  under this condition, and each buffer interprets it at its size.
\<close>

definition ring :: "nat \<Rightarrow> 'a list \<Rightarrow> uint \<Rightarrow> nat \<Rightarrow> 'a list" where
  "ring N buf i n = map (\<lambda>k. buf ! (unat (i + of_nat k) mod N)) [0..<n]"

lemma length_ring [simp]: "length (ring N buf i n) = n"
  by (simp add: ring_def)

lemma ring_0 [simp]: "ring N buf i 0 = []"
  by (simp add: ring_def)

lemma ring_snoc: "ring N buf i (Suc n) = ring N buf i n @ [buf ! (unat (i + of_nat n) mod N)]"
  by (simp add: ring_def)

lemma ring_Cons: "ring N buf i (Suc n) = buf ! (unat i mod N) # ring N buf (i + 1) n"
  by (simp add: ring_def upt_conv_Cons map_Suc_upt [symmetric] add.assoc del: upt_Suc)

lemma ring_append: "ring N buf i (m + n) = ring N buf i m @ ring N buf (i + of_nat m) n"
proof (induction m arbitrary: i)
  case (Suc m)
  then show ?case by (simp add: ring_Cons add.assoc)
qed simp

locale ring_size =
  fixes N :: nat
  assumes N_pos: "0 < N" and N_dvd: "N dvd 2 ^ 32"
begin

lemma index_mod: "unat (i + of_nat k :: uint) mod N = (unat i + k) mod N"
proof -
  have "unat (i + of_nat k) = (unat i + k) mod 2 ^ 32"
    by (simp add: unat_word_ariths unat_of_nat mod_add_right_eq)
  then show ?thesis using N_dvd by (simp add: mod_mod_cancel)
qed

lemma index_less: "unat (i :: uint) mod N < N"
  using N_pos by simp

lemma index_inj:
  assumes "k < N" and "n < N" and "unat (i + of_nat k :: uint) mod N = unat (i + of_nat n) mod N"
  shows "k = n"
proof -
  have "(unat i + k) mod N = (unat i + n) mod N" using assms(3) by (simp only: index_mod)
  note eq = this
  show ?thesis
  proof (rule ccontr)
    assume "k \<noteq> n"
    then consider "k < n" | "n < k" by linarith
    then show False
    proof cases
      case 1
      then have "N dvd n - k" using eq mod_eq_dvd_iff_nat [of "unat i + k" "unat i + n" N] by simp
      then show False using 1 assms(2) nat_dvd_not_less [of "n - k" N] by simp
    next
      case 2
      then have "N dvd k - n" using eq mod_eq_dvd_iff_nat [of "unat i + n" "unat i + k" N] by simp
      then show False using 2 assms(1) nat_dvd_not_less [of "k - n" N] by simp
    qed
  qed
qed

lemma ring_upd:
  assumes "n < N" and "m \<le> n"
  shows "ring N (buf[unat (i + of_nat n) mod N := x]) i m = ring N buf i m"
  unfolding ring_def
proof (rule map_cong [OF refl])
  fix k assume "k \<in> set [0..<m]"
  then have "k < n" using assms(2) by simp
  then have "unat (i + of_nat k) mod N \<noteq> unat (i + of_nat n) mod N" using index_inj [of k n i] assms(1) by auto
  then show "buf[unat (i + of_nat n) mod N := x] ! (unat (i + of_nat k) mod N) = buf ! (unat (i + of_nat k) mod N)" by simp
qed

lemma ring_push:
  assumes "length buf = N" and "n < N"
  shows "ring N (buf[unat (i + of_nat n) mod N := x]) i (Suc n) = ring N buf i n @ [x]"
  using ring_upd [OF assms(2) le_refl] assms(1) index_less [of "i + of_nat n"] by (simp add: ring_snoc)

end

text \<open>The number of bytes between two counters.\<close>

lemma unat_diff_Suc: "unat (w - r :: uint) < 2 ^ 32 - 1 \<Longrightarrow> unat (w + 1 - r) = Suc (unat (w - r))"
proof -
  assume a: "unat (w - r) < 2 ^ 32 - 1"
  have "unat ((w - r) + 1) = Suc (unat (w - r))" using a by (simp add: unat_word_ariths)
  then show ?thesis by (simp add: algebra_simps)
qed

lemma counter_eq: "(w :: uint) = r + of_nat (unat (w - r))"
  by simp

end
