(* ===== verification/Xv6_String.thy ===== *)
theory Xv6_String
  imports Prelude
begin

text \<open>
  The string and memory routines: \<open>string.c\<close> of the kernel and the string half of \<open>ulib.c\<close>,
  with the two block-store instructions of \<open>x86.h\<close> they use. Memory is a function from 32-bit
  addresses to bytes, so that pointer arithmetic wraps as it does on the machine and overlapping
  regions are the same bytes. A count is turned into a natural number where a loop counts it
  down. A routine that runs until it meets a terminator is a partial function. Shifting a byte into the
  sign bit in \<open>memset\<close>, which C leaves undefined, works on bits here as it does on the machine.
\<close>

section \<open>Block stores\<close>

primrec stosb :: "uint \<Rightarrow> byte \<Rightarrow> nat \<Rightarrow> mem \<Rightarrow> mem" where
  "stosb addr data 0 m = m"
| "stosb addr data (Suc cnt) m = stosb (addr + 1) data cnt (m(addr := data))"

primrec stosl :: "uint \<Rightarrow> uint \<Rightarrow> nat \<Rightarrow> mem \<Rightarrow> mem" where
  "stosl addr data 0 m = m"
| "stosl addr data (Suc cnt) m =
    stosl (addr + 4) data cnt
      (m(addr := ucast data, addr + 1 := ucast (drop_bit 8 data),
         addr + 2 := ucast (drop_bit 16 data), addr + 3 := ucast (drop_bit 24 data)))"

section \<open>The kernel's routines\<close>

definition memset :: "uint \<Rightarrow> uint \<Rightarrow> uint \<Rightarrow> mem \<Rightarrow> mem" where
  "memset dst c n m =
    (if dst mod 4 = 0 \<and> n mod 4 = 0 then
       (let c = c AND 0xFF in
        stosl dst (push_bit 24 c OR push_bit 16 c OR push_bit 8 c OR c) (unat (n div 4)) m)
     else stosb dst (ucast c) (unat n) m)"

primrec memcmp_loop :: "mem \<Rightarrow> uint \<Rightarrow> uint \<Rightarrow> nat \<Rightarrow> int" where
  "memcmp_loop m s1 s2 0 = 0"
| "memcmp_loop m s1 s2 (Suc n) =
    (if m s1 \<noteq> m s2 then uint (m s1) - uint (m s2) else memcmp_loop m (s1 + 1) (s2 + 1) n)"

definition memcmp :: "mem \<Rightarrow> uint \<Rightarrow> uint \<Rightarrow> uint \<Rightarrow> int" where
  "memcmp m v1 v2 n = memcmp_loop m v1 v2 (unat n)"

primrec copy_up :: "nat \<Rightarrow> uint \<Rightarrow> uint \<Rightarrow> mem \<Rightarrow> mem" where
  "copy_up 0 d s m = m"
| "copy_up (Suc n) d s m = copy_up n (d + 1) (s + 1) (m(d := m s))"

primrec copy_down :: "nat \<Rightarrow> uint \<Rightarrow> uint \<Rightarrow> mem \<Rightarrow> mem" where
  "copy_down 0 d s m = m"
| "copy_down (Suc n) d s m = copy_down n (d - 1) (s - 1) (m(d - 1 := m (s - 1)))"

definition memmove :: "uint \<Rightarrow> uint \<Rightarrow> uint \<Rightarrow> mem \<Rightarrow> mem" where
  "memmove dst src n m =
    (if src < dst \<and> src + n > dst then copy_down (unat n) (dst + n) (src + n) m
     else copy_up (unat n) dst src m)"

definition memcpy :: "uint \<Rightarrow> uint \<Rightarrow> uint \<Rightarrow> mem \<Rightarrow> mem" where
  "memcpy dst src n m = memmove dst src n m"

primrec strncmp_loop :: "mem \<Rightarrow> nat \<Rightarrow> uint \<Rightarrow> uint \<Rightarrow> int" where
  "strncmp_loop m 0 p q = 0"
| "strncmp_loop m (Suc n) p q =
    (if m p \<noteq> 0 \<and> m p = m q then strncmp_loop m n (p + 1) (q + 1) else uint (m p) - uint (m q))"

definition strncmp :: "mem \<Rightarrow> uint \<Rightarrow> uint \<Rightarrow> uint \<Rightarrow> int" where
  "strncmp m p q n = strncmp_loop m (unat n) p q"

primrec strncpy_loop :: "nat \<Rightarrow> uint \<Rightarrow> uint \<Rightarrow> mem \<Rightarrow> mem" where
  "strncpy_loop 0 s t m = m"
| "strncpy_loop (Suc n) s t m =
    (let m' = m(s := m t) in
     if m t \<noteq> 0 then strncpy_loop n (s + 1) (t + 1) m' else stosb (s + 1) 0 n m')"

definition strncpy :: "uint \<Rightarrow> uint \<Rightarrow> int \<Rightarrow> mem \<Rightarrow> mem" where
  "strncpy s t n m = strncpy_loop (nat n) s t m"

primrec safestrcpy_loop :: "nat \<Rightarrow> uint \<Rightarrow> uint \<Rightarrow> mem \<Rightarrow> mem" where
  "safestrcpy_loop 0 s t m = m(s := 0)"
| "safestrcpy_loop (Suc n) s t m =
    (let m' = m(s := m t) in
     if m t \<noteq> 0 then safestrcpy_loop n (s + 1) (t + 1) m' else m'(s + 1 := 0))"

definition safestrcpy :: "uint \<Rightarrow> uint \<Rightarrow> int \<Rightarrow> mem \<Rightarrow> mem" where
  "safestrcpy s t n m = (if n \<le> 0 then m else safestrcpy_loop (nat (n - 1)) s t m)"

text \<open>\<open>strlen\<close>; its \<open>int\<close> counter overflows, which is undefined, on a longer string.\<close>

function strlen_from :: "mem \<Rightarrow> uint \<Rightarrow> nat \<Rightarrow> nat kres" where
  "strlen_from m s n =
    (if m (s + of_nat n) = 0 then Ok n
     else if 2 ^ 31 \<le> n + 1 then Undefined
     else strlen_from m s (n + 1))"
  by pat_completeness auto
termination
  by (relation "measure (\<lambda>(m, s, n). 2 ^ 31 - n)") auto

declare strlen_from.simps [simp del]

definition strlen :: "mem \<Rightarrow> uint \<Rightarrow> nat kres" where
  "strlen m s = strlen_from m s 0"

section \<open>The user library's routines\<close>

partial_function (option) strcpy :: "uint \<Rightarrow> uint \<Rightarrow> mem \<Rightarrow> mem option" where
  "strcpy s t m =
    (let m' = m(s := m t) in if m t \<noteq> 0 then strcpy (s + 1) (t + 1) m' else Some m')"

partial_function (option) strcmp :: "mem \<Rightarrow> uint \<Rightarrow> uint \<Rightarrow> int option" where
  "strcmp m p q =
    (if m p \<noteq> 0 \<and> m p = m q then strcmp m (p + 1) (q + 1) else Some (uint (m p) - uint (m q)))"

definition ulib_strlen :: "mem \<Rightarrow> uint \<Rightarrow> nat kres" where
  "ulib_strlen m s = strlen_from m s 0"

definition ulib_memset :: "uint \<Rightarrow> uint \<Rightarrow> uint \<Rightarrow> mem \<Rightarrow> mem" where
  "ulib_memset dst c n m = stosb dst (ucast c) (unat n) m"

text \<open>\<open>strchr\<close> returns the null pointer when the character does not occur.\<close>

partial_function (option) strchr :: "mem \<Rightarrow> uint \<Rightarrow> byte \<Rightarrow> uint option" where
  "strchr m s c = (if m s = 0 then Some 0 else if m s = c then Some s else strchr m (s + 1) c)"

text \<open>\<open>atoi\<close> is signed: an \<open>int\<close> overflow is undefined.\<close>

partial_function (option) atoi_loop :: "mem \<Rightarrow> uint \<Rightarrow> int \<Rightarrow> int kres option" where
  "atoi_loop m s n =
    (if 48 \<le> m s \<and> m s \<le> 57 then
       let n' = n * 10 + uint (m s) - 48 in
       if n * 10 + uint (m s) < 2 ^ 31 then atoi_loop m (s + 1) n' else Some Undefined
     else Some (Ok n))"

definition atoi :: "mem \<Rightarrow> uint \<Rightarrow> int kres" where
  "atoi m s = kbind (of_loop (atoi_loop m s 0)) (\<lambda>r. r)"

definition ulib_memmove :: "uint \<Rightarrow> uint \<Rightarrow> int \<Rightarrow> mem \<Rightarrow> mem" where
  "ulib_memmove vdst vsrc n m = copy_up (nat n) vdst vsrc m"

text \<open>
  \<open>gets\<close>, for a function \<open>rd\<close> that performs \<open>read(0, &c, 1)\<close> on the state of the standard input:
  it returns the byte read, if any, and the state after it. \<open>k\<close> is what is left of \<open>max - 1\<close>.
\<close>

primrec gets_loop :: "('f \<Rightarrow> byte option \<times> 'f) \<Rightarrow> nat \<Rightarrow> uint \<Rightarrow> nat \<Rightarrow> 'f \<Rightarrow> mem \<Rightarrow> 'f \<times> mem" where
  "gets_loop rd 0 buf i f m = (f, m(buf + of_nat i := 0))"
| "gets_loop rd (Suc k) buf i f m =
    (case rd f of
       (None, f') \<Rightarrow> (f', m(buf + of_nat i := 0))
     | (Some c, f') \<Rightarrow>
         (let m' = m(buf + of_nat i := c) in
          if c = 10 \<or> c = 13 then (f', m'(buf + of_nat (Suc i) := 0))
          else gets_loop rd k buf (Suc i) f' m'))"

definition gets :: "('f \<Rightarrow> byte option \<times> 'f) \<Rightarrow> uint \<Rightarrow> int \<Rightarrow> 'f \<Rightarrow> mem \<Rightarrow> 'f \<times> mem" where
  "gets rd buf mx f m = gets_loop rd (nat (mx - 1)) buf 0 f m"

section \<open>Regions and strings of memory\<close>

text \<open>An address lies below offset \<open>k\<close> of a region if its distance from the start is below \<open>k\<close>.\<close>

lemma unat_pred: "(x :: uint) \<noteq> 0 \<Longrightarrow> unat (x - 1) = unat x - 1"
  by (simp add: unat_minus_one)

lemma region_Suc: "unat (x - a) < Suc k \<longleftrightarrow> x = a \<or> unat (x - (a + 1)) < k" if "0 < k" for x a :: uint
proof (cases "x = a")
  case False
  then have "unat (x - (a + 1)) = unat (x - a) - 1" "unat (x - a) \<noteq> 0"
    using unat_pred [of "x - a"] by (simp_all add: diff_diff_eq unat_eq_0)
  then show ?thesis using False by auto
qed (use that in simp)

lemma stosb_eq: "stosb a c k m = (\<lambda>x. if unat (x - a) < k then c else m x)"
proof (induction k arbitrary: a m)
  case (Suc k)
  show ?case
  proof
    fix x
    have "unat (x - a) < Suc k \<longleftrightarrow> x = a \<or> unat (x - (a + 1)) < k"
    proof (cases "k = 0")
      case True
      then show ?thesis by (auto simp: unat_eq_0)
    qed (simp add: region_Suc)
    then show "stosb a c (Suc k) m x = (if unat (x - a) < Suc k then c else m x)"
      by (auto simp: Suc)
  qed
qed simp

lemma quad_bytes:
  fixes c :: uint
  defines "w \<equiv> push_bit 24 (c AND 0xFF) OR push_bit 16 (c AND 0xFF) OR push_bit 8 (c AND 0xFF) OR (c AND 0xFF)"
  shows "ucast w = (ucast c :: byte)" "ucast (drop_bit 8 w) = (ucast c :: byte)"
    "ucast (drop_bit 16 w) = (ucast c :: byte)" "ucast (drop_bit 24 w) = (ucast c :: byte)"
proof -
  have ff: "(0xFF :: uint) = mask 8" by (simp add: mask_eq_exp_minus_1)
  have b: "bit w n \<longleftrightarrow> n < 32 \<and> bit c (n mod 8)" for n
  proof -
    consider "n < 8" | "8 \<le> n" "n < 16" | "16 \<le> n" "n < 24" | "24 \<le> n" "n < 32" | "32 \<le> n" by linarith
    then show ?thesis
      by cases (auto simp: w_def ff bit_simps le_mod_geq not_less)
  qed
  have md: "(8 + n) mod 8 = n mod 8" "(16 + n) mod 8 = n mod 8" "(24 + n) mod 8 = n mod 8" for n :: nat by presburger+
  show "ucast w = (ucast c :: byte)" "ucast (drop_bit 8 w) = (ucast c :: byte)"
    "ucast (drop_bit 16 w) = (ucast c :: byte)" "ucast (drop_bit 24 w) = (ucast c :: byte)"
    by (rule bit_word_eqI; simp add: bit_simps b md)+
qed

lemma stosl_quad:
  "stosl a (push_bit 24 (c AND 0xFF) OR push_bit 16 (c AND 0xFF) OR push_bit 8 (c AND 0xFF) OR (c AND 0xFF)) k m =
   stosb a (ucast c) (4 * k) m"
proof (induction k arbitrary: a m)
  case (Suc k)
  have "4 * Suc k = Suc (Suc (Suc (Suc (4 * k))))" by simp
  then show ?case by (simp only: stosl.simps stosb.simps quad_bytes Suc) (simp add: add.assoc fun_upd_def)
qed simp


lemma memset_eq: "memset dst c n m = (\<lambda>x. if x - dst < n then ucast c else m x)"
proof -
  have "4 * unat (n div 4) = unat n" if "n mod 4 = 0"
  proof -
    have "unat n mod 4 = 0" using that by (simp add: word_unat_eq_iff unat_mod)
    then show ?thesis by (simp add: unat_div) (metis dvd_eq_mod_eq_0 dvd_mult_div_cancel)
  qed
  then show ?thesis
    unfolding memset_def Let_def stosl_quad stosb_eq by (simp add: word_less_nat_alt)
qed

lemma copy_up_eq:
  assumes "unat s + k < 2 ^ 32" and "unat d + k \<le> 2 ^ 32" and "unat d \<le> unat s \<or> unat s + k \<le> unat d"
  shows "copy_up k d s m = (\<lambda>a. if unat (a - d) < k then m (s + (a - d)) else m a)"
  using assms
proof (induction k arbitrary: d s m)
  case (Suc k)
  have s1: "unat (s + 1) = unat s + 1" using Suc.prems(1) by (simp add: unat_word_ariths)
  show ?case
  proof (cases "k = 0")
    case True
    then show ?thesis by (auto simp: unat_eq_0)
  next
    case False
    then have d1: "unat (d + 1) = unat d + 1" using Suc.prems(2) by (simp add: unat_word_ariths)
    have IH: "copy_up k (d + 1) (s + 1) (m(d := m s)) =
        (\<lambda>a. if unat (a - (d + 1)) < k then (m(d := m s)) (s + 1 + (a - (d + 1))) else (m(d := m s)) a)"
      by (rule Suc.IH) (use Suc.prems s1 d1 in auto)
    show ?thesis
    proof
      fix a
      show "copy_up (Suc k) d s m a = (if unat (a - d) < Suc k then m (s + (a - d)) else m a)"
      proof (cases "a = d")
        case True
        then have "\<not> unat (a - (d + 1)) < k \<or> s + 1 + (a - (d + 1)) = s" by (simp add: algebra_simps)
        then show ?thesis using True by (auto simp: IH)
      next
        case ad: False
        then have r: "unat (a - d) < Suc k \<longleftrightarrow> unat (a - (d + 1)) < k" using False region_Suc [of k a d] by simp
        have e: "s + 1 + (a - (d + 1)) = s + (a - d)" by (simp add: algebra_simps)
        have "s + (a - d) \<noteq> d" if "unat (a - d) < Suc k"
        proof
          assume "s + (a - d) = d"
          then have "unat (s + (a - d)) = unat d" by (rule arg_cong)
          moreover have "unat (s + (a - d)) = unat s + unat (a - d)" using that Suc.prems(1) by (simp add: unat_word_ariths)
          moreover have "unat (a - d) \<noteq> 0" using ad by (simp add: unat_eq_0)
          ultimately have "unat d = unat s + unat (a - d)" "unat (a - d) \<noteq> 0" by simp_all
          then show False using Suc.prems(3) that by linarith
        qed
        then show ?thesis using ad r e by (auto simp: IH)
      qed
    qed
  qed
qed simp

lemma copy_down_eq:
  assumes "unat d + k \<le> 2 ^ 32" and "unat s < unat d"
  shows "copy_down k (d + of_nat k) (s + of_nat k) m = (\<lambda>a. if unat (a - d) < k then m (s + (a - d)) else m a)"
  using assms
proof (induction k arbitrary: m)
  case (Suc k)
  let ?m = "m(d + of_nat k := m (s + of_nat k))"
  have IH: "copy_down k (d + of_nat k) (s + of_nat k) ?m = (\<lambda>a. if unat (a - d) < k then ?m (s + (a - d)) else ?m a)"
    by (rule Suc.IH) (use Suc.prems in auto)
  have k: "unat (of_nat k :: uint) = k" using Suc.prems(1) by (simp add: unat_of_nat)
  have step: "copy_down (Suc k) (d + of_nat (Suc k)) (s + of_nat (Suc k)) m = copy_down k (d + of_nat k) (s + of_nat k) ?m"
    by (simp add: algebra_simps)
  show ?case
  proof
    fix a
    have eq: "unat (a - d) = k \<longleftrightarrow> a = d + of_nat k"
      using k by (auto simp: word_unat_eq_iff [of "a - d", symmetric] diff_eq_eq add.commute)
    have "s + (a - d) \<noteq> d + of_nat k" if "unat (a - d) < k"
    proof
      assume "s + (a - d) = d + of_nat k"
      then have "unat (s + (a - d)) = unat (d + of_nat k)" by (rule arg_cong)
      moreover have "unat (s + (a - d)) = unat s + unat (a - d)" "unat (d + of_nat k) = unat d + k"
        using that Suc.prems k by (simp_all add: unat_word_ariths)
      ultimately have "unat d + k = unat s + unat (a - d)" by simp
      then show False using that Suc.prems(2) by linarith
    qed
    then show "copy_down (Suc k) (d + of_nat (Suc k)) (s + of_nat (Suc k)) m a =
        (if unat (a - d) < Suc k then m (s + (a - d)) else m a)"
      unfolding step IH using eq k by (auto simp: less_Suc_eq)
  qed
qed simp

lemma memmove_eq:
  assumes "unat src + unat n < 2 ^ 32" and "unat dst + unat n \<le> 2 ^ 32"
  shows "memmove dst src n m = (\<lambda>a. if a - dst < n then m (src + (a - dst)) else m a)"
proof -
  have n: "unat (src + n) = unat src + unat n" using assms(1) by (simp add: unat_word_ariths)
  show ?thesis
    using copy_down_eq [of dst "unat n" src m] copy_up_eq [of src "unat n" dst m] assms n
    by (auto simp: memmove_def word_less_nat_alt not_less)
qed


section \<open>Terminated strings\<close>

fun cstr :: "mem \<Rightarrow> uint \<Rightarrow> byte list \<Rightarrow> bool" where
  "cstr m a [] \<longleftrightarrow> m a = 0"
| "cstr m a (x # xs) \<longleftrightarrow> m a = x \<and> x \<noteq> 0 \<and> cstr m (a + 1) xs"

text \<open>The string of \<open>len\<close> bytes at \<open>t\<close>, with its terminator, lies outside the \<open>n\<close> bytes at \<open>s\<close>.\<close>

definition apart :: "uint \<Rightarrow> nat \<Rightarrow> uint \<Rightarrow> nat \<Rightarrow> bool" where
  "apart s n t len \<longleftrightarrow> (\<forall>j \<le> len. n \<le> unat (t + of_nat j - s))"

lemma apart_step: "apart s (Suc n) t (Suc len) \<Longrightarrow> apart (s + 1) n (t + 1) len"
proof (unfold apart_def, intro allI impI)
  fix j assume a: "\<forall>j \<le> Suc len. Suc n \<le> unat (t + of_nat j - s)" and "j \<le> len"
  have "t + 1 + of_nat j - (s + 1) = t + of_nat j - s" by simp
  then show "n \<le> unat (t + 1 + of_nat j - (s + 1))" using a [rule_format, of j] \<open>j \<le> len\<close> by (simp only:) simp
qed

lemma apart_ne: "apart s (Suc n) t len \<Longrightarrow> j \<le> len \<Longrightarrow> t + of_nat j \<noteq> s"
  by (force simp: apart_def)

lemma cstr_upd: "(\<And>j. j \<le> length xs \<Longrightarrow> a + of_nat j \<noteq> b) \<Longrightarrow> cstr (m(b := v)) a xs = cstr m a xs"
proof (induction xs arbitrary: a)
  case Nil
  then show ?case using Nil [of 0] by simp
next
  case (Cons x xs)
  have "(m(b := v)) a = m a" using Cons.prems [of 0] by simp
  moreover have "cstr (m(b := v)) (a + 1) xs = cstr m (a + 1) xs"
    by (rule Cons.IH) (use Cons.prems [of "Suc _"] in \<open>simp add: algebra_simps\<close>)
  ultimately show ?case by (simp only: cstr.simps)
qed

lemma safestrcpy_loop_eq:
  assumes "cstr m t xs" and "apart s (Suc k) t (length xs)" and "k < 2 ^ 32 - 1"
  shows "cstr (safestrcpy_loop k s t m) s (take k xs) \<and> (\<forall>a. k < unat (a - s) \<longrightarrow> safestrcpy_loop k s t m a = m a)"
  using assms
proof (induction k arbitrary: s t m xs)
  case 0
  then show ?case by auto
next
  case (Suc k)
  show ?case
  proof (cases xs)
    case Nil
    have "unat (1 :: uint) < Suc (Suc k)" by simp
    then show ?thesis using Suc.prems Nil by auto
  next
    case (Cons x xs')
    let ?m = "m(s := x)"
    have c: "m t = x" "x \<noteq> 0" "cstr m (t + 1) xs'" using Suc.prems(1) Cons by auto
    have c': "cstr ?m (t + 1) xs'"
      using c(3) apart_ne [OF Suc.prems(2), of "Suc _"] Cons by (subst cstr_upd) (auto simp: algebra_simps)
    have ap: "apart (s + 1) (Suc k) (t + 1) (length xs')" using apart_step Suc.prems(2) Cons by simp
    have "k < 2 ^ 32 - 1" using Suc.prems(3) by simp
    from Suc.IH [OF c' ap this]
    have IH: "cstr (safestrcpy_loop k (s + 1) (t + 1) ?m) (s + 1) (take k xs')"
        "\<And>a. k < unat (a - (s + 1)) \<Longrightarrow> safestrcpy_loop k (s + 1) (t + 1) ?m a = ?m a"
      by blast+
    have "unat (s - (s + 1)) = 2 ^ 32 - 1" by (simp add: unsigned_minus_1_eq_mask mask_eq_exp_minus_1)
    then have "safestrcpy_loop k (s + 1) (t + 1) ?m s = ?m s" using IH(2) [of s] Suc.prems(3) by linarith
    then have "safestrcpy_loop k (s + 1) (t + 1) ?m s = x" by (simp only: fun_upd_same)
    moreover have "safestrcpy_loop k (s + 1) (t + 1) ?m a = m a" if "Suc k < unat (a - s)" for a
    proof -
      have "a \<noteq> s" using that by auto
      then have "unat (a - (s + 1)) = unat (a - s) - 1" using unat_pred [of "a - s"] by (simp add: diff_diff_eq)
      then have "safestrcpy_loop k (s + 1) (t + 1) ?m a = ?m a" using IH(2) [of a] that by linarith
      from this fun_upd_other [OF \<open>a \<noteq> s\<close>, of m x] show ?thesis by (rule trans)
    qed
    ultimately show ?thesis using Cons c IH(1) by simp
  qed
qed

lemma strncmp_loop_0:
  "strncmp_loop m n p q = 0 \<longleftrightarrow> (\<forall>i < n. (\<forall>j < i. m (p + of_nat j) \<noteq> 0) \<longrightarrow> m (p + of_nat i) = m (q + of_nat i))"
proof (induction n arbitrary: p q)
  case (Suc n)
  have eq: "uint (m p) - uint (m q) = 0 \<longleftrightarrow> m p = m q" by (simp add: word_uint_eq_iff)
  show ?case
  proof (cases "m p = 0 \<or> m p \<noteq> m q")
    case True
    have "(\<forall>i < Suc n. (\<forall>j < i. m (p + of_nat j) \<noteq> 0) \<longrightarrow> m (p + of_nat i) = m (q + of_nat i)) \<longleftrightarrow> m p = m q"
    proof
      assume "m p = m q"
      then have "m p = 0" using True by simp
      then show "\<forall>i < Suc n. (\<forall>j < i. m (p + of_nat j) \<noteq> 0) \<longrightarrow> m (p + of_nat i) = m (q + of_nat i)"
      proof (intro allI impI)
        fix i assume "\<forall>j < i. m (p + of_nat j) \<noteq> 0"
        then have "i = 0" using \<open>m p = 0\<close> by (cases i) auto
        then show "m (p + of_nat i) = m (q + of_nat i)" using \<open>m p = m q\<close> by simp
      qed
    next
      assume "\<forall>i < Suc n. (\<forall>j < i. m (p + of_nat j) \<noteq> 0) \<longrightarrow> m (p + of_nat i) = m (q + of_nat i)"
      from this [rule_format, of 0] show "m p = m q" by simp
    qed
    then show ?thesis using True eq by auto
  next
    case False
    have "(\<forall>i < Suc n. (\<forall>j < i. m (p + of_nat j) \<noteq> 0) \<longrightarrow> m (p + of_nat i) = m (q + of_nat i)) \<longleftrightarrow>
      (\<forall>i < n. (\<forall>j < i. m (p + 1 + of_nat j) \<noteq> 0) \<longrightarrow> m (p + 1 + of_nat i) = m (q + 1 + of_nat i))"
      using False by (auto simp: All_less_Suc2 add.assoc)
    moreover have "strncmp_loop m (Suc n) p q = strncmp_loop m n (p + 1) (q + 1)" using False by auto
    ultimately show ?thesis by (simp only: Suc)
  qed
qed simp


lemma strncpy_loop_eq:
  assumes "apart s n t n" and "n < 2 ^ 32"
  shows "(\<forall>i < n. (\<forall>j < i. m (t + of_nat j) \<noteq> 0) \<longrightarrow> strncpy_loop n s t m (s + of_nat i) = m (t + of_nat i)) \<and>
    (\<forall>a. n \<le> unat (a - s) \<longrightarrow> strncpy_loop n s t m a = m a)"
  using assms
proof (induction n arbitrary: s t m)
  case 0
  then show ?case by simp
next
  case (Suc n)
  let ?m = "m(s := m t)"
  have ap: "apart (s + 1) n (t + 1) n" by (rule apart_step [OF Suc.prems(1)])
  have off: "unat (a - (s + 1)) = unat (a - s) - 1" if "a \<noteq> s" for a
    using unat_pred [of "a - s"] that by (simp add: diff_diff_eq)
  have top: "unat (s - (s + 1)) = 2 ^ 32 - 1" by (simp add: unsigned_minus_1_eq_mask mask_eq_exp_minus_1)
  show ?case
  proof (cases "m t = 0")
    case True
    have e: "strncpy_loop (Suc n) s t m a = (if unat (a - (s + 1)) < n then 0 else if a = s then m t else m a)" for a
      using True by (simp add: stosb_eq)
    show ?thesis
    proof (intro conjI allI impI)
      fix i assume "\<forall>j < i. m (t + of_nat j) \<noteq> 0"
      then have "i = 0" using True by (cases i) auto
      then show "strncpy_loop (Suc n) s t m (s + of_nat i) = m (t + of_nat i)" using True by (simp add: e del: strncpy_loop.simps)
    next
      fix a assume "Suc n \<le> unat (a - s)"
      then have "a \<noteq> s" by auto
      have "\<not> unat (a - (s + 1)) < n" using off [OF \<open>a \<noteq> s\<close>] \<open>Suc n \<le> unat (a - s)\<close> by linarith
      with \<open>a \<noteq> s\<close> show "strncpy_loop (Suc n) s t m a = m a" by (simp add: e del: strncpy_loop.simps)
    qed
  next
    case False
    have e: "strncpy_loop (Suc n) s t m = strncpy_loop n (s + 1) (t + 1) ?m" using False by simp
    have "n < 2 ^ 32" using Suc.prems(2) by simp
    from Suc.IH [OF ap this, of ?m]
    have IH: "\<And>i. i < n \<Longrightarrow> (\<And>j. j < i \<Longrightarrow> ?m (t + 1 + of_nat j) \<noteq> 0) \<Longrightarrow>
          strncpy_loop n (s + 1) (t + 1) ?m (s + 1 + of_nat i) = ?m (t + 1 + of_nat i)"
        "\<And>a. n \<le> unat (a - (s + 1)) \<Longrightarrow> strncpy_loop n (s + 1) (t + 1) ?m a = ?m a"
      by blast+
    have mt: "?m (t + of_nat j) = m (t + of_nat j)" if "j \<le> Suc n" for j
      using apart_ne [OF Suc.prems(1) that] by simp
    show ?thesis
    proof (intro conjI allI impI)
      fix i assume i: "i < Suc n" "\<forall>j < i. m (t + of_nat j) \<noteq> 0"
      show "strncpy_loop (Suc n) s t m (s + of_nat i) = m (t + of_nat i)"
      proof (cases i)
        case 0
        have "strncpy_loop n (s + 1) (t + 1) ?m s = ?m s" using IH(2) [of s] top \<open>n < 2 ^ 32\<close> by linarith
        then have "strncpy_loop n (s + 1) (t + 1) ?m s = m t" by (simp only: fun_upd_same)
        then show ?thesis unfolding e using 0 by simp
      next
        case (Suc i')
        have nz: "?m (t + 1 + of_nat j) \<noteq> 0" if "j < i'" for j
        proof -
          have "?m (t + of_nat (Suc j)) = m (t + of_nat (Suc j))" by (rule mt) (use that i Suc in simp)
          moreover have "m (t + of_nat (Suc j)) \<noteq> 0" using i(2) that Suc by blast
          ultimately have "?m (t + of_nat (Suc j)) \<noteq> 0" by (simp only:) simp
          then show ?thesis by (simp only: of_nat_Suc ac_simps) simp
        qed
        have "strncpy_loop n (s + 1) (t + 1) ?m (s + 1 + of_nat i') = ?m (t + 1 + of_nat i')"
          by (rule IH(1)) (use i Suc nz in blast)+
        moreover have "?m (t + of_nat (Suc i')) = m (t + of_nat (Suc i'))" by (rule mt) (use i Suc in simp)
        moreover have "s + 1 + of_nat i' = s + of_nat i" "t + 1 + of_nat i' = t + of_nat i" using Suc by simp_all
        ultimately show ?thesis unfolding e using Suc by (simp only:)
      qed
    next
      fix a assume a: "Suc n \<le> unat (a - s)"
      then have "a \<noteq> s" by auto
      have "strncpy_loop n (s + 1) (t + 1) ?m a = ?m a" using IH(2) [of a] off [OF \<open>a \<noteq> s\<close>] a by linarith
      from this fun_upd_other [OF \<open>a \<noteq> s\<close>, of m "m t"] show "strncpy_loop (Suc n) s t m a = m a"
        unfolding e by (rule trans)
    qed
  qed
qed


section \<open>Properties\<close>

text \<open>
  C31: \<open>memset\<close> fills exactly the \<open>n\<close> bytes from \<open>dst\<close> with the low byte of \<open>c\<close>: the path that
  stores four bytes at a time does the same as the one that stores single bytes, for every
  address, count and value.
\<close>

theorem memset_fills: "memset dst c n m = (\<lambda>x. if x - dst < n then ucast c else m x)"
  by (rule memset_eq)

text \<open>
  C30: \<open>memmove\<close> moves \<open>n\<close> bytes even if the regions overlap: the destination holds what the
  source held before, and nothing else changes, as long as neither region wraps around the
  address space and the source does not end at its very top.
\<close>

theorem memmove_moves:
  assumes "unat src + unat n < 2 ^ 32" and "unat dst + unat n \<le> 2 ^ 32"
  shows "memmove dst src n m = (\<lambda>a. if a - dst < n then m (src + (a - dst)) else m a)"
  by (rule memmove_eq [OF assms])

theorem memmove_moves_witness: "memmove 102 100 4 (\<lambda>a. ucast a) 105 = 103"
proof -
  have "memmove 102 100 4 (\<lambda>a. ucast a) = (\<lambda>a. if a - 102 < 4 then ucast (100 + (a - 102)) else ucast a)"
    by (rule memmove_moves) simp_all
  then show ?thesis by simp
qed

text \<open>
  C33: \<open>safestrcpy\<close> always leaves a terminated string, the source cut to \<open>n - 1\<close> bytes, and touches
  only the \<open>n\<close> bytes of the destination.
\<close>

theorem safestrcpy_terminates:
  assumes "cstr m t xs" and "0 < n" and "n < 2 ^ 31" and "apart s (nat n) t (length xs)"
  shows "cstr (safestrcpy s t n m) s (take (nat (n - 1)) xs) \<and> (\<forall>a. nat n \<le> unat (a - s) \<longrightarrow> safestrcpy s t n m a = m a)"
proof -
  have n: "nat n = Suc (nat (n - 1))" "nat (n - 1) < 2 ^ 32 - 1" using assms(2,3) by auto
  from safestrcpy_loop_eq [of m t xs s "nat (n - 1)"] assms n show ?thesis
    by (simp add: safestrcpy_def less_eq_Suc_le)
qed

lemma apart_above:
  assumes "unat s + n \<le> unat t" and "unat t + len < 2 ^ 32"
  shows "apart s n t len"
proof (unfold apart_def, intro allI impI)
  fix j assume "j \<le> len"
  then have "unat (t + of_nat j) = unat t + j" using assms(2) by (simp add: unat_word_ariths unat_of_nat)
  moreover from this have "unat (t + of_nat j - s) = unat (t + of_nat j) - unat s"
    using assms(1) by (intro unat_sub) (simp add: word_le_nat_alt)
  ultimately show "n \<le> unat (t + of_nat j - s)" using assms(1) by simp
qed

definition hello_mem :: mem where
  "hello_mem a = (if a = 64 then 104 else if a = 65 then 105 else 0)"

theorem safestrcpy_terminates_witness: "cstr (safestrcpy 16 64 2 hello_mem) 16 [104]"
proof -
  have "cstr hello_mem 64 [104, 105]" by (simp add: hello_mem_def)
  moreover have "apart 16 (nat 2) 64 (length [104 :: byte, 105])"
    by (rule apart_above) simp_all
  ultimately show ?thesis using safestrcpy_terminates [of hello_mem 64 "[104, 105]" 2 16] by simp
qed

text \<open>
  C32: round trip of fixed-width names. After \<open>strncpy(s, t, n)\<close> the copy compares equal to the
  original under \<open>strncmp\<close> with the same bound, whether or not a terminator fits in.
\<close>

theorem strncpy_strncmp:
  assumes "0 \<le> n" and "n < 2 ^ 31" and "apart s (nat n) t (nat n)"
  shows "strncmp (strncpy s t n m) t s (word_of_int n) = 0"
proof -
  have k: "unat (word_of_int n :: uint) = nat n" using assms(1,2) by (simp add: unsigned_of_int take_bit_int_eq_self)
  have "nat n < 2 ^ 32" using assms(2) by simp
  note C = strncpy_loop_eq [OF assms(3) this, of m]
  let ?m = "strncpy_loop (nat n) s t m"
  have out: "?m (t + of_nat j) = m (t + of_nat j)" if "j < nat n" for j
    using C assms(3) that by (auto simp: apart_def)
  show ?thesis
    unfolding strncmp_def strncpy_def k strncmp_loop_0 using C out by simp
qed

theorem strncpy_strncmp_witness: "strncmp (strncpy 16 64 14 hello_mem) 64 16 14 = 0"
proof -
  have "apart 16 (nat 14) 64 (nat 14)"
    by (rule apart_above) simp_all
  then show ?thesis using strncpy_strncmp [of 14 16 64 hello_mem] by simp
qed

end
