(* ===== verification/Xv6_Fmt.thy ===== *)
theory Xv6_Fmt
  imports Xv6_String
begin

text \<open>
  Formatted output: \<open>printint\<close> and \<open>printf\<close> of the user library (\<open>printf.c\<close>) and \<open>printint\<close> and
  \<open>cprintf\<close> of the kernel (\<open>console.c\<close>), as the sequence of characters each hands to \<open>putc\<close> or
  \<open>consputc\<close>. The variable arguments are the list of words that follow the format on the stack;
  reading past them is undefined, and so is overrunning the 16-byte buffer of \<open>printint\<close>.
  A string argument is read from memory up to its terminator. Negating the least \<open>int\<close>, which C leaves
  undefined, wraps around here as it does on the machine.
\<close>

section \<open>Numbers\<close>

definition udigits :: "byte list" where
  "udigits = [48, 49, 50, 51, 52, 53, 54, 55, 56, 57, 65, 66, 67, 68, 69, 70]"

definition kdigits :: "byte list" where
  "kdigits = [48, 49, 50, 51, 52, 53, 54, 55, 56, 57, 97, 98, 99, 100, 101, 102]"

text \<open>The loop that fills \<open>buf\<close> from index \<open>i\<close>; the characters come least significant first.\<close>

function digit_loop :: "byte list \<Rightarrow> uint \<Rightarrow> uint \<Rightarrow> nat \<Rightarrow> byte list kres" where
  "digit_loop digits x base i =
    (if i \<ge> 16 \<or> base = 0 \<or> unat (x mod base) \<ge> length digits then Undefined
     else
       (let c = digits ! unat (x mod base); x' = x div base in
        if x' \<noteq> 0 then kbind (digit_loop digits x' base (i + 1)) (\<lambda>cs. Ok (c # cs)) else Ok [c]))"
  by pat_completeness auto
termination
  by (relation "measure (\<lambda>(digits, x, base, i). 16 - i)") auto

declare digit_loop.simps [simp del]

definition printint :: "uint \<Rightarrow> uint \<Rightarrow> bool \<Rightarrow> byte list kres" where
  "printint xx base sg =
    (let neg = sg \<and> sint xx < 0; x = (if neg then - xx else xx) in
     kbind (digit_loop udigits x base 0) (\<lambda>buf.
     if neg then if length buf \<ge> 16 then Undefined else Ok (rev (buf @ [45])) else Ok (rev buf)))"

definition kprintint :: "uint \<Rightarrow> uint \<Rightarrow> bool \<Rightarrow> byte list kres" where
  "kprintint xx base sign =
    (let neg = sign \<and> sint xx < 0; x = (if neg then - xx else xx) in
     kbind (digit_loop kdigits x base 0) (\<lambda>buf.
     if neg then if length buf \<ge> 16 then Undefined else Ok (rev (buf @ [45])) else Ok (rev buf)))"

section \<open>Formats\<close>

text \<open>The characters of a string, and of the string argument of a conversion.\<close>

partial_function (option) str_bytes :: "mem \<Rightarrow> uint \<Rightarrow> byte list option" where
  "str_bytes m s = (if m s = 0 then Some [] else Option.bind (str_bytes m (s + 1)) (\<lambda>cs. Some (m s # cs)))"

definition null_str :: "byte list" where
  "null_str = [40, 110, 117, 108, 108, 41]"

definition str_arg :: "mem \<Rightarrow> uint \<Rightarrow> byte list kres" where
  "str_arg m s = (if s = 0 then Ok null_str else of_loop (str_bytes m s))"

text \<open>\<open>printf\<close>: \<open>pct\<close> is the state after a percent sign.\<close>

fun printf_loop :: "mem \<Rightarrow> bool \<Rightarrow> byte list \<Rightarrow> uint list \<Rightarrow> byte list kres" where
  "printf_loop m pct [] ap = Ok []"
| "printf_loop m False (c # fmt) ap =
    (if c = 37 then printf_loop m True fmt ap
     else kbind (printf_loop m False fmt ap) (\<lambda>out. Ok (c # out)))"
| "printf_loop m True (c # fmt) ap =
    (if c = 100 then
       (case ap of [] \<Rightarrow> Undefined
        | a # ap \<Rightarrow> kbind (printint a 10 True) (\<lambda>cs. kbind (printf_loop m False fmt ap) (\<lambda>out. Ok (cs @ out))))
     else if c = 120 \<or> c = 112 then
       (case ap of [] \<Rightarrow> Undefined
        | a # ap \<Rightarrow> kbind (printint a 16 False) (\<lambda>cs. kbind (printf_loop m False fmt ap) (\<lambda>out. Ok (cs @ out))))
     else if c = 115 then
       (case ap of [] \<Rightarrow> Undefined
        | a # ap \<Rightarrow> kbind (str_arg m a) (\<lambda>cs. kbind (printf_loop m False fmt ap) (\<lambda>out. Ok (cs @ out))))
     else if c = 99 then
       (case ap of [] \<Rightarrow> Undefined
        | a # ap \<Rightarrow> kbind (printf_loop m False fmt ap) (\<lambda>out. Ok (ucast a # out)))
     else if c = 37 then kbind (printf_loop m False fmt ap) (\<lambda>out. Ok (c # out))
     else kbind (printf_loop m False fmt ap) (\<lambda>out. Ok (37 # c # out)))"

definition printf :: "mem \<Rightarrow> byte list \<Rightarrow> uint list \<Rightarrow> byte list kres" where
  "printf m fmt ap = printf_loop m False fmt ap"

fun cprintf_loop :: "mem \<Rightarrow> byte list \<Rightarrow> uint list \<Rightarrow> byte list kres" where
  "cprintf_loop m [] argp = Ok []"
| "cprintf_loop m (c # fmt) argp =
    (if c \<noteq> 37 then kbind (cprintf_loop m fmt argp) (\<lambda>out. Ok (c # out))
     else case fmt of [] \<Rightarrow> Ok []
       | c # fmt \<Rightarrow>
           if c = 100 then
             (case argp of [] \<Rightarrow> Undefined
              | a # argp \<Rightarrow> kbind (kprintint a 10 True) (\<lambda>cs. kbind (cprintf_loop m fmt argp) (\<lambda>out. Ok (cs @ out))))
           else if c = 120 \<or> c = 112 then
             (case argp of [] \<Rightarrow> Undefined
              | a # argp \<Rightarrow> kbind (kprintint a 16 False) (\<lambda>cs. kbind (cprintf_loop m fmt argp) (\<lambda>out. Ok (cs @ out))))
           else if c = 115 then
             (case argp of [] \<Rightarrow> Undefined
              | a # argp \<Rightarrow> kbind (str_arg m a) (\<lambda>cs. kbind (cprintf_loop m fmt argp) (\<lambda>out. Ok (cs @ out))))
           else if c = 37 then kbind (cprintf_loop m fmt argp) (\<lambda>out. Ok (37 # out))
           else kbind (cprintf_loop m fmt argp) (\<lambda>out. Ok (37 # c # out)))"

definition cprintf :: "mem \<Rightarrow> byte list \<Rightarrow> uint list \<Rightarrow> byte list kres" where
  "cprintf m fmt argp = cprintf_loop m fmt argp"

section \<open>What is printed reads back\<close>

text \<open>The value of a sequence of decimal characters, most significant first.\<close>

definition dec_value :: "byte list \<Rightarrow> int" where
  "dec_value cs = foldl (\<lambda>n c. n * 10 + (uint c - 48)) 0 cs"

definition dec_digit :: "byte \<Rightarrow> bool" where
  "dec_digit c \<longleftrightarrow> 48 \<le> c \<and> c \<le> 57"

lemma dec_value_Cons_rev: "dec_value (rev (c # cs)) = dec_value (rev cs) * 10 + (uint c - 48)"
  by (simp add: dec_value_def)

lemma decimal_digits:
  fixes d :: nat
  assumes "digits = udigits \<or> digits = kdigits" and "d < 10"
  shows "d < length digits" "dec_digit (digits ! d)" "uint (digits ! d) = int d + 48"
proof -
  have "list_all (\<lambda>ds. list_all (\<lambda>d. d < length ds \<and> dec_digit (ds ! d) \<and> uint (ds ! d) = int d + 48) [0..<10]) [udigits, kdigits]"
    by code_simp
  then show "d < length digits" "dec_digit (digits ! d)" "uint (digits ! d) = int d + 48"
    using assms by (auto simp: list_all_iff)
qed

text \<open>A number below \<open>10 ^ k\<close> has at most \<open>k\<close> decimal characters.\<close>

lemma digit_loop_10:
  assumes "digits = udigits \<or> digits = kdigits" and "unat x < 10 ^ Suc k" and "i + Suc k \<le> 16"
  shows "\<exists>cs. digit_loop digits x 10 i = Ok cs \<and> length cs \<le> Suc k \<and> cs \<noteq> [] \<and> (\<forall>c \<in> set cs. dec_digit c) \<and>
    dec_value (rev cs) = uint x"
  using assms(2,3)
proof (induction k arbitrary: x i)
  case 0
  have x: "unat x < 10" using 0 by simp
  then have m: "unat (x mod 10) = unat x" "unat (x div 10) = 0" by (simp_all add: unat_mod unat_div)
  have m2: "x div 10 = 0" using m(2) by (simp only: unat_eq_0)
  note D = decimal_digits [OF assms(1), of "unat x"]
  have "digit_loop digits x 10 i = Ok [digits ! unat x]" using 0 D x m m2 by (subst digit_loop.simps) simp
  moreover have "uint (digits ! unat x) - 48 = uint x" using D x by simp
  ultimately show ?case using D x by (auto simp: dec_value_def)
next
  case (Suc k)
  have ux: "unat (x mod 10) = unat x mod 10" "unat (x div 10) = unat x div 10" by (simp_all add: unat_mod unat_div)
  note D = decimal_digits [OF assms(1), of "unat x mod 10"]
  let ?c = "digits ! (unat x mod 10)"
  have g: "\<not> (i \<ge> 16 \<or> (10 :: uint) = 0 \<or> unat (x mod 10) \<ge> length digits)" using Suc.prems D ux by simp
  show ?case
  proof (cases "x div 10 = 0")
    case True
    then have "unat x div 10 = 0" using ux(2) by simp
    then have "unat x < 10" by simp
    moreover have "digit_loop digits x 10 i = Ok [?c]" using g True ux by (subst digit_loop.simps) simp
    moreover have "unat x mod 10 = unat x" using \<open>unat x < 10\<close> by simp
    ultimately show ?thesis using D by (auto simp: dec_value_def)
  next
    case False
    have "\<exists>cs. digit_loop digits (x div 10) 10 (i + 1) = Ok cs \<and> length cs \<le> Suc k \<and> cs \<noteq> [] \<and> (\<forall>c \<in> set cs. dec_digit c) \<and>
        dec_value (rev cs) = uint (x div 10)"
      by (rule Suc.IH) (use Suc.prems in \<open>simp_all add: ux\<close>)
    then obtain cs where cs: "digit_loop digits (x div 10) 10 (i + 1) = Ok cs" "length cs \<le> Suc k" "cs \<noteq> []"
        "\<forall>c \<in> set cs. dec_digit c" "dec_value (rev cs) = uint (x div 10)"
      by blast
    have "digit_loop digits x 10 i = Ok (?c # cs)" using g False cs(1) ux by (subst digit_loop.simps) simp
    moreover have "dec_value (rev (?c # cs)) = uint x"
    proof -
      have "uint (x div 10) * 10 + int (unat x mod 10) = uint x"
      proof -
        have "int (unat (x div 10) * 10 + unat x mod 10) = int (unat x)" by (simp only: ux div_mult_mod_eq)
        then show ?thesis by (simp add: of_nat_mod)
      qed
      then show ?thesis using cs(5) D unfolding dec_value_Cons_rev by simp
    qed
    ultimately show ?thesis using cs D by auto
  qed
qed

lemma atoi_done: "\<not> dec_digit (m s) \<Longrightarrow> atoi_loop m s n = Some (Ok n)"
  by (subst atoi_loop.simps) (auto simp: dec_digit_def)

lemma atoi_step:
  "dec_digit (m s) \<Longrightarrow> n * 10 + uint (m s) < 2 ^ 31 \<Longrightarrow> atoi_loop m s n = atoi_loop m (s + 1) (n * 10 + (uint (m s) - 48))"
  by (subst atoi_loop.simps) (simp add: dec_digit_def Let_def algebra_simps)

lemma dec_digit_range: "dec_digit c \<Longrightarrow> 48 \<le> uint c \<and> uint c \<le> 57"
  by (simp add: dec_digit_def word_le_def)

lemma foldl_dec_mono:
  "0 \<le> n \<Longrightarrow> \<forall>c \<in> set cs. dec_digit c \<Longrightarrow> n \<le> foldl (\<lambda>n c. n * 10 + (uint c - 48)) n cs"
proof (induction cs arbitrary: n)
  case (Cons c cs)
  have c: "48 \<le> uint c" using Cons.prems dec_digit_range by simp
  have "n * 10 + (uint c - 48) \<le> foldl (\<lambda>n c. n * 10 + (uint c - 48)) (n * 10 + (uint c - 48)) cs"
    by (rule Cons.IH) (use Cons.prems c in auto)
  then show ?case using Cons.prems c by simp
qed simp

lemma atoi_digits:
  assumes "\<forall>c \<in> set cs. dec_digit c" and "cstr m s cs" and "0 \<le> n"
    and "foldl (\<lambda>n c. n * 10 + (uint c - 48)) n cs < 2 ^ 31 - 48"
  shows "atoi_loop m s n = Some (Ok (foldl (\<lambda>n c. n * 10 + (uint c - 48)) n cs))"
  using assms
proof (induction cs arbitrary: s n)
  case Nil
  then show ?case by (simp add: atoi_done dec_digit_def)
next
  case (Cons c cs)
  have c: "dec_digit c" "m s = c" "cstr m (s + 1) cs" "48 \<le> uint c" using Cons.prems dec_digit_range by auto
  have n': "0 \<le> n * 10 + (uint c - 48)" using Cons.prems(3) c by simp
  have "n * 10 + (uint c - 48) \<le> foldl (\<lambda>n c. n * 10 + (uint c - 48)) (n * 10 + (uint c - 48)) cs"
    by (rule foldl_dec_mono [OF n']) (use Cons.prems in simp)
  then have "n * 10 + uint c < 2 ^ 31" using Cons.prems(4) by simp
  then have "atoi_loop m s n = atoi_loop m (s + 1) (n * 10 + (uint c - 48))" using atoi_step [of m s n] c by simp
  also have "\<dots> = Some (Ok (foldl (\<lambda>n c. n * 10 + (uint c - 48)) (n * 10 + (uint c - 48)) cs))"
    by (rule Cons.IH) (use Cons.prems c n' in simp_all)
  finally show ?case by simp
qed

lemma printint_10:
  assumes "0 \<le> sint xx"
  shows "\<exists>cs. printint xx 10 sg = Ok cs \<and> (\<forall>c \<in> set cs. dec_digit c) \<and> dec_value cs = sint xx"
proof -
  have s: "sint xx = uint xx" using assms sint_less [of xx] by (simp add: uint_sint [of xx] take_bit_int_eq_self)
  have "unat xx < 10 ^ Suc 9" by (rule less_le_trans [OF unat_uint_less]) simp
  from digit_loop_10 [OF _ this, of udigits 0] obtain cs
    where cs: "digit_loop udigits xx 10 0 = Ok cs" "\<forall>c \<in> set cs. dec_digit c" "dec_value (rev cs) = uint xx" by auto
  then show ?thesis using assms s by (auto simp: printint_def)
qed

lemma digit_loop_same: "digit_loop udigits x 10 i = digit_loop kdigits x 10 i"
proof (induction udigits x "10 :: uint" i rule: digit_loop.induct)
  case (1 x i)
  have "unat (x mod 10) < 10" by (simp add: unat_mod)
  moreover have "list_all (\<lambda>d. udigits ! d = kdigits ! d) [0..<10]" by code_simp
  ultimately have d: "udigits ! unat (x mod 10) = kdigits ! unat (x mod 10)" by (simp add: list_all_iff)
  have l: "length udigits = length kdigits" by (simp add: udigits_def kdigits_def)
  show ?case
    by (subst (1 2) digit_loop.simps) (use 1 d l in \<open>auto simp: Let_def\<close>)
qed

lemma kprintint_10: "kprintint xx 10 sg = printint xx 10 sg"
  by (simp add: kprintint_def printint_def digit_loop_same)

text \<open>The formats that the two routines treat alike: no \<open>%x\<close>, \<open>%p\<close> and \<open>%c\<close>.\<close>

fun plain_fmt :: "byte list \<Rightarrow> bool" where
  "plain_fmt [] \<longleftrightarrow> True"
| "plain_fmt (c # fmt) \<longleftrightarrow>
    (if c \<noteq> 37 then plain_fmt fmt
     else case fmt of [] \<Rightarrow> True | c # fmt \<Rightarrow> c \<notin> {99, 112, 120} \<and> plain_fmt fmt)"

lemma printf_cprintf: "plain_fmt fmt \<Longrightarrow> printf_loop m False fmt ap = cprintf_loop m fmt ap"
proof (induction fmt arbitrary: ap rule: plain_fmt.induct)
  case (2 c fmt)
  show ?case
  proof (cases "c = 37")
    case False
    then show ?thesis using 2 by simp
  next
    case True
    then show ?thesis using 2 by (cases fmt) (auto simp: kprintint_10 split: list.splits)
  qed
qed simp

section \<open>Properties\<close>

text \<open>
  C34: what \<open>printint\<close> prints in base 10 reads back with \<open>atoi\<close> as the same number, for every
  non-negative \<open>int\<close> below \<open>2 ^ 31 - 48\<close>. (For the 48 numbers above, the sum that \<open>atoi\<close> forms
  before it subtracts the character code overflows.)
\<close>

theorem atoi_printint:
  assumes "0 \<le> sint xx" and "sint xx < 2 ^ 31 - 48"
  shows "\<exists>cs. printint xx 10 sg = Ok cs \<and> (\<forall>m s. cstr m s cs \<longrightarrow> atoi m s = Ok (sint xx))"
proof -
  obtain cs where cs: "printint xx 10 sg = Ok cs" "\<forall>c \<in> set cs. dec_digit c" "dec_value cs = sint xx"
    using printint_10 [OF assms(1)] by blast
  have "atoi m s = Ok (sint xx)" if "cstr m s cs" for m s
    using atoi_digits [OF cs(2) that, of 0] cs(3) assms(2) by (simp add: atoi_def dec_value_def)
  then show ?thesis using cs(1) by blast
qed

theorem atoi_printint_witness: "\<exists>cs. printint 1550 10 True = Ok cs \<and> (\<nexists>m s. cstr m s cs \<and> atoi m s \<noteq> Ok 1550)"
  using atoi_printint [of 1550 True] by force

text \<open>
  C35: the user library's \<open>printf\<close> and the kernel's \<open>cprintf\<close> print the same characters for every
  format without \<open>%x\<close>, \<open>%p\<close> and \<open>%c\<close> and the same arguments, and fail alike when arguments
  are missing.
\<close>

theorem printf_eq_cprintf:
  assumes "plain_fmt fmt"
  shows "printf m fmt ap = cprintf m fmt ap"
  by (simp add: printf_def cprintf_def printf_cprintf [OF assms])

theorem printf_eq_cprintf_witness:
  "printf (\<lambda>_. 0) [37, 100, 32, 37, 37] [7] = cprintf (\<lambda>_. 0) [37, 100, 32, 37, 37] [7]"
  by (rule printf_eq_cprintf) simp

end
