(* ===== verification/Xv6_Console.thy ===== *)
theory Xv6_Console
  imports Ring Xv6_Fmt
begin

text \<open>
  The keyboard (\<open>kbd.c\<close>, \<open>kbd.h\<close>) and the console (\<open>console.c\<close>). The keyboard is a state machine
  over scan codes with the four translation tables of the header. The console's state is the
  screen memory with the cursor, what has gone to the serial port, and the input buffer
  with its three counters. Characters are natural numbers, since \<open>BACKSPACE\<close> is not a byte.
  The console lock is held over each operation, so operations are atomic; a read that has
  to wait reports where it stopped.
\<close>

section \<open>The keyboard\<close>

definition chars :: "string \<Rightarrow> byte list" where
  "chars cs = map of_char cs"

text \<open>A C array of 256 bytes with positional and designated initialisers.\<close>

definition ctable :: "byte list \<Rightarrow> (nat \<times> byte) list \<Rightarrow> byte list" where
  "ctable pos des = foldl (\<lambda>t (i, v). t[i := v]) (pos @ replicate (256 - length pos) 0) des"

definition KBS_DIB :: byte where "KBS_DIB = 0x01"
definition SHIFT :: uint where "SHIFT = 1"
definition CTL :: uint where "CTL = 2"
definition ALT :: uint where "ALT = 4"
definition CAPSLOCK :: uint where "CAPSLOCK = 8"
definition NUMLOCK :: uint where "NUMLOCK = 16"
definition SCROLLLOCK :: uint where "SCROLLLOCK = 32"
definition E0ESC :: uint where "E0ESC = 64"

lemmas kbd_consts = SHIFT_def CTL_def ALT_def CAPSLOCK_def NUMLOCK_def SCROLLLOCK_def E0ESC_def

text \<open>The special keys, \<open>KEY_HOME\<close> to \<open>KEY_DEL\<close>, which the three maps place alike.\<close>

definition special_keys :: "(nat \<times> byte) list" where
  "special_keys =
    [(0xC8, 0xE2), (0xD0, 0xE3), (0xC9, 0xE6), (0xD1, 0xE7), (0xCB, 0xE4), (0xCD, 0xE5),
     (0x97, 0xE0), (0xCF, 0xE1), (0xD2, 0xE8), (0xD3, 0xE9)]"

definition shiftcode :: "byte list" where
  "shiftcode = ctable [] [(0x1D, 2), (0x2A, 1), (0x36, 1), (0x38, 4), (0x9D, 2), (0xB8, 4)]"

definition togglecode :: "byte list" where
  "togglecode = ctable [] [(0x3A, 8), (0x45, 16), (0x46, 32)]"

definition normalmap :: "byte list" where
  "normalmap =
    ctable
      ([0, 0x1B] @ chars ''1234567890-='' @ [8, 9] @
       chars ''qwertyuiop[]'' @ [10, 0] @ chars ''asdfghjkl;'' @ [39, 96, 0, 92] @
       chars ''zxcvbnm,./'' @ [0, 42, 0, 32, 0, 0, 0, 0, 0, 0, 0, 0, 0, 0, 0, 0, 0] @
       chars ''789-456+1230.'' @ [0, 0, 0, 0])
      ([(0x9C, 10), (0xB5, 47)] @ special_keys)"

definition shiftmap :: "byte list" where
  "shiftmap =
    ctable
      ([0, 27] @ chars ''!@#$%^&*()_+'' @ [8, 9] @
       chars ''QWERTYUIOP{}'' @ [10, 0] @ chars ''ASDFGHJKL:'' @ [34, 126, 0, 124] @
       chars ''ZXCVBNM<>?'' @ [0, 42, 0, 32, 0, 0, 0, 0, 0, 0, 0, 0, 0, 0, 0, 0, 0] @
       chars ''789-456+1230.'' @ [0, 0, 0, 0])
      ([(0x9C, 10), (0xB5, 47)] @ special_keys)"

text \<open>\<open>C('x')\<close> is the character minus the at sign.\<close>

definition ctl_char :: "byte \<Rightarrow> byte" where
  "ctl_char c = c - 64"

definition ctlmap :: "byte list" where
  "ctlmap =
    ctable
      (replicate 16 0 @ map ctl_char (chars ''QWERTYUIOP'') @ [0, 0, 13, 0] @ map ctl_char (chars ''ASDFGHJKL'') @
       [0, 0, 0, 0, ctl_char 92] @ map ctl_char (chars ''ZXCVBNM'') @ [0, 0, ctl_char 47, 0, 0])
      ([(0x9C, 13), (0xB5, ctl_char 47)] @ special_keys)"

definition charcode :: "uint \<Rightarrow> byte list" where
  "charcode i = (if i = 0 then normalmap else if i = 1 then shiftmap else ctlmap)"

text \<open>
  \<open>kbdgetc\<close>: the status and the data byte the ports deliver and the static variable \<open>shift\<close>;
  the result is the character (0 for none, -1 if no byte waits) and the new \<open>shift\<close>.
\<close>

definition kbdgetc :: "byte \<Rightarrow> byte \<Rightarrow> uint \<Rightarrow> int \<times> uint" where
  "kbdgetc st data shift =
    (if st AND KBS_DIB = 0 then (-1, shift)
     else if data = 0xE0 then (0, shift OR E0ESC)
     else if data AND 0x80 \<noteq> 0 then
       (let data = (if shift AND E0ESC \<noteq> 0 then data else data AND 0x7F) in
        (0, shift AND NOT (ucast (shiftcode ! unat data) OR E0ESC)))
     else
       (let (data, shift) = (if shift AND E0ESC \<noteq> 0 then (data OR 0x80, shift AND NOT E0ESC) else (data, shift));
            shift = shift OR ucast (shiftcode ! unat data);
            shift = shift XOR ucast (togglecode ! unat data);
            c = uint (charcode (shift AND (CTL OR SHIFT)) ! unat data);
            c = (if shift AND CAPSLOCK \<noteq> 0
                 then if 97 \<le> c \<and> c \<le> 122 then c + 65 - 97
                   else if 65 \<le> c \<and> c \<le> 90 then c + 97 - 65 else c
                 else c)
        in (c, shift)))"

section \<open>The screen\<close>

definition BACKSPACE :: nat where "BACKSPACE = 0x100"
definition INPUT_BUF :: nat where "INPUT_BUF = 128"

record console =
  panicked :: bool
  crt :: "ushort list"
  cursor :: nat
  serial :: "byte list"
  ibuf :: "byte list"
  ir :: uint
  iw :: uint
  ie :: uint
  wakeups :: nat

text \<open>The screen has 25 rows of 80 cells; a store outside it is undefined.\<close>

definition CELLS :: nat where "CELLS = 25 * 80"

definition put_cell :: "nat \<Rightarrow> ushort \<Rightarrow> ushort list \<Rightarrow> ushort list kres" where
  "put_cell pos v t = (if pos < length t then Ok (t[pos := v]) else Undefined)"

definition cgaputc :: "nat \<Rightarrow> console \<Rightarrow> console kres" where
  "cgaputc c s =
    (let pos = cursor s in
     kbind
       (if c = 10 then Ok (pos + (80 - pos mod 80), crt s)
        else if c = BACKSPACE then Ok (pos - 1, crt s)
        else kbind (put_cell pos (of_nat (c mod 256) OR 0x0700) (crt s)) (\<lambda>t. Ok (pos + 1, t)))
       (\<lambda>(pos, t).
     if pos > 25 * 80 then Panic ''pos under/overflow''
     else
       (let (pos, t) =
          (if pos div 80 \<ge> 24
           then
             (let t = splice 0 (slice 80 (23 * 80) t) t; pos = pos - 80
              in (pos, splice pos (replicate (24 * 80 - pos) 0) t))
           else (pos, t))
        in kbind (put_cell pos (32 OR 0x0700) t) (\<lambda>t. Ok (s\<lparr>crt := t, cursor := pos\<rparr>)))))"

definition consputc :: "nat \<Rightarrow> console \<Rightarrow> console kres" where
  "consputc c s =
    (if panicked s then Diverges
     else
       (let s = (if c = BACKSPACE then s\<lparr>serial := serial s @ [8, 32, 8]\<rparr> else s\<lparr>serial := serial s @ [of_nat c]\<rparr>)
        in cgaputc c s))"

section \<open>Line editing\<close>

text \<open>The loop of the kill character, bounded by the number of characters it may erase.\<close>

primrec kill_line :: "nat \<Rightarrow> console \<Rightarrow> console kres" where
  "kill_line 0 s = (if ie s \<noteq> iw s \<and> ibuf s ! (unat (ie s - 1) mod INPUT_BUF) \<noteq> 10 then Undefined else Ok s)"
| "kill_line (Suc k) s =
    (if ie s \<noteq> iw s \<and> ibuf s ! (unat (ie s - 1) mod INPUT_BUF) \<noteq> 10
     then kbind (consputc BACKSPACE (s\<lparr>ie := ie s - 1\<rparr>)) (kill_line k)
     else Ok s)"

text \<open>One round of the loop of \<open>consoleintr\<close>; the flag asks for a process listing.\<close>

definition console_key :: "nat \<Rightarrow> console \<times> bool \<Rightarrow> (console \<times> bool) kres" where
  "console_key c st =
    (case st of (s, dump) \<Rightarrow>
       if c = 16 then Ok (s, True)
       else if c = 21 then kbind (kill_line (unat (ie s - iw s)) s) (\<lambda>s. Ok (s, dump))
       else if c = 8 \<or> c = 127 then
         if ie s \<noteq> iw s then kbind (consputc BACKSPACE (s\<lparr>ie := ie s - 1\<rparr>)) (\<lambda>s. Ok (s, dump)) else Ok (s, dump)
       else if c \<noteq> 0 \<and> ie s - ir s < of_nat INPUT_BUF then
         (let c = (if c = 13 then 10 else c);
              s = s\<lparr>ibuf := (ibuf s)[unat (ie s) mod INPUT_BUF := of_nat c], ie := ie s + 1\<rparr>
          in kbind (consputc c s) (\<lambda>s.
             if c = 10 \<or> c = 4 \<or> ie s = ir s + of_nat INPUT_BUF
             then Ok (s\<lparr>iw := ie s, wakeups := wakeups s + 1\<rparr>, dump)
             else Ok (s, dump)))
       else Ok (s, dump))"

primrec consoleintr_loop :: "nat list \<Rightarrow> console \<times> bool \<Rightarrow> (console \<times> bool) kres" where
  "consoleintr_loop [] st = Ok st"
| "consoleintr_loop (c # cs) st = kbind (console_key c st) (consoleintr_loop cs)"

text \<open>\<open>consoleintr\<close>, for the characters \<open>getc\<close> delivers before it has none.\<close>

definition consoleintr :: "nat list \<Rightarrow> console \<Rightarrow> (console \<times> bool) kres" where
  "consoleintr cs s = consoleintr_loop cs (s, False)"

section \<open>Reading and writing\<close>

text \<open>
  A read either returns a value, or has to sleep with \<open>n\<close> bytes still to fill, to go on from there
  when it is woken. The bytes are what it has stored through \<open>dst\<close>.
\<close>

datatype cread = Returned int | Waits nat

primrec consoleread_loop :: "bool \<Rightarrow> nat \<Rightarrow> nat \<Rightarrow> console \<Rightarrow> cread \<times> byte list \<times> console" where
  "consoleread_loop killed target 0 s = (Returned (int target), [], s)"
| "consoleread_loop killed target (Suc n) s =
    (if ir s = iw s then (if killed then Returned (-1) else Waits (Suc n), [], s)
     else
       (let c = ibuf s ! (unat (ir s) mod INPUT_BUF); s1 = s\<lparr>ir := ir s + 1\<rparr> in
        if c = 4 then
          (Returned (int target - int (Suc n)), [], if Suc n < target then s1\<lparr>ir := ir s1 - 1\<rparr> else s1)
        else if c = 10 then (Returned (int target - int n), [c], s1)
        else case consoleread_loop killed target n s1 of (r, cs, s2) \<Rightarrow> (r, c # cs, s2)))"

definition consoleread :: "bool \<Rightarrow> nat \<Rightarrow> console \<Rightarrow> cread \<times> byte list \<times> console" where
  "consoleread killed n s = consoleread_loop killed n n s"

primrec consolewrite :: "byte list \<Rightarrow> console \<Rightarrow> console kres" where
  "consolewrite [] s = Ok s"
| "consolewrite (b # bs) s = kbind (consputc (unat b) s) (consolewrite bs)"

section \<open>The screen never overflows\<close>

definition screen_ok :: "console \<Rightarrow> bool" where
  "screen_ok s \<longleftrightarrow> length (crt s) = CELLS \<and> cursor s < 24 * 80 \<and> \<not> panicked s"

text \<open>The states that differ from \<open>s\<close> only in what is shown.\<close>

definition redrawn :: "console \<Rightarrow> console \<Rightarrow> bool" where
  "redrawn s s' \<longleftrightarrow> screen_ok s' \<and> (\<exists>t p u. s' = s\<lparr>crt := t, cursor := p, serial := u\<rparr>)"

lemma redrawnD:
  assumes "redrawn s s'"
  shows "screen_ok s'" "ibuf s' = ibuf s" "ir s' = ir s" "iw s' = iw s" "ie s' = ie s" "wakeups s' = wakeups s"
  using assms by (auto simp: redrawn_def)

lemma redrawnI: "screen_ok (s\<lparr>crt := t, cursor := p\<rparr>) \<Longrightarrow> redrawn s (s\<lparr>crt := t, cursor := p\<rparr>)"
  unfolding redrawn_def by (intro conjI exI [of _ t] exI [of _ p] exI [of _ "serial s"]) simp_all

lemma cgaputc_ok:
  assumes "screen_ok s"
  shows "\<exists>s'. cgaputc c s = Ok s' \<and> redrawn s s'"
proof -
  let ?pos = "cursor s"
  have ok: "length (crt s) = 2000" "?pos < 1920" "\<not> panicked s" using assms by (auto simp: screen_ok_def CELLS_def)
  define r where "r = (if c = 10 then Ok (?pos + (80 - ?pos mod 80), crt s)
        else if c = BACKSPACE then Ok (?pos - 1, crt s)
        else kbind (put_cell ?pos (of_nat (c mod 256) OR 0x0700) (crt s)) (\<lambda>t. Ok (?pos + 1, t)))"
  have "?pos + (80 - ?pos mod 80) \<le> 1920"
  proof -
    have "?pos div 80 < 24" using ok(2) by simp
    then have "?pos div 80 + 1 \<le> 24" by simp
    then have "80 * (?pos div 80 + 1) \<le> 1920" by simp
    moreover have "a + (80 - b) \<le> 1920" if "80 * (k + 1) \<le> 1920" "80 * k + b = a" "b < 80" for a b k :: nat
      using that by auto
    ultimately show ?thesis using mult_div_mod_eq [of 80 ?pos] by (metis mod_less_divisor zero_less_numeral)
  qed
  then have "\<exists>pos t. r = Ok (pos, t) \<and> length t = 2000 \<and> pos \<le> 1920"
    using ok by (cases "c = 10"; cases "c = BACKSPACE") (simp_all add: r_def put_cell_def)
  then obtain pos t where r: "r = Ok (pos, t)" "length t = 2000" "pos \<le> 1920" by blast
  have e: "cgaputc c s = kbind r (\<lambda>(pos, t).
     if pos > 25 * 80 then Panic ''pos under/overflow''
     else
       (let (pos, t) =
          (if pos div 80 \<ge> 24
           then
             (let t = splice 0 (slice 80 (23 * 80) t) t; pos = pos - 80
              in (pos, splice pos (replicate (24 * 80 - pos) 0) t))
           else (pos, t))
        in kbind (put_cell pos (32 OR 0x0700) t) (\<lambda>t. Ok (s\<lparr>crt := t, cursor := pos\<rparr>))))"
    by (simp only: cgaputc_def Let_def r_def)
  show ?thesis
  proof (cases "pos = 1920")
    case True
    then show ?thesis unfolding e using r ok by (simp add: put_cell_def redrawnI screen_ok_def CELLS_def)
  next
    case False
    then have "pos < 1920" "\<not> 24 \<le> pos div 80" using r(3) by linarith+
    then show ?thesis unfolding e using r ok by (simp add: put_cell_def redrawnI screen_ok_def CELLS_def)
  qed
qed

lemma consputc_ok:
  assumes "screen_ok s"
  shows "\<exists>s'. consputc c s = Ok s' \<and> redrawn s s'"
proof -
  let ?u = "\<lambda>u. s\<lparr>serial := u\<rparr>"
  have "\<exists>s'. cgaputc c (?u u) = Ok s' \<and> redrawn s s'" for u
    using cgaputc_ok [of "?u u" c] assms by (auto simp: screen_ok_def redrawn_def)
  moreover have "\<exists>u. consputc c s = cgaputc c (?u u)"
    using assms by (auto simp: consputc_def screen_ok_def)
  ultimately show ?thesis by metis
qed

lemma consolewrite_ok: "screen_ok s \<Longrightarrow> \<exists>s'. consolewrite bs s = Ok s' \<and> screen_ok s'"
proof (induction bs arbitrary: s)
  case (Cons b bs)
  obtain s1 where s1: "consputc (unat b) s = Ok s1" "redrawn s s1" using consputc_ok [OF Cons.prems] by blast
  from Cons.IH [OF redrawnD(1) [OF s1(2)]] s1 show ?case by auto
qed simp

section \<open>The input buffer as two lists\<close>

text \<open>
  \<open>q\<close> is what waits to be read and \<open>l\<close> the line being edited: the bytes from the read to the write
  counter and from the write to the edit counter.
\<close>

interpretation cin: ring_size INPUT_BUF
  by unfold_locales (simp_all add: INPUT_BUF_def)

definition cons_rep :: "console \<Rightarrow> byte list \<Rightarrow> byte list \<Rightarrow> bool" where
  "cons_rep s q l \<longleftrightarrow> screen_ok s \<and> length (ibuf s) = INPUT_BUF \<and> length q + length l \<le> INPUT_BUF \<and>
     iw s = ir s + of_nat (length q) \<and> ie s = iw s + of_nat (length l) \<and>
     ring INPUT_BUF (ibuf s) (ir s) (length q + length l) = q @ l \<and> 10 \<notin> set l"

lemma cons_repD:
  assumes "cons_rep s q l"
  shows "screen_ok s" "length (ibuf s) = INPUT_BUF" "length q + length l \<le> INPUT_BUF" "iw s = ir s + of_nat (length q)"
    "ie s = iw s + of_nat (length l)" "ring INPUT_BUF (ibuf s) (ir s) (length q + length l) = q @ l" "10 \<notin> set l"
    "ie s = ir s + of_nat (length q + length l)" "length q \<le> 128" "length l \<le> 128"
  using assms by (auto simp: cons_rep_def INPUT_BUF_def add.assoc)

lemma cons_rep_empty_line:
  assumes "cons_rep s q l" shows "ie s = iw s \<longleftrightarrow> l = []" "unat (ie s - iw s) = length l" "unat (ie s - ir s) = length q + length l"
    "ir s = iw s \<longleftrightarrow> q = []"
proof -
  note D = cons_repD [OF assms]
  have u: "unat (of_nat n :: uint) = n" if "n \<le> 128" for n using that by (simp add: unat_of_nat)
  show l: "unat (ie s - iw s) = length l" "unat (ie s - ir s) = length q + length l"
  proof -
    show "unat (ie s - iw s) = length l" using D(5,10) u [of "length l"] by simp
    have "ie s - ir s = of_nat (length q + length l)" using D(8) by simp
    then show "unat (ie s - ir s) = length q + length l" using u [of "length q + length l"] D(3) by (simp only: INPUT_BUF_def)
  qed
  have "ie s = iw s \<longleftrightarrow> unat (ie s - iw s) = 0" by (simp add: unat_eq_0)
  then show "ie s = iw s \<longleftrightarrow> l = []" using l by simp
  have "ir s = iw s \<longleftrightarrow> unat (of_nat (length q) :: uint) = 0" using D(4) by (simp only: unat_eq_0) simp
  then show "ir s = iw s \<longleftrightarrow> q = []" using u [of "length q"] D(9) by simp
qed

lemma cons_rep_redrawn: "cons_rep s q l \<Longrightarrow> redrawn s s' \<Longrightarrow> cons_rep s' q l"
  using redrawnD [of s s'] by (simp add: cons_rep_def)

text \<open>Erasing the last character of the line.\<close>

lemma cons_rep_erase:
  assumes "cons_rep s q (l @ [x])"
  shows "cons_rep (s\<lparr>ie := ie s - 1\<rparr>) q l" "ibuf s ! (unat (ie s - 1) mod INPUT_BUF) = x"
proof -
  note D = cons_repD [OF assms]
  have e: "ie s - 1 = ir s + of_nat (length q + length l)" using D(8) by simp
  have r: "ring INPUT_BUF (ibuf s) (ir s) (length q + length l) @ [ibuf s ! (unat (ie s - 1) mod INPUT_BUF)] = (q @ l) @ [x]"
    using D(6) by (simp add: ring_snoc e)
  then show "ibuf s ! (unat (ie s - 1) mod INPUT_BUF) = x" by simp
  show "cons_rep (s\<lparr>ie := ie s - 1\<rparr>) q l"
    using D r by (auto simp: cons_rep_def screen_ok_def)
qed

lemma kill_queued_ok:
  "cons_rep s q l \<Longrightarrow> \<exists>s'. kill_line (length l) s = Ok s' \<and> cons_rep s' q []"
proof (induction l arbitrary: s rule: rev_induct)
  case Nil
  then show ?case using cons_rep_empty_line(1) [OF Nil] by simp
next
  case (snoc x l)
  note E = cons_rep_erase [OF snoc.prems]
  have ne: "ie s \<noteq> iw s" "x \<noteq> 10" using cons_rep_empty_line(1) [OF snoc.prems] cons_repD(7) [OF snoc.prems] by auto
  obtain s1 where s1: "consputc BACKSPACE (s\<lparr>ie := ie s - 1\<rparr>) = Ok s1" "redrawn (s\<lparr>ie := ie s - 1\<rparr>) s1"
    using consputc_ok [OF cons_repD(1) [OF E(1)]] by blast
  from snoc.IH [OF cons_rep_redrawn [OF E(1) s1(2)]] s1 show ?case using ne E(2) by simp
qed

text \<open>Adding a character to the line, and handing the line over.\<close>

lemma cons_rep_add:
  assumes "cons_rep s q l" and "length q + length l < INPUT_BUF" and "x \<noteq> 10"
  shows "cons_rep (s\<lparr>ibuf := (ibuf s)[unat (ie s) mod INPUT_BUF := x], ie := ie s + 1\<rparr>) q (l @ [x])"
proof -
  note D = cons_repD [OF assms(1)]
  have "ring INPUT_BUF ((ibuf s)[unat (ie s) mod INPUT_BUF := x]) (ir s) (Suc (length q + length l)) = (q @ l) @ [x]"
    using cin.ring_push [OF D(2) assms(2), of "ir s" x] D(6,8) by simp
  then show ?thesis using D assms(2,3) by (simp add: cons_rep_def screen_ok_def add.assoc)
qed


lemma cons_rep_commit:
  assumes "screen_ok s" and "length (ibuf s) = INPUT_BUF" and "length q \<le> INPUT_BUF" and "ie s = ir s + of_nat (length q)"
    and "ring INPUT_BUF (ibuf s) (ir s) (length q) = q"
  shows "cons_rep (s\<lparr>iw := ie s, wakeups := n\<rparr>) q []"
  using assms by (simp add: cons_rep_def screen_ok_def)

subsection \<open>What a key does\<close>

definition edit :: "nat \<Rightarrow> byte list \<times> byte list \<Rightarrow> byte list \<times> byte list" where
  "edit c ql =
    (case ql of (q, l) \<Rightarrow>
       if c = 16 then (q, l)
       else if c = 21 then (q, [])
       else if c = 8 \<or> c = 127 then (q, butlast l)
       else if c = 0 \<or> length q + length l = INPUT_BUF then (q, l)
       else
         (let b = (if c = 13 then 10 else of_nat c); l = l @ [b] in
          if b = 10 \<or> b = 4 \<or> length q + length l = INPUT_BUF then (q @ l, []) else (q, l)))"

lemma byte_of_nat_eq: "c < 256 \<Longrightarrow> d < 256 \<Longrightarrow> (of_nat c :: byte) = of_nat d \<longleftrightarrow> c = d"
  by (simp add: word_unat_eq_iff unat_of_nat)

lemma key_char:
  assumes rep: "cons_rep s q l" and c: "c < 256" "c \<noteq> 16" "c \<noteq> 21" "c \<noteq> 8" "c \<noteq> 127" "c \<noteq> 0"
    and room: "length q + length l < INPUT_BUF"
  shows "\<exists>s' q' l'. console_key c (s, d) = Ok (s', d) \<and> cons_rep s' q' l' \<and> (q', l') = edit c (q, l)"
proof -
  note D = cons_repD [OF rep] and U = cons_rep_empty_line [OF rep]
  define c' where "c' = (if c = 13 then 10 else c)"
  let ?x = "of_nat c' :: byte" let ?s1 = "s\<lparr>ibuf := (ibuf s)[unat (ie s) mod INPUT_BUF := ?x], ie := ie s + 1\<rparr>"
  have x: "?x = (if c = 13 then 10 else of_nat c)" by (simp add: c'_def)
  have xe: "?x = 10 \<longleftrightarrow> c' = 10" "?x = 4 \<longleftrightarrow> c' = 4"
    using byte_of_nat_eq [of c' 10] byte_of_nat_eq [of c' 4] c(1) by (simp_all add: c'_def)
  have room': "ie s - ir s < of_nat INPUT_BUF" using U(3) room by (simp add: word_less_nat_alt INPUT_BUF_def)
  have s1: "screen_ok ?s1" using D(1) by (simp add: screen_ok_def)
  obtain s2 where s2: "consputc c' ?s1 = Ok s2" "redrawn ?s1 s2" using consputc_ok [OF s1] by blast
  note R = redrawnD [OF s2(2)]
  have ring: "ring INPUT_BUF (ibuf s2) (ir s2) (length (q @ l @ [?x])) = q @ l @ [?x]"
    using cin.ring_push [OF D(2) room, of "ir s" ?x] D(6,8) R by simp
  have full: "ie s2 = ir s2 + of_nat INPUT_BUF \<longleftrightarrow> length q + length (l @ [?x]) = INPUT_BUF"
  proof -
    have "ie s2 = ir s2 + of_nat (length q + length (l @ [?x]))" using R D(8) by (simp add: algebra_simps)
    then have "ie s2 = ir s2 + of_nat INPUT_BUF \<longleftrightarrow> (of_nat (length q + length (l @ [?x])) :: uint) = of_nat INPUT_BUF" by (simp only: add_left_cancel)
    also have "\<dots> \<longleftrightarrow> length q + length (l @ [?x]) = INPUT_BUF"
      using room unat_of_nat_u32 [of "length q + length (l @ [?x])"] unat_of_nat_u32 [of INPUT_BUF]
      by (simp only: word_unat_eq_iff) (simp add: INPUT_BUF_def del: of_nat_add)
    finally show ?thesis .
  qed
  have key: "console_key c (s, d) = (if c' = 10 \<or> c' = 4 \<or> ie s2 = ir s2 + of_nat INPUT_BUF
      then Ok (s2\<lparr>iw := ie s2, wakeups := wakeups s2 + 1\<rparr>, d) else Ok (s2, d))"
    using c room' s2(1) unfolding console_key_def prod.case Let_def c'_def [symmetric] by simp
  show ?thesis
  proof (cases "c' = 10 \<or> c' = 4 \<or> length q + length (l @ [?x]) = INPUT_BUF")
    case True
    have "cons_rep (s2\<lparr>iw := ie s2, wakeups := wakeups s2 + 1\<rparr>) (q @ l @ [?x]) []"
      using R D(2,8) ring room by (intro cons_rep_commit) (simp_all add: algebra_simps)
    moreover have "edit c (q, l) = (q @ l @ [?x], [])" using True c room xe x by (simp add: edit_def Let_def)
    ultimately show ?thesis using key True full by auto
  next
    case False
    then have "?x \<noteq> 10" using xe by simp
    then have "cons_rep s2 q (l @ [?x])" by (rule cons_rep_redrawn [OF cons_rep_add [OF rep room] s2(2)])
    moreover have "edit c (q, l) = (q, l @ [?x])" using False c room xe x by (simp add: edit_def Let_def)
    ultimately show ?thesis using key False full by auto
  qed
qed

lemma key_refines:
  assumes rep: "cons_rep s q l" and c: "c < 256"
  shows "\<exists>s' q' l'. console_key c (s, d) = Ok (s', d \<or> c = 16) \<and> cons_rep s' q' l' \<and> (q', l') = edit c (q, l)"
proof -
  note D = cons_repD [OF rep] and U = cons_rep_empty_line [OF rep]
  consider "c = 16" | "c = 21" | "c = 8 \<or> c = 127" | "c \<noteq> 16 \<and> c \<noteq> 21 \<and> c \<noteq> 8 \<and> c \<noteq> 127 \<and> (c = 0 \<or> length q + length l = INPUT_BUF)"
    | "c \<noteq> 16" "c \<noteq> 21" "c \<noteq> 8" "c \<noteq> 127" "c \<noteq> 0" "length q + length l \<noteq> INPUT_BUF" by blast
  then show ?thesis
  proof cases
    case 1
    then show ?thesis using rep by (auto simp: console_key_def edit_def)
  next
    case 2
    then show ?thesis using kill_queued_ok [OF rep] U(2) by (auto simp: console_key_def edit_def)
  next
    case 3
    show ?thesis
    proof (cases l rule: rev_cases)
      case Nil
      then show ?thesis using 3 rep U(1) by (auto simp: console_key_def edit_def)
    next
      case (snoc l' x)
      note E = cons_rep_erase [OF rep [unfolded snoc]]
      obtain s1 where s1: "consputc BACKSPACE (s\<lparr>ie := ie s - 1\<rparr>) = Ok s1" "redrawn (s\<lparr>ie := ie s - 1\<rparr>) s1"
        using consputc_ok [OF cons_repD(1) [OF E(1)]] by blast
      have "cons_rep s1 q l'" by (rule cons_rep_redrawn [OF E(1) s1(2)])
      moreover have "ie s \<noteq> iw s" using U(1) snoc by simp
      ultimately show ?thesis using 3 s1(1) snoc by (auto simp: console_key_def edit_def)
    qed
  next
    case 4
    have "\<not> (c \<noteq> 0 \<and> ie s - ir s < of_nat INPUT_BUF)" using 4 U(3) by (auto simp: word_less_nat_alt INPUT_BUF_def)
    then show ?thesis using 4 rep by (auto simp: console_key_def edit_def)
  next
    case 5
    then show ?thesis using key_char [OF rep c 5(1-5)] D(3) by simp
  qed
qed


lemma intr_refines:
  assumes "cons_rep s q l" and "\<forall>c \<in> set cs. c < 256"
  shows "\<exists>s' d' q' l'. consoleintr_loop cs (s, d) = Ok (s', d') \<and> cons_rep s' q' l' \<and> (q', l') = foldl (\<lambda>ql c. edit c ql) (q, l) cs"
  using assms
proof (induction cs arbitrary: s d q l)
  case (Cons c cs)
  obtain s1 q1 l1 where k: "console_key c (s, d) = Ok (s1, d \<or> c = 16)" "cons_rep s1 q1 l1" "(q1, l1) = edit c (q, l)"
    using key_refines [OF Cons.prems(1), of c d] Cons.prems(2) by auto
  from Cons.IH [OF k(2), of "d \<or> c = 16"] Cons.prems(2) k show ?case by auto
qed auto

subsection \<open>What a read takes\<close>

primrec take_line :: "bool \<Rightarrow> nat \<Rightarrow> nat \<Rightarrow> byte list \<Rightarrow> cread \<times> byte list \<times> byte list" where
  "take_line killed target 0 q = (Returned (int target), [], q)"
| "take_line killed target (Suc n) q =
    (case q of [] \<Rightarrow> (if killed then Returned (-1) else Waits (Suc n), [], [])
     | c # q1 \<Rightarrow>
         if c = 4 then (Returned (int target - int (Suc n)), [], if Suc n < target then q else q1)
         else if c = 10 then (Returned (int target - int n), [c], q1)
         else case take_line killed target n q1 of (r, cs, q2) \<Rightarrow> (r, c # cs, q2))"

lemma cons_rep_take:
  assumes "cons_rep s (c # q) l"
  shows "ibuf s ! (unat (ir s) mod INPUT_BUF) = c" "cons_rep (s\<lparr>ir := ir s + 1\<rparr>) q l"
proof -
  note D = cons_repD [OF assms]
  have "ibuf s ! (unat (ir s) mod INPUT_BUF) # ring INPUT_BUF (ibuf s) (ir s + 1) (length q + length l) = c # q @ l"
    using D(6) by (simp add: ring_Cons)
  then show "ibuf s ! (unat (ir s) mod INPUT_BUF) = c" "cons_rep (s\<lparr>ir := ir s + 1\<rparr>) q l"
    using D by (simp_all add: cons_rep_def screen_ok_def add.assoc)
qed

lemma read_refines:
  assumes "cons_rep s q l"
  shows "\<exists>s' q'. consoleread_loop killed target n s = (fst (take_line killed target n q), fst (snd (take_line killed target n q)), s') \<and>
    cons_rep s' q' l \<and> q' = snd (snd (take_line killed target n q))"
  using assms
proof (induction n arbitrary: s q)
  case (Suc n)
  show ?case
  proof (cases q)
    case Nil
    then have "ir s = iw s" using cons_rep_empty_line(4) [OF Suc.prems] by simp
    then show ?thesis using Nil Suc.prems by auto
  next
    case (Cons c q1)
    have ne: "ir s \<noteq> iw s" using cons_rep_empty_line(4) [OF Suc.prems] Cons by simp
    note T = cons_rep_take [OF Suc.prems [unfolded Cons]]
    from Suc.IH [OF T(2)] obtain s2 where s2: "consoleread_loop killed target n (s\<lparr>ir := ir s + 1\<rparr>) =
          (fst (take_line killed target n q1), fst (snd (take_line killed target n q1)), s2)"
        "cons_rep s2 (snd (snd (take_line killed target n q1))) l" by blast
    show ?thesis
      using Suc.prems ne T s2 Cons by (auto simp: Let_def split: prod.splits)
  qed
qed auto

lemma take_line_whole:
  assumes "4 \<notin> set bs" "10 \<notin> set bs" "length bs < n" "n \<le> target"
  shows "take_line killed target n (bs @ 10 # q) = (Returned (int target - int (n - length bs - 1)), bs @ [10], q)"
  using assms
proof (induction bs arbitrary: n)
  case Nil
  then obtain k where "n = Suc k" by (cases n) auto
  then show ?case by simp
next
  case (Cons b bs)
  then obtain k where k: "n = Suc k" by (cases n) auto
  have "take_line killed target k (bs @ 10 # q) = (Returned (int target - int (k - length bs - 1)), bs @ [10], q)"
    by (rule Cons.IH) (use Cons.prems k in auto)
  then show ?case using Cons.prems k by simp
qed

lemma edit_plain:
  assumes "\<forall>c \<in> set cs. 32 \<le> c \<and> c < 127" and "length l + length cs < INPUT_BUF"
  shows "foldl (\<lambda>ql c. edit c ql) ([], l) cs = ([], l @ map of_nat cs)"
  using assms
proof (induction cs arbitrary: l)
  case (Cons c cs)
  have c: "32 \<le> c" "c < 127" using Cons.prems by auto
  have b: "(of_nat c :: byte) \<noteq> 10" "(of_nat c :: byte) \<noteq> 4"
    using c byte_of_nat_eq [of c 10] byte_of_nat_eq [of c 4] by auto
  have "edit c ([], l) = ([], l @ [of_nat c])" using c b Cons.prems(2) by (simp add: edit_def)
  then show ?case using Cons.IH [of "l @ [of_nat c]"] Cons.prems by simp
qed simp

text \<open>A read of bytes that wait, without a newline among them, and of the end of a line.\<close>

lemma take_line_part:
  assumes "4 \<notin> set bs" "10 \<notin> set bs" "length bs = n" "n \<le> target"
  shows "take_line killed target n (bs @ q) = (Returned (int target), bs, q)"
  using assms
proof (induction bs arbitrary: n)
  case (Cons b bs)
  then obtain k where k: "n = Suc k" by (cases n) auto
  have "take_line killed target k (bs @ q) = (Returned (int target), bs, q)" by (rule Cons.IH) (use Cons.prems k in auto)
  then show ?case using Cons.prems k by simp
qed auto

text \<open>A line as it waits to be read: no control-D in it, and newline at most at its end.\<close>

definition queued_ok :: "byte list \<Rightarrow> bool" where
  "queued_ok q \<longleftrightarrow> 4 \<notin> set q \<and> 10 \<notin> set (butlast q)"

lemma queued_ok_drop: "queued_ok q \<Longrightarrow> queued_ok (drop n q)"
proof -
  have "set (butlast (drop n q)) \<subseteq> set (butlast q)" by (metis drop_butlast set_drop_subset)
  then show "queued_ok q \<Longrightarrow> queued_ok (drop n q)" using set_drop_subset [of n q] by (auto simp: queued_ok_def)
qed

lemma take_queued_ok:
  assumes "queued_ok q" "n \<le> length q \<or> q \<noteq> [] \<and> last q = 10"
  shows "take_line killed n n q = (Returned (int (min n (length q))), take n q, drop n q)"
proof (cases "n < length q")
  case True
  then have "take n q = take n (butlast q)" by (simp add: take_butlast)
  then have "4 \<notin> set (take n q)" "10 \<notin> set (take n q)"
    using assms(1) set_take_subset [of n q] set_take_subset [of n "butlast q"] by (auto simp: queued_ok_def)
  then show ?thesis using take_line_part [of "take n q" n n killed "drop n q"] True by simp
next
  case False
  show ?thesis
  proof (cases "q \<noteq> [] \<and> last q = 10")
    case True
    then have q: "q = butlast q @ [10]" by (metis append_butlast_last_id)
    have "4 \<notin> set (butlast q)" "10 \<notin> set (butlast q)" using assms(1) by (auto simp: queued_ok_def dest: in_set_butlastD)
    moreover have "length (butlast q) < n" using True False by (cases q rule: rev_cases) auto
    ultimately have "take_line killed n n (butlast q @ 10 # []) = (Returned (int n - int (n - length (butlast q) - 1)), butlast q @ [10], [])"
      by (intro take_line_whole) auto
    then have t: "take_line killed n n q = (Returned (int n - int (n - length (butlast q) - 1)), q, [])" using q by simp
    have "int n - int (n - length (butlast q) - 1) = int (length q)" using True False by (cases q rule: rev_cases) auto
    then show ?thesis using t False by simp
  next
    case no: False
    then have n: "n = length q" using assms(2) False by auto
    have "10 \<notin> set q" using assms(1) no by (cases q rule: rev_cases) (auto simp: queued_ok_def)
    then show ?thesis using take_line_part [of q n n killed "[]"] assms(1) n by (simp add: queued_ok_def)
  qed
qed

text \<open>A client that reads with these sizes, one call after the other.\<close>

primrec consolereads :: "bool \<Rightarrow> nat list \<Rightarrow> console \<Rightarrow> byte list \<times> console" where
  "consolereads killed [] s = ([], s)"
| "consolereads killed (n # ns) s =
    (case consoleread killed n s of (_, bs, s1) \<Rightarrow> case consolereads killed ns s1 of (bs', s2) \<Rightarrow> (bs @ bs', s2))"

lemma consoleread_line:
  assumes "cons_rep s q l" "queued_ok q" "n \<le> length q \<or> q \<noteq> [] \<and> last q = 10"
  shows "\<exists>s'. consoleread killed n s = (Returned (int (min n (length q))), take n q, s') \<and> cons_rep s' (drop n q) l"
  using read_refines [OF assms(1), of killed n n] take_queued_ok [OF assms(2,3), of killed] by (auto simp: consoleread_def)

lemma consolereads_line:
  assumes "cons_rep s q l" "queued_ok q" "sum_list ns \<le> length q"
  shows "\<exists>s'. consolereads killed ns s = (take (sum_list ns) q, s') \<and> cons_rep s' (drop (sum_list ns) q) l"
  using assms
proof (induction ns arbitrary: s q)
  case (Cons n ns)
  obtain s1 where s1: "consoleread killed n s = (Returned (int (min n (length q))), take n q, s1)" "cons_rep s1 (drop n q) l"
    using consoleread_line [OF Cons.prems(1,2), of n killed] Cons.prems(3) by auto
  obtain s2 where s2: "consolereads killed ns s1 = (take (sum_list ns) (drop n q), s2)" "cons_rep s2 (drop (sum_list ns) (drop n q)) l"
    using Cons.IH [OF s1(2) queued_ok_drop [OF Cons.prems(2)]] Cons.prems(3) by (auto simp: le_diff_conv2 add.commute)
  then show ?case using s1(1) by (simp add: take_add add.commute)
qed simp

text \<open>Once the buffer holds a full line that nobody has read, further characters are lost.\<close>

lemma edit_full:
  assumes "length q = INPUT_BUF" "\<forall>c \<in> set cs. c = 13 \<or> 32 \<le> c \<and> c < 127"
  shows "foldl (\<lambda>ql c. edit c ql) (q, []) cs = (q, [])"
  using assms by (induction cs) (auto simp: edit_def Let_def)

lemma edit_line:
  assumes "\<forall>c \<in> set cs. 32 \<le> c \<and> c < 127"
  shows "foldl (\<lambda>ql c. edit c ql) ([], []) (cs @ [13]) = (take INPUT_BUF (map of_nat cs @ [10]), [])"
proof (cases "length cs < INPUT_BUF")
  case True
  then show ?thesis using edit_plain [OF assms, of "[]"] by (simp add: edit_def Let_def)
next
  case False
  let ?k = "INPUT_BUF - 1"
  have k: "INPUT_BUF = Suc ?k" "?k < length cs" using False by (auto simp: INPUT_BUF_def)
  then have split: "cs @ [13] = take ?k cs @ cs ! ?k # drop (Suc ?k) cs @ [13]" 
    using id_take_nth_drop [OF k(2)] by simp
  have "\<forall>c \<in> set (take ?k cs). 32 \<le> c \<and> c < 127" using assms by (meson in_set_takeD)
  then have 1: "foldl (\<lambda>ql c. edit c ql) ([], []) (take ?k cs) = ([], map of_nat (take ?k cs))"
    using edit_plain [of "take ?k cs" "[]"] k by simp
  have c: "32 \<le> cs ! ?k" "cs ! ?k < 127" using assms k(2) by auto
  have "edit (cs ! ?k) ([], map of_nat (take ?k cs)) = (map of_nat (take ?k cs) @ [of_nat (cs ! ?k)], [])"
    using c k byte_of_nat_eq [of "cs ! ?k" 10] byte_of_nat_eq [of "cs ! ?k" 4] by (simp add: edit_def Let_def)
  moreover have "map of_nat (take ?k cs) @ [of_nat (cs ! ?k) :: byte] = take INPUT_BUF (map of_nat cs)"
    using take_Suc_conv_app_nth [OF k(2)] k(1) by (simp add: take_map)
  moreover have "foldl (\<lambda>ql c. edit c ql) (take INPUT_BUF (map of_nat cs), []) (drop (Suc ?k) cs @ [13]) = (take INPUT_BUF (map of_nat cs), [])"
    by (rule edit_full) (use assms False in \<open>auto dest: in_set_dropD\<close>)
  ultimately show ?thesis unfolding split foldl_append using 1 False by simp
qed

section \<open>Properties\<close>

text \<open>
  C38: the input side of the console refines a pair of lists, the bytes that wait to be read and the
  line being edited. Every character that \<open>consoleintr\<close> handles has exactly the effect of \<open>edit\<close>
  (append, erase one, erase all, hand the line over on newline, control-D or a full buffer), whatever
  the 32-bit counters are, and the screen stays within its bounds.
\<close>

theorem console_key_refines:
  assumes "cons_rep s q l" and "c < 256"
  shows "\<exists>s' q' l'. console_key c (s, d) = Ok (s', d \<or> c = 16) \<and> cons_rep s' q' l' \<and> (q', l') = edit c (q, l)"
  by (rule key_refines [OF assms])

definition console0 :: "uint \<Rightarrow> console" where
  "console0 i = \<lparr>panicked = False, crt = replicate CELLS 0, cursor = 0, serial = [], ibuf = replicate INPUT_BUF 0,
     ir = i, iw = i, ie = i, wakeups = 0\<rparr>"

lemma cons_rep_console0: "cons_rep (console0 i) [] []"
  by (simp add: console0_def cons_rep_def screen_ok_def CELLS_def)

theorem console_key_refines_witness:
  "\<exists>s'. console_key 97 (console0 0xFFFFFFFF, False) = Ok (s', False) \<and> cons_rep s' [] [97]"
  using console_key_refines [OF cons_rep_console0, of 97 "0xFFFFFFFF" False] by (auto simp: edit_def INPUT_BUF_def)

text \<open>
  C39: a line typed on an idle console. Whatever the length of a line of printable characters that is ended
  with return, the bytes that wait to be read are the line and a newline, cut to the \<open>INPUT_BUF\<close> bytes of
  the buffer. Calls of \<open>consoleread\<close> of any sizes, such as the one-byte reads of \<open>gets\<close>, return
  consecutive pieces of it, and so does a further call, whose result is the length of its piece; the
  rest stays. A call that asks for more than is left ends at the newline.
\<close>

theorem console_line:
  assumes "cons_rep s [] []" and "\<forall>c \<in> set cs. 32 \<le> c \<and> c < 127"
    and "line = take INPUT_BUF (map of_nat cs @ [10])"
    and "sum_list ns + n \<le> length line \<or> sum_list ns < length line \<and> length cs < INPUT_BUF"
  shows "\<exists>s' d s1 s2. consoleintr (cs @ [13]) s = Ok (s', d) \<and> consolereads killed ns s' = (take (sum_list ns) line, s1) \<and>
    consoleread killed n s1 = (Returned (int (min n (length line - sum_list ns))), take n (drop (sum_list ns) line), s2) \<and>
    cons_rep s2 (drop (sum_list ns + n) line) []"
proof -
  have "\<forall>c \<in> set (cs @ [13]). c < 256" using assms(2) by auto
  then obtain s' d where s': "consoleintr (cs @ [13]) s = Ok (s', d)" "cons_rep s' line []"
    using intr_refines [OF assms(1), of "cs @ [13]" False] edit_line [OF assms(2)] assms(3) by (auto simp: consoleintr_def)
  have b: "b \<noteq> 4 \<and> b \<noteq> 10" if "b \<in> set (map of_nat cs)" for b :: byte
    using that assms(2) byte_of_nat_eq [of _ 4] byte_of_nat_eq [of _ 10] by fastforce
  have ok: "queued_ok line"
  proof (cases "length cs < INPUT_BUF")
    case False
    then have "line = take INPUT_BUF (map of_nat cs)" using assms(3) by simp
    then have "set line \<subseteq> set (map of_nat cs)" using set_take_subset by metis
    then show ?thesis using b by (auto simp: queued_ok_def dest!: in_set_butlastD)
  qed (use b assms(3) in \<open>auto simp: queued_ok_def butlast_append\<close>)
  obtain s1 where s1: "consolereads killed ns s' = (take (sum_list ns) line, s1)" "cons_rep s1 (drop (sum_list ns) line) []"
    using consolereads_line [OF s'(2) ok, of ns killed] assms(4) by fastforce
  have "n \<le> length (drop (sum_list ns) line) \<or> drop (sum_list ns) line \<noteq> [] \<and> last (drop (sum_list ns) line) = 10"
  proof (cases "sum_list ns + n \<le> length line")
    case False
    then have "line = map of_nat cs @ [10]" "sum_list ns < length line" using assms(3,4) by auto
    then show ?thesis by (simp add: last_drop)
  qed (simp add: le_diff_conv2)
  from consoleread_line [OF s1(2) queued_ok_drop [OF ok] this, of killed] show ?thesis
    using s'(1) s1(1) by (auto simp: add.commute)
qed

theorem console_line_witness:
  "\<exists>s' d s1 s2. consoleintr [108, 115, 13] (console0 0) = Ok (s', d) \<and>
     consolereads False [1, 1] s' = ([108, 115], s1) \<and> consoleread False 1 s1 = (Returned 1, [10], s2) \<and> cons_rep s2 [] [] \<and>
     (\<exists>s3. consoleread False 100 s' = (Returned 3, [108, 115, 10], s3))"
proof -
  have l: "[108, 115, 10] = take INPUT_BUF (map of_nat [108, 115] @ [10 :: byte])" "length [108, 115 :: nat] < INPUT_BUF"
    by (simp_all add: INPUT_BUF_def)
  have p: "\<forall>c \<in> set [108, 115 :: nat]. 32 \<le> c \<and> c < 127" by simp
  note C = console_line [OF cons_rep_console0 [of 0] p l(1)]
  show ?thesis using C [of "[1, 1]" 1 False] C [of "[]" 100 False] l(2) by auto
qed

lemma letter_keys:
  fixes data :: byte
  assumes "data < 0x80" and "97 \<le> normalmap ! unat data" and "normalmap ! unat data \<le> 122"
  shows "data \<noteq> 0xE0" "data AND 0x80 = 0" "shiftcode ! unat data = 0" "togglecode ! unat data = 0"
    "shiftmap ! unat data = normalmap ! unat data - 32"
proof -
  let ?z = "zip (take 128 normalmap) (zip (take 128 shiftmap) (zip (take 128 shiftcode) (take 128 togglecode)))"
  have z: "list_all (\<lambda>(n, s, sc, tc). 97 \<le> n \<and> n \<le> 122 \<longrightarrow> sc = 0 \<and> tc = 0 \<and> s = n - 32) ?z"
    "length ?z = 128" "length normalmap = 256" "length shiftmap = 256" "length shiftcode = 256" "length togglecode = 256"
    by code_simp+
  have d: "unat data < 128" using assms(1) by (simp add: word_less_nat_alt)
  have "?z ! unat data = (normalmap ! unat data, shiftmap ! unat data, shiftcode ! unat data, togglecode ! unat data)"
    using d z(3-6) by simp
  then show "shiftcode ! unat data = 0" "togglecode ! unat data = 0" "shiftmap ! unat data = normalmap ! unat data - 32"
    using z(1) [unfolded list_all_length z(2), rule_format, OF d] assms(2,3) by auto
  have "list_all (\<lambda>d. d \<noteq> 0xE0 \<and> d AND 0x80 = 0) (map word_of_nat [0..<128] :: byte list)" by code_simp
  moreover have "data \<in> set (map word_of_nat [0..<128])" using d by (auto intro!: image_eqI [of _ _ "unat data"])
  ultimately show "data \<noteq> 0xE0" "data AND 0x80 = 0" unfolding list_all_iff by blast+
qed

text \<open>
  A letter key gives the letter in upper case just if exactly one of shift and caps lock is on,
  and leaves the modifier state as it is (no control key held, no pending escape).
\<close>

lemma kbd_letters:
  assumes "st AND KBS_DIB \<noteq> 0" and "data < 0x80" and "97 \<le> normalmap ! unat data" and "normalmap ! unat data \<le> 122"
    and "shift AND E0ESC = 0" and "shift AND CTL = 0"
  shows "kbdgetc st data shift =
    (uint (normalmap ! unat data) - (if (shift AND SHIFT \<noteq> 0) \<noteq> (shift AND CAPSLOCK \<noteq> 0) then 32 else 0), shift)"
proof -
  note L = letter_keys [OF assms(2-4)]
  let ?a = "normalmap ! unat data"
  have sh: "shift AND (CTL OR SHIFT) = shift AND SHIFT" using assms(6) by (simp add: and.left_commute bit.conj_disj_distrib)
  have "shift AND SHIFT = 0 \<or> shift AND SHIFT = 1" by (simp add: SHIFT_def and_one_eq mod_2_eq_odd)
  moreover have "97 \<le> uint ?a" "uint ?a \<le> 122" using assms(3,4) by (simp_all add: word_le_def)
  moreover have "uint (?a - 32) = uint ?a - 32" using calculation by (simp add: uint_word_ariths)
  ultimately show ?thesis
    using assms(1,5) L by (auto simp: kbdgetc_def sh charcode_def Let_def)
qed

end
