(* ===== verification/Xv6_User.thy ===== *)
theory Xv6_User
  imports Prelude
begin

text \<open>
  Two user programs: the pattern matcher and the line loop of \<open>grep.c\<close>, and the counting loop of
  \<open>wc.c\<close>. C strings are lists of their characters without the terminator. The system call
  \<open>read\<close> is a parameter \<open>rd\<close>: from the state of the file and the number of bytes asked for
  it gives the bytes delivered and the next state; \<open>grep\<close> takes an error for the end of the file, \<open>wc\<close>
  tells them apart.
  A loop that reads until nothing comes is a partial function.
\<close>

section \<open>The matcher of grep.c\<close>

fun matchhere :: "byte list \<Rightarrow> byte list \<Rightarrow> bool" and matchstar :: "byte \<Rightarrow> byte list \<Rightarrow> byte list \<Rightarrow> bool" where
  "matchhere re tx =
    (case re of [] \<Rightarrow> True
     | c # re1 \<Rightarrow>
         (if re1 \<noteq> [] \<and> hd re1 = 42 then matchstar c (tl re1) tx
          else if c = 36 \<and> re1 = [] then tx = []
          else case tx of [] \<Rightarrow> False
            | x # tx1 \<Rightarrow> (c = 46 \<or> c = x) \<and> matchhere re1 tx1))"
| "matchstar c re tx =
    (matchhere re tx \<or>
     (case tx of [] \<Rightarrow> False | x # tx1 \<Rightarrow> (x = c \<or> c = 46) \<and> matchstar c re tx1))"

declare matchhere.simps [simp del] matchstar.simps [simp del]

text \<open>The search at every position of the text, the empty rest included.\<close>

primrec match_from :: "byte list \<Rightarrow> byte list \<Rightarrow> bool" where
  "match_from re [] \<longleftrightarrow> matchhere re []"
| "match_from re (x # tx) \<longleftrightarrow> matchhere re (x # tx) \<or> match_from re tx"

definition match :: "byte list \<Rightarrow> byte list \<Rightarrow> bool" where
  "match re tx = (case re of c # re1 \<Rightarrow> if c = 94 then matchhere re1 tx else match_from re tx | [] \<Rightarrow> match_from re tx)"

section \<open>The line loop of grep.c\<close>

text \<open>
  The inner loop over the buffer from \<open>p\<close>: \<open>strchr\<close> looks for a newline up to the terminator or the
  first zero byte. The result is what is written and what the buffer holds from the last \<open>p\<close>.
\<close>

function scan_lines :: "byte list \<Rightarrow> byte list \<Rightarrow> byte list \<times> byte list" where
  "scan_lines pat b =
    (if 10 \<notin> set (takeWhile (\<lambda>c. c \<noteq> 0) b) then ([], b)
     else
       (let line = takeWhile (\<lambda>c. c \<noteq> 10) b; (out, rest) = scan_lines pat (drop (length line + 1) b) in
        (if match pat line then line @ [10] @ out else out, rest)))"
  by pat_completeness auto
termination
proof (relation "measure (\<lambda>(pat, b). length b)")
  fix pat :: "byte list" and b line :: "byte list"
  assume "\<not> 10 \<notin> set (takeWhile (\<lambda>c. c \<noteq> 0) b)"
  then have "b \<noteq> []" by auto
  then show "((pat, drop (length line + 1) b), (pat, b)) \<in> measure (\<lambda>(pat, b). length b)" by simp
qed simp

declare scan_lines.simps [simp del]

definition GREP_BUF :: nat where "GREP_BUF = 1024"

text \<open>\<open>grep\<close>: \<open>held\<close> is what the buffer keeps from the rounds before.\<close>

partial_function (option) grep_loop ::
    "('f \<Rightarrow> nat \<Rightarrow> byte list \<times> 'f) \<Rightarrow> byte list \<Rightarrow> byte list \<Rightarrow> 'f \<Rightarrow> byte list option" where
  "grep_loop rd pat held f =
    (case rd f (GREP_BUF - length held - 1) of (chunk, f') \<Rightarrow>
       if chunk = [] then Some []
       else case scan_lines pat (held @ chunk) of (out, rest) \<Rightarrow>
         Option.bind (grep_loop rd pat (if rest = held @ chunk then [] else rest) f') (\<lambda>more. Some (out @ more)))"

definition grep :: "('f \<Rightarrow> nat \<Rightarrow> byte list \<times> 'f) \<Rightarrow> byte list \<Rightarrow> 'f \<Rightarrow> byte list option" where
  "grep rd pat f = grep_loop rd pat [] f"

section \<open>The counting loop of wc.c\<close>

text \<open>The counters are C's \<open>int\<close>, and incrementing the largest is undefined.\<close>

record wcstate =
  wc_l :: int
  wc_w :: int
  wc_c :: int
  inword :: bool

definition incr :: "int \<Rightarrow> int kres" where
  "incr x = (if x < 2 ^ 31 - 1 then Ok (x + 1) else Undefined)"

definition wc_space :: "byte \<Rightarrow> bool" where
  "wc_space c \<longleftrightarrow> c \<in> {32, 13, 9, 10, 11}"

definition WC_BUF :: nat where "WC_BUF = 512"

definition wc_byte :: "wcstate \<Rightarrow> byte \<Rightarrow> wcstate kres" where
  "wc_byte s b =
    kbind (incr (wc_c s)) (\<lambda>c.
    kbind (if b = 10 then incr (wc_l s) else Ok (wc_l s)) (\<lambda>l.
      let s = s\<lparr>wc_c := c, wc_l := l\<rparr> in
      if wc_space b then Ok (s\<lparr>inword := False\<rparr>)
      else if \<not> inword s then kbind (incr (wc_w s)) (\<lambda>w. Ok (s\<lparr>wc_w := w, inword := True\<rparr>))
      else Ok s))"

primrec wc_chunk :: "byte list \<Rightarrow> wcstate \<Rightarrow> wcstate kres" where
  "wc_chunk [] s = Ok s"
| "wc_chunk (b # bs) s = kbind (wc_byte s b) (wc_chunk bs)"

text \<open>
  Here \<open>rd\<close> gives the bytes delivered, none at the end of the file, or \<open>None\<close> for an error. The program
  prints the counts, or a message before it exits.
\<close>

datatype wcend = Counts int int int | ReadError

partial_function (option) wc_loop ::
    "('f \<Rightarrow> nat \<Rightarrow> byte list option \<times> 'f) \<Rightarrow> wcstate \<Rightarrow> 'f \<Rightarrow> wcend kres option" where
  "wc_loop rd s f =
    (case rd f WC_BUF of (r, f') \<Rightarrow>
       case r of None \<Rightarrow> Some (Ok ReadError)
       | Some chunk \<Rightarrow>
           if chunk = [] then Some (Ok (Counts (wc_l s) (wc_w s) (wc_c s)))
           else case wc_chunk chunk s of
               Ok s \<Rightarrow> wc_loop rd s f'
             | Panic m \<Rightarrow> Some (Panic m) | Sleeps \<Rightarrow> Some Sleeps | Diverges \<Rightarrow> Some Diverges | Undefined \<Rightarrow> Some Undefined)"

definition wc :: "('f \<Rightarrow> nat \<Rightarrow> byte list option \<times> 'f) \<Rightarrow> 'f \<Rightarrow> wcend kres" where
  "wc rd f = kbind (of_loop (wc_loop rd \<lparr>wc_l = 0, wc_w = 0, wc_c = 0, inword = False\<rparr> f)) (\<lambda>r. r)"

section \<open>What a pattern means\<close>

text \<open>
  The reference meaning of a pattern: a sequence of items, one character or any number of
  them each, and whether the match must reach the end of the text.
\<close>

datatype item = One byte | Many byte

fun items :: "byte list \<Rightarrow> item list \<times> bool" where
  "items [] = ([], False)"
| "items (c # re) =
    (if re \<noteq> [] \<and> hd re = 42 then (case items (tl re) of (its, e) \<Rightarrow> (Many c # its, e))
     else if c = 36 \<and> re = [] then ([], True)
     else (case items re of (its, e) \<Rightarrow> (One c # its, e)))"

definition fits :: "byte \<Rightarrow> byte \<Rightarrow> bool" where
  "fits c x \<longleftrightarrow> c = 46 \<or> c = x"

primrec lang :: "item list \<Rightarrow> byte list set" where
  "lang [] = {[]}"
| "lang (i # its) =
    (case i of One c \<Rightarrow> {x # u |x u. fits c x \<and> u \<in> lang its}
     | Many c \<Rightarrow> {v @ u |v u. (\<forall>x \<in> set v. fits c x) \<and> u \<in> lang its})"

definition accepts :: "item list \<times> bool \<Rightarrow> byte list \<Rightarrow> bool" where
  "accepts r tx \<longleftrightarrow> (\<exists>u v. tx = u @ v \<and> u \<in> lang (fst r) \<and> (snd r \<longrightarrow> v = []))"

lemma acceptsI: "tx = u @ v \<Longrightarrow> u \<in> lang its \<Longrightarrow> (e \<longrightarrow> v = []) \<Longrightarrow> accepts (its, e) tx"
  by (auto simp: accepts_def)

lemma acceptsE:
  assumes "accepts (its, e) tx"
  obtains u v where "tx = u @ v" and "u \<in> lang its" and "e \<longrightarrow> v = []"
  using assms by (auto simp: accepts_def)

lemma lang_One: "x # u \<in> lang (One c # its)" if "fits c x" "u \<in> lang its"
  using that by simp

lemma lang_Many: "v @ u \<in> lang (Many c # its)" if "\<forall>x \<in> set v. fits c x" "u \<in> lang its"
  using that by auto

lemma accepts_One: "accepts (One c # its, e) tx \<longleftrightarrow> (\<exists>x t. tx = x # t \<and> fits c x \<and> accepts (its, e) t)" (is "?l \<longleftrightarrow> ?r")
proof
  assume ?l
  then obtain u v where uv: "tx = u @ v" "u \<in> lang (One c # its)" "e \<longrightarrow> v = []" by (rule acceptsE)
  from uv(2) obtain x w where "u = x # w" "fits c x" "w \<in> lang its" by auto
  then show ?r using uv acceptsI [of "w @ v" w v its e] by auto
next
  assume ?r
  then obtain x t where t: "tx = x # t" "fits c x" "accepts (its, e) t" by blast
  from t(3) obtain u v where uv: "t = u @ v" "u \<in> lang its" "e \<longrightarrow> v = []" by (rule acceptsE)
  show ?l by (rule acceptsI [OF _ lang_One [OF t(2) uv(2)] uv(3)]) (simp_all add: t(1) uv(1))
qed

lemma accepts_Many_eq:
  "accepts (Many c # its, e) tx \<longleftrightarrow> (\<exists>v t. tx = v @ t \<and> (\<forall>x \<in> set v. fits c x) \<and> accepts (its, e) t)" (is "?l \<longleftrightarrow> ?r")
proof
  assume ?l
  then obtain u v where uv: "tx = u @ v" "u \<in> lang (Many c # its)" "e \<longrightarrow> v = []" by (rule acceptsE)
  from uv(2) obtain p w where "u = p @ w" "\<forall>x \<in> set p. fits c x" "w \<in> lang its" by auto
  then show ?r using uv acceptsI [of "w @ v" w v its e] by auto
next
  assume ?r
  then obtain p t where t: "tx = p @ t" "\<forall>x \<in> set p. fits c x" "accepts (its, e) t" by blast
  from t(3) obtain u v where uv: "t = u @ v" "u \<in> lang its" "e \<longrightarrow> v = []" by (rule acceptsE)
  show ?l by (rule acceptsI [OF _ lang_Many [OF t(2) uv(2)] uv(3)]) (simp_all add: t(1) uv(1))
qed

lemma accepts_Many:
  "accepts (Many c # its, e) tx \<longleftrightarrow>
   accepts (its, e) tx \<or> (\<exists>x t. tx = x # t \<and> fits c x \<and> accepts (Many c # its, e) t)"
  (is "?l \<longleftrightarrow> ?r")
proof
  assume ?l
  then obtain v t where t: "tx = v @ t" "\<forall>x \<in> set v. fits c x" "accepts (its, e) t" unfolding accepts_Many_eq by blast
  then show ?r by (cases v) (auto simp: accepts_Many_eq)
next
  assume ?r
  then show ?l
  proof
    assume "accepts (its, e) tx"
    then have "tx = [] @ tx \<and> (\<forall>x \<in> set []. fits c x) \<and> accepts (its, e) tx" by simp
    then show ?l unfolding accepts_Many_eq by blast
  next
    assume "\<exists>x t. tx = x # t \<and> fits c x \<and> accepts (Many c # its, e) t"
    then obtain x v t where t: "tx = x # v @ t" "fits c x" "\<forall>x \<in> set v. fits c x" "accepts (its, e) t"
      unfolding accepts_Many_eq by blast
    then have "tx = (x # v) @ t \<and> (\<forall>y \<in> set (x # v). fits c y) \<and> accepts (its, e) t" by simp
    then show ?l unfolding accepts_Many_eq by blast
  qed
qed

lemma match_items:
  "matchhere re tx \<longleftrightarrow> accepts (items re) tx"
  "matchstar c re tx \<longleftrightarrow> accepts (case items re of (its, e) \<Rightarrow> (Many c # its, e)) tx"
proof (induction re tx and c re tx rule: matchhere_matchstar.induct)
  case (1 re tx)
  show ?case
  proof (cases re)
    case Nil
    then show ?thesis by (subst matchhere.simps) (auto simp: accepts_def)
  next
    case (Cons c re1)
    consider "re1 \<noteq> [] \<and> hd re1 = 42" | "\<not> (re1 \<noteq> [] \<and> hd re1 = 42)" "c = 36 \<and> re1 = []"
      | "\<not> (re1 \<noteq> [] \<and> hd re1 = 42)" "\<not> (c = 36 \<and> re1 = [])" by blast
    then show ?thesis
    proof cases
      case 1
      then show ?thesis using "1.IH"(1) [OF Cons] Cons by (subst matchhere.simps) (simp split: prod.splits)
    next
      case 2
      then show ?thesis using Cons by (subst matchhere.simps) (auto simp: accepts_def)
    next
      case 3
      obtain its e where ie: "items re1 = (its, e)" by fastforce
      have "matchhere re tx \<longleftrightarrow> (case tx of [] \<Rightarrow> False | x # tx1 \<Rightarrow> (c = 46 \<or> c = x) \<and> matchhere re1 tx1)"
        using 3 Cons by (subst matchhere.simps) (simp only: list.case if_False)
      moreover have "items re = (One c # its, e)" using 3 Cons ie by (simp only: items.simps if_False prod.case)
      ultimately show ?thesis
        using "1.IH"(2) [OF Cons 3] ie by (auto simp: accepts_One fits_def split: list.splits)
    qed
  qed
next
  case (2 c re tx)
  obtain its e where ie: "items re = (its, e)" by fastforce
  have "matchstar c re tx \<longleftrightarrow> matchhere re tx \<or> (\<exists>x t. tx = x # t \<and> fits c x \<and> matchstar c re t)"
    by (subst matchstar.simps) (auto simp: fits_def split: list.splits)
  then show ?case using 2 ie by (auto simp: accepts_Many [of c its e tx])
qed

lemma match_from_iff: "match_from re tx \<longleftrightarrow> (\<exists>u v. tx = u @ v \<and> matchhere re v)"
proof (induction tx)
  case (Cons x tx)
  have "(\<exists>u v. x # tx = u @ v \<and> matchhere re v) \<longleftrightarrow> matchhere re (x # tx) \<or> (\<exists>u v. tx = u @ v \<and> matchhere re v)"
    by (auto simp: Cons_eq_append_conv)
  then show ?case using Cons by simp
qed simp

section \<open>Files as read calls deliver them\<close>

text \<open>
  What \<open>read\<close> does on a regular file with no other writer: it delivers the next \<open>n\<close> bytes, or
  what is left, and advances past them. \<open>content f\<close> is what is left to read.
\<close>

definition reads :: "('f \<Rightarrow> nat \<Rightarrow> byte list \<times> 'f) \<Rightarrow> ('f \<Rightarrow> byte list) \<Rightarrow> bool" where
  "reads rd content \<longleftrightarrow> (\<forall>f n. fst (rd f n) = take n (content f) \<and> content (snd (rd f n)) = drop n (content f))"

definition list_rd :: "byte list \<Rightarrow> nat \<Rightarrow> byte list \<times> byte list" where
  "list_rd xs n = (take n xs, drop n xs)"

lemma reads_list_rd: "reads list_rd (\<lambda>xs. xs)"
  by (simp add: reads_def list_rd_def)

subsection \<open>wc\<close>

text \<open>A word starts at a character that is not space and has no such character right before it.\<close>

definition word_starts :: "byte list \<Rightarrow> nat set" where
  "word_starts xs = {i. i < length xs \<and> \<not> wc_space (xs ! i) \<and> (i = 0 \<or> wc_space (xs ! (i - 1)))}"

lemma word_starts_snoc:
  "word_starts (xs @ [x]) =
   (if \<not> wc_space x \<and> (xs = [] \<or> wc_space (last xs)) then insert (length xs) (word_starts xs) else word_starts xs)"
proof (cases xs rule: rev_cases)
  case Nil
  then show ?thesis by (auto simp: word_starts_def)
next
  case (snoc ys y)
  then show ?thesis unfolding word_starts_def by (auto simp: nth_append less_Suc_eq split: if_splits)
qed

text \<open>
  What \<open>read\<close> does on an open file or pipe: as long as something is left it delivers some of it, at least
  one byte and at most what was asked for; then it reports the end, or, if the device fails there, an error.
\<close>

definition reads_some :: "('f \<Rightarrow> nat \<Rightarrow> byte list option \<times> 'f) \<Rightarrow> ('f \<Rightarrow> byte list) \<Rightarrow> bool \<Rightarrow> bool" where
  "reads_some rd content bad \<longleftrightarrow> (\<forall>f n. 0 < n \<longrightarrow>
     (if content f = [] then fst (rd f n) = (if bad then None else Some [])
      else \<exists>k. 0 < k \<and> k \<le> n \<and> fst (rd f n) = Some (take k (content f)) \<and> content (snd (rd f n)) = drop k (content f)))"

text \<open>The state of the counters after the bytes \<open>xs\<close>.\<close>

definition wc_after :: "byte list \<Rightarrow> wcstate" where
  "wc_after xs = \<lparr>wc_l = int (count_list xs 10), wc_w = int (card (word_starts xs)), wc_c = int (length xs),
     inword = (xs \<noteq> [] \<and> \<not> wc_space (last xs))\<rparr>"

lemma word_starts_le: "finite (word_starts xs)" "card (word_starts xs) \<le> length xs"
proof -
  have "word_starts xs \<subseteq> {..<length xs}" by (auto simp: word_starts_def)
  then show "finite (word_starts xs)" "card (word_starts xs) \<le> length xs"
    using card_mono [of "{..<length xs}" "word_starts xs"] finite_subset [of "word_starts xs" "{..<length xs}"] by auto
qed

lemma count_le: "count_list xs x \<le> length xs"
  by (induction xs) auto

lemma wc_byte_after:
  "wc_byte (wc_after xs) b = (if int (length xs) < 2 ^ 31 - 1 then Ok (wc_after (xs @ [b])) else Undefined)"
proof (cases "int (length xs) < 2 ^ 31 - 1")
  case True
  have "length xs \<notin> word_starts xs" by (simp add: word_starts_def)
  moreover have "int (count_list xs 10) < 2 ^ 31 - 1" "int (card (word_starts xs)) < 2 ^ 31 - 1"
    using count_le [of xs 10] word_starts_le(2) [of xs] True by linarith+
  ultimately show ?thesis
    using True word_starts_le(1) [of xs] by (auto simp: wc_byte_def wc_after_def incr_def word_starts_snoc wc_space_def Let_def)
qed (simp add: wc_byte_def wc_after_def incr_def)

lemma wc_chunk_after:
  "int (length xs) < 2 ^ 31 \<Longrightarrow>
   wc_chunk ys (wc_after xs) = (if int (length (xs @ ys)) < 2 ^ 31 then Ok (wc_after (xs @ ys)) else Undefined)"
proof (induction ys arbitrary: xs)
  case (Cons y ys)
  show ?case
  proof (cases "int (length xs) < 2 ^ 31 - 1")
    case True
    then show ?thesis using Cons.IH [of "xs @ [y]"] by (simp add: wc_byte_after)
  qed (use Cons.prems in \<open>simp add: wc_byte_after\<close>)
qed simp

lemma wc_loop_after:
  assumes rd: "reads_some rd content bad"
  shows "int (length xs) < 2 ^ 31 \<Longrightarrow> wc_loop rd (wc_after xs) f =
    Some (if int (length (xs @ content f)) < 2 ^ 31
      then Ok (if bad then ReadError
        else let s = wc_after (xs @ content f) in Counts (wc_l s) (wc_w s) (wc_c s)) else Undefined)"
proof (induction "length (content f)" arbitrary: xs f rule: less_induct)
  case less
  obtain r f' where r: "rd f WC_BUF = (r, f')" by fastforce
  have c: "if content f = [] then r = (if bad then None else Some [])
      else \<exists>k. 0 < k \<and> r = Some (take k (content f)) \<and> content f' = drop k (content f)"
    using rd [unfolded reads_some_def, rule_format, of WC_BUF f] r by (auto simp: WC_BUF_def split: if_splits)
  show ?case
  proof (cases "content f = []")
    case True
    then show ?thesis using c r less.prems by (subst wc_loop.simps) (simp add: Let_def)
  next
    case False
    then obtain k where k: "0 < k" "r = Some (take k (content f))" "content f' = drop k (content f)" using c by auto
    then have ne: "take k (content f) \<noteq> []" using False by simp
    have app: "xs @ content f = (xs @ take k (content f)) @ content f'" using k by simp
    note ch = wc_chunk_after [OF less.prems, of "take k (content f)"]
    show ?thesis
    proof (cases "int (length (xs @ take k (content f))) < 2 ^ 31")
      case True
      have "length (content f') < length (content f)" using k False by auto
      from less.hyps [OF this True] ch True show ?thesis
        unfolding app using r k ne by (subst wc_loop.simps) (simp del: append.assoc append_assoc)
    next
      case no: False
      then have "\<not> int (length (xs @ content f)) < 2 ^ 31" unfolding app by simp
      then show ?thesis using ch no r k ne by (subst wc_loop.simps) simp
    qed
  qed
qed

subsection \<open>grep\<close>

lemma scan_lines_line:
  assumes "0 \<notin> set l" and "10 \<notin> set l"
  shows "scan_lines pat (l @ 10 # b) = (let (out, rest) = scan_lines pat b in (if match pat l then l @ [10] @ out else out, rest))"
proof -
  have "10 \<in> set (takeWhile (\<lambda>c. c \<noteq> 0) (l @ 10 # b))" using assms(1) by (subst takeWhile_append2) auto
  moreover have "takeWhile (\<lambda>c. c \<noteq> 10) (l @ 10 # b) = l" using assms(2) by (subst takeWhile_append2) auto
  ultimately show ?thesis by (subst scan_lines.simps) (simp add: Let_def)
qed

lemma scan_lines_part: "10 \<notin> set b \<Longrightarrow> scan_lines pat b = ([], b)"
  by (subst scan_lines.simps) (auto dest: set_takeWhileD)

definition unlines :: "byte list list \<Rightarrow> byte list" where
  "unlines ls = concat (map (\<lambda>l. l @ [10]) ls)"

lemma unlines_simps [simp]: "unlines [] = []" "unlines (l # ls) = l @ 10 # unlines ls"
  by (simp_all add: unlines_def)

definition line_ok :: "byte list \<Rightarrow> bool" where
  "line_ok l \<longleftrightarrow> 0 \<notin> set l \<and> 10 \<notin> set l \<and> length l < GREP_BUF - 1"

lemma scan_lines_unlines:
  assumes "b @ ys = unlines ls" and "\<forall>l \<in> set ls. line_ok l"
  shows "\<exists>ls1 ls2 r. ls = ls1 @ ls2 \<and> scan_lines pat b = (unlines (filter (match pat) ls1), r) \<and> b = unlines ls1 @ r \<and>
    10 \<notin> set r \<and> r @ ys = unlines ls2"
  using assms
proof (induction ls arbitrary: b)
  case Nil
  then show ?case by (auto simp: scan_lines_part)
next
  case (Cons l ls)
  have l: "0 \<notin> set l" "10 \<notin> set l" using Cons.prems(2) by (auto simp: line_ok_def)
  show ?case
  proof (cases "length l < length b")
    case True
    have e: "b @ ys = (l @ [10]) @ unlines ls" using Cons.prems(1) by simp
    then obtain b' where b: "b = l @ 10 # b'" "b' @ ys = unlines ls"
      using True unfolding append_eq_append_conv2 by (auto simp: append_eq_Cons_conv)
    from Cons.IH [OF b(2)] Cons.prems(2) obtain ls1 ls2 r where IH: "ls = ls1 @ ls2"
        "scan_lines pat b' = (unlines (filter (match pat) ls1), r)" "b' = unlines ls1 @ r" "10 \<notin> set r" "r @ ys = unlines ls2"
      by auto
    then show ?thesis using b scan_lines_line [OF l, of pat b']
      by (intro exI [of _ "l # ls1"] exI [of _ ls2] exI [of _ r]) auto
  next
    case False
    have "b = take (length b) (l @ 10 # unlines ls)" using Cons.prems(1) by (metis append_eq_conv_conj unlines_simps(2))
    then have "b = take (length b) l" using False by simp
    then have "10 \<notin> set b" using l(2) by (metis in_set_takeD)
    then show ?thesis using Cons.prems(1) by (intro exI [of _ "[]"] exI [of _ "l # ls"] exI [of _ b]) (simp add: scan_lines_part)
  qed
qed

lemma grep_loop_eq:
  assumes rd: "reads rd content" and ls: "held @ content f = unlines ls" "\<forall>l \<in> set ls. line_ok l" and held: "10 \<notin> set held"
  shows "grep_loop rd pat held f = Some (unlines (filter (match pat) ls))"
  using ls held
proof (induction "length (content f)" arbitrary: held f ls rule: less_induct)
  case less
  let ?n = "GREP_BUF - length held - 1"
  obtain chunk f' where r: "rd f ?n = (chunk, f')" by fastforce
  have c: "chunk = take ?n (content f)" "content f' = drop ?n (content f)"
    using rd r unfolding reads_def by (metis fst_conv snd_conv)+
  show ?case
  proof (cases ls)
    case Nil
    then have "content f = []" using less.prems(1) by simp
    then show ?thesis using r c(1) Nil by (subst grep_loop.simps) simp
  next
    case (Cons l ls')
    have l: "10 \<notin> set l" "length l < 1023" using less.prems(2) Cons by (auto simp: line_ok_def GREP_BUF_def)
    have "length held \<le> length l"
    proof (rule ccontr)
      assume "\<not> length held \<le> length l"
      then have "held ! length l = 10" using arg_cong [OF less.prems(1), of "\<lambda>xs. xs ! length l"] Cons by (simp add: nth_append)
      then show False using less.prems(3) \<open>\<not> length held \<le> length l\<close> by (metis nth_mem not_le_imp_less)
    qed
    then have pos: "0 < ?n" "length l < length held + ?n" using l(2) by (simp_all add: GREP_BUF_def)
    have len: "length held + length (content f) = Suc (length l + length (unlines ls'))"
      using arg_cong [OF less.prems(1), of length] Cons by simp
    have ne: "content f \<noteq> []" using len \<open>length held \<le> length l\<close> by auto
    then have chunk: "chunk \<noteq> []" using c(1) pos(1) by simp
    have "(held @ chunk) @ content f' = unlines ls" using less.prems(1) c by simp
    from scan_lines_unlines [OF this less.prems(2)] obtain ls1 ls2 rest where s: "ls = ls1 @ ls2"
        "scan_lines pat (held @ chunk) = (unlines (filter (match pat) ls1), rest)" "held @ chunk = unlines ls1 @ rest"
        "10 \<notin> set rest" "rest @ content f' = unlines ls2"
      by blast
    have hc: "length l < length (held @ chunk)" using pos(2) len by (auto simp: c(1))
    have "ls1 \<noteq> []"
    proof
      assume "ls1 = []"
      then have "rest = held @ chunk" using s(3) by simp
      have "(held @ chunk) ! length l = ((held @ chunk) @ content f') ! length l" using hc by (simp only: nth_append if_True)
      then have "(held @ chunk) ! length l = 10"
        unfolding \<open>(held @ chunk) @ content f' = unlines ls\<close> using Cons by simp
      then show False using s(4) \<open>rest = held @ chunk\<close> hc by (metis nth_mem)
    qed
    then have "rest \<noteq> held @ chunk" using s(3) by (cases ls1) auto
    moreover have "length (content f') < length (content f)" using c(2) pos(1) ne by (cases "content f") auto
    then have "grep_loop rd pat rest f' = Some (unlines (filter (match pat) ls2))"
      using less.hyps [of f' rest ls2] s less.prems(2) by auto
    ultimately show ?thesis using r chunk s by (subst grep_loop.simps) (simp add: unlines_def)
  qed
qed

section \<open>Properties\<close>

text \<open>
  C36: \<open>match\<close> decides the language of its pattern. Without a caret it holds just if some part of
  the text, from any position, is in the language (up to the end of the text if the pattern
  ends in a dollar sign); with a caret that part must start the text.
\<close>

theorem match_correct:
  "match re tx \<longleftrightarrow>
    (if re \<noteq> [] \<and> hd re = 94 then accepts (items (tl re)) tx
     else \<exists>u v. tx = u @ v \<and> accepts (items re) v)"
  by (cases re) (auto simp: match_def match_from_iff match_items)

text \<open>
  C37: on a file whose lines end in newlines, have no zero bytes and fit the buffer, \<open>grep\<close> ends and
  prints exactly the lines that match, in order, whole.
\<close>

theorem grep_prints_matching_lines:
  assumes "reads rd content" and "content f = unlines ls" and "\<forall>l \<in> set ls. line_ok l"
  shows "grep rd pat f = Some (unlines (filter (match pat) ls))"
  using grep_loop_eq [OF assms(1) _ assms(3), of "[]" f] assms(2) by (simp add: grep_def)

theorem grep_prints_matching_lines_witness:
  "grep list_rd [94, 97] (unlines [[97, 98], [98, 97], [97]]) = Some (unlines [[97, 98], [97]])"
proof -
  have "match [94, 97] [97, 98]" "\<not> match [94, 97] [98, 97]" "match [94, 97] [97]" by code_simp+
  moreover have "\<forall>l \<in> set [[97, 98], [98, 97], [97]]. line_ok l" by (simp add: line_ok_def GREP_BUF_def)
  from grep_prints_matching_lines [OF reads_list_rd refl this]
  have "grep list_rd [94, 97] (unlines [[97, 98], [98, 97], [97]]) = Some (unlines (filter (match [94, 97]) [[97, 98], [98, 97], [97]]))" .
  ultimately show ?thesis by simp
qed

text \<open>
  C40: \<open>wc\<close> ends, however \<open>read\<close> cuts the file into pieces. On a file of fewer than \<open>2 ^ 31\<close> bytes it reports
  the number of newlines, of words and of bytes, or, if a read fails, the error and no counts. On a
  longer one its \<open>int\<close> counter of bytes overflows, which is undefined.
\<close>

theorem wc_counts:
  assumes "reads_some rd content bad"
  shows "wc rd f =
    (if int (length (content f)) < 2 ^ 31
     then Ok (if bad then ReadError
       else Counts (int (count_list (content f) 10)) (int (card (word_starts (content f)))) (int (length (content f))))
     else Undefined)"
proof -
  have "wc_after [] = \<lparr>wc_l = 0, wc_w = 0, wc_c = 0, inword = False\<rparr>" by (simp add: wc_after_def word_starts_def)
  then show ?thesis using wc_loop_after [OF assms, of "[]" f] by (simp add: wc_def wc_after_def Let_def)
qed

text \<open>A file that gives at most three bytes at a time.\<close>

definition slow_rd :: "bool \<Rightarrow> byte list \<Rightarrow> nat \<Rightarrow> byte list option \<times> byte list" where
  "slow_rd bad xs n = (if xs = [] \<and> bad then None else Some (take (min 3 n) xs), drop (min 3 n) xs)"

lemma reads_slow_rd: "reads_some (slow_rd bad) (\<lambda>xs. xs) bad"
  unfolding reads_some_def
proof (intro allI impI)
  fix f :: "byte list" and n :: nat assume "0 < n"
  then show "if f = [] then fst (slow_rd bad f n) = (if bad then None else Some [])
      else \<exists>k. 0 < k \<and> k \<le> n \<and> fst (slow_rd bad f n) = Some (take k f) \<and> snd (slow_rd bad f n) = drop k f"
    by (auto simp: slow_rd_def intro: exI [of _ "min 3 n"])
qed

theorem wc_counts_witness:
  "wc (slow_rd False) [97, 32, 98, 10] = Ok (Counts 1 2 4) \<and> wc (slow_rd True) [97, 32, 98, 10] = Ok ReadError"
proof -
  have "word_starts [97, 32, 98, 10] = {0, 2}"
    by (auto simp: word_starts_def wc_space_def nth_Cons' less_Suc_eq split: if_splits)
  then show ?thesis
    using wc_counts [OF reads_slow_rd, of False "[97, 32, 98, 10]"] wc_counts [OF reads_slow_rd, of True "[97, 32, 98, 10]"] by simp
qed

end
