(* ===== verification/Xv6_Sh.thy ===== *)
theory Xv6_Sh
  imports Prelude
begin

text \<open>
  The command parser of the shell (\<open>sh.c\<close>). The input line is a byte list \<open>b\<close>; a pointer into it is
  a position, \<open>es\<close> is its length, and reading at \<open>es\<close> gives the terminator. A word of a command
  is the pair of positions \<open>(q, eq)\<close> the C code keeps; \<open>nulterminate\<close> turns the line into a buffer
  in which each word is a terminated string. \<open>panic\<close> ends the shell's child with a message. The
  recursive descent is bounded by fuel; running out is \<open>Diverges\<close>, which the lemmas below
  exclude for the fuel \<open>parsecmd\<close> uses. Allocation never fails here.
\<close>

section \<open>Commands\<close>

text \<open>A command over words of type \<open>'w\<close>: positions in the parser, strings in the specification.\<close>

datatype 'w cmd =
    EXEC "'w list"
  | REDIR "'w cmd" 'w int int
  | PIPE "'w cmd" "'w cmd"
  | LIST "'w cmd" "'w cmd"
  | BACK "'w cmd"

type_synonym span = "nat \<times> nat"

definition MAXARGS :: nat where "MAXARGS = 10"
definition O_RDONLY :: int where "O_RDONLY = 0"
definition O_WRONLY :: int where "O_WRONLY = 1"
definition O_CREATE :: int where "O_CREATE = 512"

section \<open>Tokens\<close>

definition whitespace :: "byte list" where "whitespace = [32, 9, 13, 10, 11]"
definition symbols :: "byte list" where "symbols = [60, 124, 62, 38, 59, 40, 41]"

definition char_at :: "byte list \<Rightarrow> nat \<Rightarrow> byte" where
  "char_at b p = (if p < length b then b ! p else 0)"

definition skip_ws :: "byte list \<Rightarrow> nat \<Rightarrow> nat" where
  "skip_ws b p = p + length (takeWhile (\<lambda>c. c \<in> set whitespace) (drop p b))"

definition word_char :: "byte \<Rightarrow> bool" where
  "word_char c \<longleftrightarrow> c \<notin> set whitespace \<and> c \<notin> set symbols"

definition skip_word :: "byte list \<Rightarrow> nat \<Rightarrow> nat" where
  "skip_word b p = p + length (takeWhile word_char (drop p b))"

text \<open>\<open>gettoken\<close>: the token, the span it covers and the new position.\<close>

definition gettoken :: "byte list \<Rightarrow> nat \<Rightarrow> byte \<times> nat \<times> nat \<times> nat" where
  "gettoken b p =
    (let q = skip_ws b p; c = char_at b q;
         (ret, s) =
           (if c = 0 then (0, q)
            else if c \<in> {124, 40, 41, 59, 38, 60} then (c, q + 1)
            else if c = 62 then if char_at b (q + 1) = 62 then (43, q + 2) else (c, q + 1)
            else (97, skip_word b q))
     in (ret, q, s, skip_ws b s))"

definition peek :: "byte list \<Rightarrow> nat \<Rightarrow> byte list \<Rightarrow> bool \<times> nat" where
  "peek b p toks = (let s = skip_ws b p; c = char_at b s in (c \<noteq> 0 \<and> c \<in> set toks, s))"

definition next_pos :: "byte list \<Rightarrow> nat \<Rightarrow> nat" where
  "next_pos b p = snd (snd (snd (gettoken b p)))"

section \<open>The parser\<close>

type_synonym redir = "span \<times> int \<times> int"

definition redircmd :: "'w cmd \<Rightarrow> 'w \<times> int \<times> int \<Rightarrow> 'w cmd" where
  "redircmd c r = (case r of (file, mode, fd) \<Rightarrow> REDIR c file mode fd)"

text \<open>
  \<open>parseredirs\<close> collects the redirections; wrapping them around the command is left to the caller,
  because \<open>parseexec\<close> goes on filling the innermost command while it collects them.
\<close>

primrec parseredirs :: "nat \<Rightarrow> byte list \<Rightarrow> nat \<Rightarrow> redir list \<Rightarrow> (redir list \<times> nat) kres" where
  "parseredirs 0 b p rs = Diverges"
| "parseredirs (Suc k) b p rs =
    (case peek b p [60, 62] of (more, p) \<Rightarrow>
       if \<not> more then Ok (rs, p)
       else case gettoken b p of (tok, _, _, p) \<Rightarrow>
         case gettoken b p of (tok2, q, eq, p) \<Rightarrow>
           if tok2 \<noteq> 97 then Panic ''missing file for redirection''
           else
             parseredirs k b p
               (rs @ [if tok = 60 then ((q, eq), O_RDONLY, 0) else ((q, eq), O_WRONLY OR O_CREATE, 1)]))"

text \<open>The argument loop of \<open>parseexec\<close>.\<close>

primrec parseargs :: "nat \<Rightarrow> byte list \<Rightarrow> nat \<Rightarrow> span list \<Rightarrow> redir list \<Rightarrow> (span list \<times> redir list \<times> nat) kres" where
  "parseargs 0 b p argv rs = Diverges"
| "parseargs (Suc k) b p argv rs =
    (case peek b p [124, 41, 38, 59] of (stop, p) \<Rightarrow>
       if stop then Ok (argv, rs, p)
       else case gettoken b p of (tok, q, eq, p) \<Rightarrow>
         if tok = 0 then Ok (argv, rs, p)
         else if tok \<noteq> 97 then Panic ''syntax''
         else if length argv + 1 \<ge> MAXARGS then Panic ''too many args''
         else kbind (parseredirs (Suc (length b)) b p rs) (\<lambda>(rs, p). parseargs k b p (argv @ [(q, eq)]) rs))"

text \<open>The loop over ampersands of \<open>parseline\<close>.\<close>

primrec parseback :: "nat \<Rightarrow> byte list \<Rightarrow> nat \<Rightarrow> span cmd \<Rightarrow> (span cmd \<times> nat) kres" where
  "parseback 0 b p c = Diverges"
| "parseback (Suc k) b p c =
    (case peek b p [38] of (more, p) \<Rightarrow>
       if more then parseback k b (next_pos b p) (BACK c) else Ok (c, p))"

datatype level = Line | Pipes | Execs | Block

text \<open>
  The four mutually recursive procedures \<open>parseline\<close>, \<open>parsepipe\<close>, \<open>parseexec\<close> and \<open>parseblock\<close>, as
  one function of the procedure called. The inner loops advance at least one position per
  round, so their bound is the length of the line.
\<close>

fun parse :: "nat \<Rightarrow> level \<Rightarrow> byte list \<Rightarrow> nat \<Rightarrow> (span cmd \<times> nat) kres" where
  "parse 0 lv b p = Diverges"
| "parse (Suc n) Line b p =
    kbind (parse n Pipes b p) (\<lambda>(c, p).
    kbind (parseback (Suc (length b)) b p c) (\<lambda>(c, p).
    case peek b p [59] of (more, p) \<Rightarrow>
      if more then kbind (parse n Line b (next_pos b p)) (\<lambda>(d, p). Ok (LIST c d, p)) else Ok (c, p)))"
| "parse (Suc n) Pipes b p =
    kbind (parse n Execs b p) (\<lambda>(c, p).
    case peek b p [124] of (more, p) \<Rightarrow>
      if more then kbind (parse n Pipes b (next_pos b p)) (\<lambda>(d, p). Ok (PIPE c d, p)) else Ok (c, p))"
| "parse (Suc n) Execs b p =
    (case peek b p [40] of (block, p) \<Rightarrow>
       if block then parse n Block b p
       else
         kbind (parseredirs (Suc (length b)) b p []) (\<lambda>(rs, p).
         kbind (parseargs (Suc (length b)) b p [] rs) (\<lambda>(argv, rs, p).
           Ok (foldl redircmd (EXEC argv) rs, p))))"
| "parse (Suc n) Block b p =
    (case peek b p [40] of (open, p) \<Rightarrow>
       if \<not> open then Panic ''parseblock''
       else
         kbind (parse n Line b (next_pos b p)) (\<lambda>(c, p).
         case peek b p [41] of (close, p) \<Rightarrow>
           if \<not> close then Panic ''syntax - missing )''
           else
             kbind (parseredirs (Suc (length b)) b (next_pos b p) []) (\<lambda>(rs, p).
               Ok (foldl redircmd c rs, p))))"

text \<open>\<open>nulterminate\<close> stores a zero behind every word; the buffer has room for the terminator.\<close>

primrec nulterminate :: "span cmd \<Rightarrow> byte list \<Rightarrow> byte list" where
  "nulterminate (EXEC ws) b = foldl (\<lambda>b (q, eq). b[eq := 0]) b ws"
| "nulterminate (REDIR c w mode fd) b = (nulterminate c b)[snd w := 0]"
| "nulterminate (PIPE c d) b = nulterminate d (nulterminate c b)"
| "nulterminate (LIST c d) b = nulterminate d (nulterminate c b)"
| "nulterminate (BACK c) b = nulterminate c b"

definition parse_fuel :: "byte list \<Rightarrow> nat" where
  "parse_fuel b = 4 * length b + 4"

definition parsecmd :: "byte list \<Rightarrow> (span cmd \<times> byte list) kres" where
  "parsecmd b =
    kbind (parse (parse_fuel b) Line b 0) (\<lambda>(c, p).
    case peek b p [] of (_, p) \<Rightarrow>
      if p \<noteq> length b then Panic ''syntax''
      else Ok (c, nulterminate c (b @ [0])))"

section \<open>Positions only move forward\<close>

lemma skip_ws_bounds: "p \<le> length b \<Longrightarrow> p \<le> skip_ws b p \<and> skip_ws b p \<le> length b"
  unfolding skip_ws_def using length_takeWhile_le [of "\<lambda>c. c \<in> set whitespace" "drop p b"] by auto

lemma skip_word_bounds: "p \<le> length b \<Longrightarrow> p \<le> skip_word b p \<and> skip_word b p \<le> length b"
  unfolding skip_word_def using length_takeWhile_le [of word_char "drop p b"] by auto

lemma char_at_inside: "char_at b p \<noteq> 0 \<Longrightarrow> p < length b"
  by (auto simp: char_at_def split: if_splits)

lemma peek_bounds:
  assumes "peek b p toks = (r, p')" and "p \<le> length b"
  shows "p \<le> p'" "p' \<le> length b" "r \<Longrightarrow> p' < length b" "r \<Longrightarrow> char_at b p' \<in> set toks \<and> char_at b p' \<noteq> 0" "skip_ws b p' = p'"
proof -
  have p': "p' = skip_ws b p" "r \<longleftrightarrow> char_at b p' \<noteq> 0 \<and> char_at b p' \<in> set toks" using assms(1) by (auto simp: peek_def Let_def)
  show "p \<le> p'" "p' \<le> length b" using skip_ws_bounds [OF assms(2)] p'(1) by auto
  show "r \<Longrightarrow> p' < length b" "r \<Longrightarrow> char_at b p' \<in> set toks \<and> char_at b p' \<noteq> 0" using p'(2) char_at_inside by auto
  show "skip_ws b p' = p'"
  proof -
    have "takeWhile (\<lambda>c. c \<in> set whitespace) (drop (length (takeWhile (\<lambda>c. c \<in> set whitespace) (drop p b))) (drop p b)) = []"
      by (metis dropWhile_eq_drop takeWhile_eq_Nil_iff hd_dropWhile)
    then show ?thesis by (simp add: p'(1) skip_ws_def add.commute)
  qed
qed

text \<open>
  A span of the line that is a whole word: not empty, word characters throughout, and nothing but
  the end of the line or another kind of character behind it.
\<close>

definition span_ok :: "byte list \<Rightarrow> span \<Rightarrow> bool" where
  "span_ok b w \<longleftrightarrow> fst w < snd w \<and> snd w \<le> length b \<and> (\<forall>i. fst w \<le> i \<and> i < snd w \<longrightarrow> word_char (b ! i)) \<and>
     (snd w < length b \<longrightarrow> \<not> word_char (b ! snd w))"

lemma skip_word_span:
  assumes "p < length b" and "word_char (b ! p)"
  shows "span_ok b (p, skip_word b p)"
proof -
  let ?t = "takeWhile word_char (drop p b)"
  have "drop p b = b ! p # drop (Suc p) b" using assms(1) by (simp add: Cons_nth_drop_Suc)
  then have "?t \<noteq> []" using assms(2) by simp
  moreover have "p + length ?t \<le> length b" using length_takeWhile_le [of word_char "drop p b"] assms(1) by simp
  moreover have "word_char (b ! i)" if "p \<le> i" "i < p + length ?t" for i
  proof -
    have "?t ! (i - p) \<in> set ?t" using that by (intro nth_mem) simp
    moreover have "?t ! (i - p) = drop p b ! (i - p)" using that by (intro takeWhile_nth) simp
    moreover have "drop p b ! (i - p) = b ! i" using that assms(1) by simp
    ultimately show ?thesis by (metis set_takeWhileD)
  qed
  moreover have "\<not> word_char (b ! (p + length ?t))" if "p + length ?t < length b"
    using that nth_length_takeWhile [of word_char "drop p b"] by simp
  ultimately show ?thesis by (auto simp: span_ok_def skip_word_def)
qed

lemma skip_ws_stops:
  assumes "p \<le> length b"
  shows "char_at b (skip_ws b p) \<notin> set whitespace"
proof (cases "skip_ws b p < length b")
  case True
  then have "length (takeWhile (\<lambda>c. c \<in> set whitespace) (drop p b)) < length (drop p b)" by (simp add: skip_ws_def)
  from nth_length_takeWhile [OF this] show ?thesis using True by (simp add: char_at_def skip_ws_def)
next
  case False
  then show ?thesis by (simp add: char_at_def whitespace_def)
qed

lemma gettoken_bounds:
  assumes "gettoken b p = (t, q, eq, p')" and "p \<le> length b"
  shows "p \<le> q" "q \<le> eq" "eq \<le> p'" "p' \<le> length b" "t \<noteq> 0 \<Longrightarrow> q < eq" "t = 97 \<Longrightarrow> span_ok b (q, eq)"
proof -
  have q: "q = skip_ws b p" using assms(1) by (auto simp: gettoken_def Let_def split: prod.splits)
  let ?c = "char_at b q"
  have qb: "p \<le> q" "q \<le> length b" using skip_ws_bounds [OF assms(2)] q by auto
  have ws: "?c \<notin> set whitespace" using skip_ws_stops [OF assms(2)] q by simp
  define r where "r = (if ?c = 0 then (0, q)
            else if ?c \<in> {124, 40, 41, 59, 38, 60} then (?c, q + 1)
            else if ?c = 62 then if char_at b (q + 1) = 62 then (43, q + 2) else (?c, q + 1)
            else (97, skip_word b q))"
  have r: "r = (t, eq)" "p' = skip_ws b eq" using assms(1) by (auto simp: gettoken_def Let_def q [symmetric] r_def [symmetric] split: prod.splits)
  have word: "span_ok b (q, skip_word b q)" if "?c \<noteq> 0" "?c \<notin> {124, 40, 41, 59, 38, 60}" "?c \<noteq> 62"
  proof (rule skip_word_span)
    show "q < length b" using char_at_inside [OF that(1)] .
    then show "word_char (b ! q)" using that ws by (auto simp: word_char_def symbols_def char_at_def)
  qed
  have "q \<le> eq \<and> eq \<le> length b \<and> (t \<noteq> 0 \<longrightarrow> q < eq) \<and> (t = 97 \<longrightarrow> span_ok b (q, eq))"
  proof (cases "?c = 0")
    case True
    then show ?thesis using r(1) qb by (simp add: r_def)
  next
    case False
    then have "q < length b" by (rule char_at_inside)
    moreover have "char_at b (q + 1) = 62 \<Longrightarrow> q + 1 < length b" using char_at_inside [of b "q + 1"] by simp
    ultimately show ?thesis
      using r(1) word False by (auto simp: r_def span_ok_def split: if_splits)
  qed
  then show "p \<le> q" "q \<le> eq" "eq \<le> p'" "p' \<le> length b" "t \<noteq> 0 \<Longrightarrow> q < eq" "t = 97 \<Longrightarrow> span_ok b (q, eq)"
    using qb skip_ws_bounds [of eq b] r(2) by auto
qed

lemma next_pos_bounds:
  assumes "p < length b" and "char_at b p \<noteq> 0" and "skip_ws b p = p"
  shows "p < next_pos b p" "next_pos b p \<le> length b"
proof -
  obtain t q eq p' where g: "gettoken b p = (t, q, eq, p')" by (metis prod_cases4)
  note B = gettoken_bounds [OF g] 
  have "t \<noteq> 0" using g assms(2,3) by (auto simp: gettoken_def Let_def split: if_splits)
  then show "p < next_pos b p" "next_pos b p \<le> length b" using B assms(1) g by (auto simp: next_pos_def)
qed

section \<open>The parser ends\<close>

text \<open>A result that is a value with property \<open>P\<close> or a panic.\<close>

definition sound :: "('a \<Rightarrow> bool) \<Rightarrow> 'a kres \<Rightarrow> bool" where
  "sound P r \<longleftrightarrow> (\<exists>x. r = Ok x \<and> P x) \<or> (\<exists>msg. r = Panic msg)"

lemma sound_Ok [simp]: "sound P (Ok x) = P x"
  by (simp add: sound_def)

lemma sound_Panic [simp]: "sound P (Panic msg)"
  by (simp add: sound_def)

lemma sound_bind: "sound P m \<Longrightarrow> (\<And>x. P x \<Longrightarrow> sound Q (f x)) \<Longrightarrow> sound Q (kbind m f)"
  by (cases m) (auto simp: sound_def)

lemma sound_mono: "sound P r \<Longrightarrow> (\<And>x. P x \<Longrightarrow> Q x) \<Longrightarrow> sound Q r"
  by (auto simp: sound_def)

definition moved :: "byte list \<Rightarrow> nat \<Rightarrow> nat \<Rightarrow> bool" where
  "moved b p p' \<longleftrightarrow> p \<le> p' \<and> p' \<le> length b"

lemma parseredirs_sound:
  assumes "p \<le> length b" and "length b - p < k" and "\<forall>r \<in> set rs. span_ok b (fst r)"
  shows "sound (\<lambda>(rs', p'). moved b p p' \<and> (\<forall>r \<in> set rs'. span_ok b (fst r))) (parseredirs k b p rs)"
  using assms
proof (induction k arbitrary: p rs)
  case (Suc k)
  obtain more p1 where pk: "peek b p [60, 62] = (more, p1)" by fastforce
  note P = peek_bounds [OF pk Suc.prems(1)]
  obtain t q0 eq0 p2 where g1: "gettoken b p1 = (t, q0, eq0, p2)" by (metis prod_cases4)
  obtain t2 q eq p3 where g2: "gettoken b p2 = (t2, q, eq, p3)" by (metis prod_cases4)
  note G1 = gettoken_bounds [OF g1 P(2)]
  note G2 = gettoken_bounds [OF g2 G1(4)]
  let ?r = "if t = 60 then ((q, eq), O_RDONLY, 0) else ((q, eq), O_WRONLY OR O_CREATE, 1)"
  have "sound (\<lambda>(rs', p'). moved b p p' \<and> (\<forall>r \<in> set rs'. span_ok b (fst r))) (parseredirs k b p3 (rs @ [?r]))" if "t2 = 97"
  proof -
    have "p1 < p3" "span_ok b (q, eq)" using G1(1-3) G2(1-3,5,6) that by auto
    then have "sound (\<lambda>(rs', p'). moved b p3 p' \<and> (\<forall>r \<in> set rs'. span_ok b (fst r))) (parseredirs k b p3 (rs @ [?r]))"
      by (intro Suc.IH) (use Suc.prems P(1) G2(4) in auto)
    then show ?thesis by (rule sound_mono) (use P(1) \<open>p1 < p3\<close> in \<open>auto simp: moved_def\<close>)
  qed
  then show ?case using Suc.prems(3) P(1,2) pk g1 g2 by (auto simp: moved_def)
qed simp

lemma parseargs_sound:
  assumes "p \<le> length b" and "length b - p < k" and "\<forall>r \<in> set rs. span_ok b (fst r)" and "\<forall>w \<in> set argv. span_ok b w"
  shows "sound (\<lambda>(argv', rs', p'). moved b p p' \<and> (\<forall>r \<in> set rs'. span_ok b (fst r)) \<and> (\<forall>w \<in> set argv'. span_ok b w))
    (parseargs k b p argv rs)"
  using assms
proof (induction k arbitrary: p argv rs)
  case (Suc k)
  obtain stop p1 where pk: "peek b p [124, 41, 38, 59] = (stop, p1)" by fastforce
  note P = peek_bounds [OF pk Suc.prems(1)]
  obtain t q eq p2 where g: "gettoken b p1 = (t, q, eq, p2)" by (metis prod_cases4)
  note G = gettoken_bounds [OF g P(2)]
  have "sound (\<lambda>(argv', rs', p'). moved b p p' \<and> (\<forall>r \<in> set rs'. span_ok b (fst r)) \<and> (\<forall>w \<in> set argv'. span_ok b w))
      (kbind (parseredirs (Suc (length b)) b p2 rs) (\<lambda>(rs, p). parseargs k b p (argv @ [(q, eq)]) rs))" if "t = 97"
  proof (rule sound_bind [OF parseredirs_sound])
    have lt: "p1 < p2" "span_ok b (q, eq)" using G that by auto
    fix x :: "redir list \<times> nat"
    assume x: "case x of (rs', p') \<Rightarrow> moved b p2 p' \<and> (\<forall>r \<in> set rs'. span_ok b (fst r))"
    obtain rs' p' where xx: "x = (rs', p')" by fastforce
    have "sound (\<lambda>(argv', rs'', p''). moved b p' p'' \<and> (\<forall>r \<in> set rs''. span_ok b (fst r)) \<and> (\<forall>w \<in> set argv'. span_ok b w))
        (parseargs k b p' (argv @ [(q, eq)]) rs')"
      by (rule Suc.IH) (use x xx lt P(1) Suc.prems in \<open>auto simp: moved_def\<close>)
    then show "sound (\<lambda>(argv', rs', p'). moved b p p' \<and> (\<forall>r \<in> set rs'. span_ok b (fst r)) \<and> (\<forall>w \<in> set argv'. span_ok b w))
        (case x of (rs, p) \<Rightarrow> parseargs k b p (argv @ [(q, eq)]) rs)"
      unfolding xx prod.case by (rule sound_mono) (use x xx lt P(1) in \<open>auto simp: moved_def\<close>)
  qed (use G Suc.prems in auto)
  moreover have "moved b p p1" "moved b p p2" using P(1,2) G by (auto simp: moved_def)
  ultimately show ?case using Suc.prems(3,4) pk g by auto
qed simp

lemma parseback_sound:
  assumes "p \<le> length b" and "length b - p < k" and "\<forall>w \<in> set_cmd c. span_ok b w"
  shows "sound (\<lambda>(c', p'). moved b p p' \<and> (\<forall>w \<in> set_cmd c'. span_ok b w)) (parseback k b p c)"
  using assms
proof (induction k arbitrary: p c)
  case (Suc k)
  obtain more p1 where pk: "peek b p [38] = (more, p1)" by fastforce
  note P = peek_bounds [OF pk Suc.prems(1)]
  have "sound (\<lambda>(c', p'). moved b p p' \<and> (\<forall>w \<in> set_cmd c'. span_ok b w)) (parseback k b (next_pos b p1) (BACK c))" if more
  proof -
    have n: "p1 < next_pos b p1" "next_pos b p1 \<le> length b" using next_pos_bounds [OF P(3) [OF that] _ P(5)] P(4) [OF that] by auto
    have "sound (\<lambda>(c', p'). moved b (next_pos b p1) p' \<and> (\<forall>w \<in> set_cmd c'. span_ok b w)) (parseback k b (next_pos b p1) (BACK c))"
      by (rule Suc.IH) (use n Suc.prems P(1) in auto)
    then show ?thesis by (rule sound_mono) (use n P(1) in \<open>auto simp: moved_def\<close>)
  qed
  then show ?case using pk P(1,2) Suc.prems(3) by (auto simp: moved_def)
qed simp

text \<open>The fuel each procedure needs with \<open>r\<close> characters left.\<close>

fun need :: "level \<Rightarrow> nat \<Rightarrow> nat" where
  "need Line r = 4 * r + 4"
| "need Pipes r = 4 * r + 3"
| "need Execs r = 4 * r + 2"
| "need Block r = 4 * r + 1"

abbreviation parsed :: "byte list \<Rightarrow> nat \<Rightarrow> span cmd \<times> nat \<Rightarrow> bool" where
  "parsed b p \<equiv> (\<lambda>(c, p'). moved b p p' \<and> (\<forall>w \<in> set_cmd c. span_ok b w))"

lemma parsed_from: "parsed b p1 x \<Longrightarrow> p \<le> p1 \<Longrightarrow> parsed b p x"
  by (auto simp: moved_def)

lemma set_foldl_redircmd: "set_cmd (foldl redircmd c rs) = set_cmd c \<union> fst ` set rs"
  by (induction rs arbitrary: c) (auto simp: redircmd_def)

text \<open>What follows an operator: the rest is parsed behind it and combined.\<close>

lemma operator_sound:
  assumes c: "parsed b p (c, p1)"
    and rec: "\<And>p2. p1 < p2 \<Longrightarrow> p2 \<le> length b \<Longrightarrow> sound (parsed b p2) (f p2)"
    and comb: "\<And>c d. set_cmd (g c d) = set_cmd c \<union> set_cmd d"
  shows "sound (parsed b p) (case peek b p1 toks of (more, p) \<Rightarrow>
      if more then kbind (f (next_pos b p)) (\<lambda>(d, p). Ok (g c d, p)) else Ok (c, p))"
proof -
  obtain more p2 where pk: "peek b p1 toks = (more, p2)" by fastforce
  have p1: "p1 \<le> length b" "p \<le> p1" using c by (auto simp: moved_def)
  note P = peek_bounds [OF pk p1(1)]
  have "sound (parsed b p) (kbind (f (next_pos b p2)) (\<lambda>(d, p). Ok (g c d, p)))" if more
  proof (rule sound_bind [OF rec])
    have n: "p2 < next_pos b p2" "next_pos b p2 \<le> length b" using next_pos_bounds [OF P(3) [OF that] _ P(5)] P(4) [OF that] by auto
    show "p1 < next_pos b p2" "next_pos b p2 \<le> length b" using n P(1) by auto
    fix x assume "parsed b (next_pos b p2) x"
    then show "sound (parsed b p) (case x of (d, p) \<Rightarrow> Ok (g c d, p))"
      using c comb n P(1) p1 by (auto simp: moved_def)
  qed
  then show ?thesis using pk c P(1,2) p1 by (auto simp: moved_def)
qed

lemma parse_sound: "p \<le> length b \<Longrightarrow> need lv (length b - p) \<le> n \<Longrightarrow> sound (parsed b p) (parse n lv b p)"
proof (induction n arbitrary: lv p)
  case 0
  then show ?case by (cases lv) auto
next
  case (Suc n)
  note IH = Suc.IH and pb = Suc.prems(1)
  show ?case
  proof (cases lv)
    case Line
    have "sound (parsed b p) (parse n Pipes b p)" by (rule IH) (use Suc.prems Line in auto)
    then show ?thesis unfolding Line parse.simps
    proof (rule sound_bind)
      fix x assume x: "parsed b p x"
      obtain c p1 where xx: "x = (c, p1)" by fastforce
      have "sound (parsed b p1) (parseback (Suc (length b)) b p1 c)" by (rule parseback_sound) (use x xx in \<open>auto simp: moved_def\<close>)
      then show "sound (parsed b p) (case x of (c, p) \<Rightarrow> kbind (parseback (Suc (length b)) b p c) (\<lambda>(c, p).
          case peek b p [59] of (more, p) \<Rightarrow>
            if more then kbind (parse n Line b (next_pos b p)) (\<lambda>(d, p). Ok (LIST c d, p)) else Ok (c, p)))"
        unfolding xx prod.case
      proof (rule sound_bind)
        fix y assume y: "parsed b p1 y"
        obtain c' p2 where yy: "y = (c', p2)" by fastforce
        have pc: "parsed b p (c', p2)" using y yy x xx by (auto simp: moved_def)
        show "sound (parsed b p) (case y of (c, p) \<Rightarrow> case peek b p [59] of (more, p) \<Rightarrow>
            if more then kbind (parse n Line b (next_pos b p)) (\<lambda>(d, p). Ok (LIST c d, p)) else Ok (c, p))"
          unfolding yy prod.case
          by (rule operator_sound [OF pc]) (use IH Suc.prems Line pc in \<open>auto simp: moved_def\<close>)
      qed
    qed
  next
    case Pipes
    have "sound (parsed b p) (parse n Execs b p)" by (rule IH) (use Suc.prems Pipes in auto)
    then show ?thesis unfolding Pipes parse.simps
    proof (rule sound_bind)
      fix x assume x: "parsed b p x"
      obtain c p1 where xx: "x = (c, p1)" by fastforce
      show "sound (parsed b p) (case x of (c, p) \<Rightarrow> case peek b p [124] of (more, p) \<Rightarrow>
          if more then kbind (parse n Pipes b (next_pos b p)) (\<lambda>(d, p). Ok (PIPE c d, p)) else Ok (c, p))"
        unfolding xx prod.case
        by (rule operator_sound [OF x [unfolded xx]]) (use IH Suc.prems Pipes x xx in \<open>auto simp: moved_def\<close>)
    qed
  next
    case Execs
    obtain block p1 where pk: "peek b p [40] = (block, p1)" by fastforce
    note P = peek_bounds [OF pk pb]
    have "sound (parsed b p1) (parse n Block b p1)" by (rule IH) (use Suc.prems Execs P in auto)
    moreover have "sound (parsed b p1) (kbind (parseredirs (Suc (length b)) b p1 []) (\<lambda>(rs, p).
         kbind (parseargs (Suc (length b)) b p [] rs) (\<lambda>(argv, rs, p). Ok (foldl redircmd (EXEC argv) rs, p))))"
    proof (rule sound_bind [OF parseredirs_sound])
      fix x :: "redir list \<times> nat" assume x: "case x of (rs', p') \<Rightarrow> moved b p1 p' \<and> (\<forall>r \<in> set rs'. span_ok b (fst r))"
      obtain rs p2 where xx: "x = (rs, p2)" by fastforce
      show "sound (parsed b p1) (case x of (rs, p) \<Rightarrow> kbind (parseargs (Suc (length b)) b p [] rs) (\<lambda>(argv, rs, p). Ok (foldl redircmd (EXEC argv) rs, p)))"
        unfolding xx prod.case
        by (rule sound_bind [OF parseargs_sound]) (use x xx in \<open>force simp: moved_def set_foldl_redircmd\<close>)+
    qed (use P in auto)
    ultimately have "sound (parsed b p1) (parse (Suc n) Execs b p)" unfolding parse.simps pk prod.case by presburger
    then show ?thesis unfolding Execs by (rule sound_mono) (rule parsed_from [OF _ P(1)])
  next
    case Block
    obtain op1 p1 where pk: "peek b p [40] = (op1, p1)" by fastforce
    note P = peek_bounds [OF pk pb]
    have "sound (parsed b p) (kbind (parse n Line b (next_pos b p1)) (\<lambda>(c, p).
         case peek b p [41] of (close, p) \<Rightarrow>
           if \<not> close then Panic ''syntax - missing )''
           else kbind (parseredirs (Suc (length b)) b (next_pos b p) []) (\<lambda>(rs, p). Ok (foldl redircmd c rs, p))))" if op1
    proof (rule sound_bind [OF IH])
      have n: "p1 < next_pos b p1" "next_pos b p1 \<le> length b" using next_pos_bounds [OF P(3) [OF that] _ P(5)] P(4) [OF that] by auto
      show "next_pos b p1 \<le> length b" "need Line (length b - next_pos b p1) \<le> n" using n P(1) Suc.prems Block by auto
      fix x assume x: "parsed b (next_pos b p1) x"
      obtain c p2 where xx: "x = (c, p2)" by fastforce
      obtain cl1 p3 where pk2: "peek b p2 [41] = (cl1, p3)" by fastforce
      have p2: "p2 \<le> length b" using x xx by (simp add: moved_def)
      note P2 = peek_bounds [OF pk2 p2]
      have "sound (parsed b p) (kbind (parseredirs (Suc (length b)) b (next_pos b p3) []) (\<lambda>(rs, p). Ok (foldl redircmd c rs, p)))" if cl1
      proof (rule sound_bind [OF parseredirs_sound])
        have n2: "p3 < next_pos b p3" "next_pos b p3 \<le> length b" using next_pos_bounds [OF P2(3) [OF that] _ P2(5)] P2(4) [OF that] by auto
        then show "next_pos b p3 \<le> length b" by simp
        fix y :: "redir list \<times> nat" assume "case y of (rs', p') \<Rightarrow> moved b (next_pos b p3) p' \<and> (\<forall>r \<in> set rs'. span_ok b (fst r))"
        then show "sound (parsed b p) (case y of (rs, p) \<Rightarrow> Ok (foldl redircmd c rs, p))"
          using x xx n n2 P(1) P2(1) by (cases y) (force simp: moved_def set_foldl_redircmd)
      qed auto
      then show "sound (parsed b p) (case x of (c, p) \<Rightarrow> case peek b p [41] of (close, p) \<Rightarrow>
           if \<not> close then Panic ''syntax - missing )''
           else kbind (parseredirs (Suc (length b)) b (next_pos b p) []) (\<lambda>(rs, p). Ok (foldl redircmd c rs, p)))"
        using xx pk2 by simp
    qed
    then show ?thesis using pk Block by simp
  qed
qed

section \<open>Every word becomes a terminated string\<close>

lemma nth_clear: "i < length b \<Longrightarrow> foldl (\<lambda>b (q, eq). b[eq := 0]) b ws ! i = (if i \<in> snd ` set ws then 0 else b ! i)"
proof (induction ws arbitrary: b)
  case (Cons w ws)
  then show ?case by (cases "i = snd w") (auto simp: split_beta image_iff)
qed simp

lemma length_clear [simp]: "length (foldl (\<lambda>b (q, eq). b[eq := 0]) b ws) = length b"
  by (induction ws arbitrary: b) auto

lemma length_nulterminate [simp]: "length (nulterminate c b) = length b"
  by (induction c arbitrary: b) auto

lemma nth_nulterminate: "i < length b \<Longrightarrow> nulterminate c b ! i = (if i \<in> snd ` set_cmd c then 0 else b ! i)"
proof (induction c arbitrary: b)
  case (REDIR c w mode fd)
  then show ?case by (cases "i = snd w") (auto simp: image_iff)
qed (auto simp: nth_clear)

text \<open>The string at a position of a buffer.\<close>

definition string_at :: "byte list \<Rightarrow> nat \<Rightarrow> byte list" where
  "string_at b p = takeWhile (\<lambda>c. c \<noteq> 0) (drop p b)"

lemma string_at_eq:
  assumes "q + length w < length b" and "b ! (q + length w) = 0" and "0 \<notin> set w" and "\<And>i. i < length w \<Longrightarrow> b ! (q + i) = w ! i"
  shows "string_at b q = w"
proof -
  have "take (length w) (drop q b) = w" using assms(1,4) by (intro nth_equalityI) auto
  then have "drop q b = w @ drop (length w) (drop q b)" by (metis append_take_drop_id)
  also have "drop (length w) (drop q b) = drop (q + length w) b" by (simp add: add.commute)
  also have "drop (q + length w) b = 0 # drop (Suc (q + length w)) b"
    using Cons_nth_drop_Suc [OF assms(1)] assms(2) by simp
  finally show ?thesis using assms(3) unfolding string_at_def by (simp only:) (subst takeWhile_append2, auto)
qed

lemma nulterminate_words:
  assumes ok: "\<forall>w \<in> set_cmd c. span_ok b w" and z: "0 \<notin> set b" and w: "(q, eq) \<in> set_cmd c"
  shows "string_at (nulterminate c (b @ [0])) q = slice q (eq - q) b"
proof (rule string_at_eq)
  have s: "q < eq" "eq \<le> length b" "\<And>i. q \<le> i \<Longrightarrow> i < eq \<Longrightarrow> word_char (b ! i)" using ok w by (auto simp: span_ok_def)
  have l: "length (slice q (eq - q) b) = eq - q" using s by simp
  show "q + length (slice q (eq - q) b) < length (nulterminate c (b @ [0]))" unfolding l using s by simp
  show "nulterminate c (b @ [0]) ! (q + length (slice q (eq - q) b)) = 0"
    unfolding l using s w by (subst nth_nulterminate) (auto simp: image_iff)
  show "0 \<notin> set (slice q (eq - q) b)" using z by (auto simp: slice_def dest: in_set_takeD in_set_dropD)
  fix i assume i: "i < length (slice q (eq - q) b)"
  have "q + i \<notin> snd ` set_cmd c"
  proof
    assume "q + i \<in> snd ` set_cmd c"
    then obtain q' where "span_ok b (q', q + i)" using ok by fastforce
    then have "\<not> word_char (b ! (q + i))" using i l s by (auto simp: span_ok_def)
    then show False using s(3) [of "q + i"] i l by simp
  qed
  moreover have "q + i < length b" using i l s by simp
  ultimately show "nulterminate c (b @ [0]) ! (q + i) = slice q (eq - q) b ! i"
    using i l s by (simp add: nth_nulterminate nth_append nth_slice)
qed

section \<open>Parsing what was printed\<close>

text \<open>
  A command over strings as text: words with a space behind each, redirections behind the words,
  parentheses where the grammar needs them.
\<close>

datatype rlevel = RLine | RBack | RPipe | RExec

definition render_word :: "byte list \<Rightarrow> byte list" where
  "render_word w = w @ [32]"

definition render_redir :: "byte list \<times> int \<times> int \<Rightarrow> byte list" where
  "render_redir r = (case r of (w, mode, fd) \<Rightarrow> (if fd = 0 then 60 else 62) # render_word w)"

definition paren :: "bool \<Rightarrow> byte list \<Rightarrow> byte list" where
  "paren yes s = (if yes then [40] @ s @ [41] else s)"

primrec render :: "byte list cmd \<Rightarrow> rlevel \<Rightarrow> byte list" where
  "render (EXEC ws) lv = concat (map render_word ws)"
| "render (REDIR c w mode fd) lv = render c RExec @ render_redir (w, mode, fd)"
| "render (PIPE c d) lv = paren (lv = RExec) (render c RExec @ [124] @ render d RPipe)"
| "render (BACK c) lv = paren (lv \<noteq> RLine \<and> lv \<noteq> RBack) (render c RBack @ [38])"
| "render (LIST c d) lv = paren (lv \<noteq> RLine) (render c RBack @ [59] @ render d RLine)"

definition word_ok :: "byte list \<Rightarrow> bool" where
  "word_ok w \<longleftrightarrow> w \<noteq> [] \<and> (\<forall>c \<in> set w. word_char c \<and> c \<noteq> 0)"

definition redir_ok :: "byte list \<times> int \<times> int \<Rightarrow> bool" where
  "redir_ok r \<longleftrightarrow> word_ok (fst r) \<and> (snd r = (O_RDONLY, 0) \<or> snd r = (O_WRONLY OR O_CREATE, 1))"

primrec cmd_wf :: "byte list cmd \<Rightarrow> bool" where
  "cmd_wf (EXEC ws) \<longleftrightarrow> length ws < MAXARGS \<and> (\<forall>w \<in> set ws. word_ok w)"
| "cmd_wf (REDIR c w mode fd) \<longleftrightarrow> redir_ok (w, mode, fd) \<and> cmd_wf c"
| "cmd_wf (PIPE c d) \<longleftrightarrow> cmd_wf c \<and> cmd_wf d"
| "cmd_wf (LIST c d) \<longleftrightarrow> cmd_wf c \<and> cmd_wf d"
| "cmd_wf (BACK c) \<longleftrightarrow> cmd_wf c"

text \<open>\<open>at b p v\<close>: the text from \<open>p\<close> is \<open>v\<close>, and starts with no space.\<close>

definition nows :: "byte list \<Rightarrow> bool" where
  "nows v \<longleftrightarrow> v = [] \<or> hd v \<notin> set whitespace"

definition at :: "byte list \<Rightarrow> nat \<Rightarrow> byte list \<Rightarrow> bool" where
  "at b p v \<longleftrightarrow> p \<le> length b \<and> drop p b = v \<and> nows v"

definition starts :: "byte list \<Rightarrow> byte list \<Rightarrow> bool" where
  "starts v toks \<longleftrightarrow> v \<noteq> [] \<and> hd v \<in> set toks"

lemma nows_Cons [simp]: "nows (c # v) \<longleftrightarrow> c \<notin> set whitespace" "nows []"
  by (simp_all add: nows_def)

lemma at_char: "at b p v \<Longrightarrow> char_at b p = (if v = [] then 0 else hd v)"
  by (auto simp: at_def char_at_def hd_drop_conv_nth)

lemma at_skip: "at b p v \<Longrightarrow> skip_ws b p = p"
  unfolding at_def skip_ws_def by (cases v) auto

lemma peek_at: "at b p v \<Longrightarrow> 0 \<notin> set toks \<Longrightarrow> peek b p toks = (starts v toks, p)"
  by (auto simp: peek_def at_skip at_char starts_def Let_def)

lemma at_len: "at b p v \<Longrightarrow> length b - p = length v \<and> p + length v = length b"
  by (auto simp: at_def)

lemma at_length: "at b p v \<Longrightarrow> length b = p + length v"
  using at_len [of b p v] by simp

lemma at_move:
  assumes "at b p (u @ v)" and "nows v" shows "at b (p + length u) v"
proof -
  have "drop (length u) (drop p b) = v" "p + length (u @ v) = length b"
    using assms(1) at_len [OF assms(1)] by (simp_all add: at_def)
  then show ?thesis using assms(2) by (simp add: at_def add.commute)
qed

lemma at_nows: "at b p v \<Longrightarrow> nows v"
  by (simp add: at_def)

lemma nows_append: "nows u \<Longrightarrow> u \<noteq> [] \<or> nows v \<Longrightarrow> nows (u @ v)"
  by (cases u) auto

text \<open>Tokens at a position.\<close>

lemma gettoken_symbol:
  assumes "at b p (c # v)" and "nows v" and "c \<in> {124, 40, 41, 59, 38, 60} \<or> c = 62 \<and> \<not> starts v [62]"
  shows "gettoken b p = (c, p, p + 1, p + 1)" "next_pos b p = p + 1" "at b (p + 1) v"
proof -
  show v: "at b (p + 1) v" using at_move [of b p "[c]" v] assms(1,2) by simp
  have c: "char_at b p = c" using at_char [OF assms(1)] by simp
  have c1: "char_at b (p + 1) = (if v = [] then 0 else hd v)" by (rule at_char [OF v])
  show g: "gettoken b p = (c, p, p + 1, p + 1)"
    using assms(3) c c1 unfolding gettoken_def Let_def at_skip [OF assms(1)] by (auto simp: at_skip [OF v, simplified] starts_def)
  show "next_pos b p = p + 1" by (simp add: next_pos_def g)
qed

definition str :: "byte list \<Rightarrow> span \<Rightarrow> byte list" where
  "str b w = slice (fst w) (snd w - fst w) b"

lemma word_head: "word_ok w \<Longrightarrow> \<exists>c w'. w = c # w' \<and> c \<notin> set whitespace \<and> c \<notin> set symbols \<and> c \<noteq> 0"
  by (cases w) (auto simp: word_ok_def word_char_def)

lemma gettoken_word:
  assumes "at b p (render_word w @ v)" and "nows v" and "word_ok w"
  shows "gettoken b p = (97, p, p + length w, p + length w + 1)" "at b (p + length w + 1) v" "str b (p, p + length w) = w"
proof -
  have e: "at b p (w @ 32 # v)" using assms(1) by (simp add: render_word_def)
  then have d: "drop p b = w @ 32 # v" "p \<le> length b" by (auto simp: at_def)
  show v: "at b (p + length w + 1) v" using at_move [of b p "w @ [32]" v] e assms(2) by simp
  show "str b (p, p + length w) = w" using d(1) by (simp add: str_def slice_def)
  obtain c w' where w: "w = c # w'" "c \<notin> set whitespace" "c \<notin> set symbols" "c \<noteq> 0" using word_head [OF assms(3)] by blast
  have c: "char_at b p = c" using at_char [OF e] w by simp
  have sw: "skip_word b p = p + length w"
  proof -
    have "takeWhile word_char (w @ 32 # v) = w"
      using assms(3) by (subst takeWhile_append2) (auto simp: word_ok_def word_char_def whitespace_def)
    then show ?thesis by (simp add: skip_word_def d)
  qed
  have sk: "skip_ws b (p + length w) = p + length w + 1"
  proof -
    have "drop (p + length w) b = 32 # v" using d(1) by (metis add.commute append_eq_conv_conj drop_drop)
    then show ?thesis using assms(2) by (cases v) (auto simp: skip_ws_def whitespace_def)
  qed
  show "gettoken b p = (97, p, p + length w, p + length w + 1)"
    using w c sw sk unfolding gettoken_def Let_def at_skip [OF e] by (auto simp: symbols_def)
qed

lemma nows_word: "word_ok w \<Longrightarrow> nows (render_word w @ v)"
  using word_head [of w] by (auto simp: render_word_def)

lemma render_redir_eq: "render_redir (w, mode, fd) = (if fd = 0 then 60 else 62) # render_word w"
  by (simp add: render_redir_def)

lemma nows_redirs: "nows v \<Longrightarrow> nows (concat (map render_redir rs) @ v)"
  by (cases rs) (auto simp: render_redir_def whitespace_def split: prod.splits)

lemma nows_words: "\<forall>w \<in> set ws. word_ok w \<Longrightarrow> nows v \<Longrightarrow> nows (concat (map render_word ws) @ v)"
  by (cases ws) (auto simp: nows_word)

lemma parseredirs_render:
  assumes "at b p (concat (map render_redir rs) @ v)" and "\<forall>r \<in> set rs. redir_ok r" and "nows v" and "\<not> starts v [60, 62]"
    and "length rs < k"
  shows "\<exists>rs' p'. parseredirs k b p acc = Ok (acc @ rs', p') \<and> at b p' v \<and> map (\<lambda>(w, x). (str b w, x)) rs' = rs"
  using assms
proof (induction rs arbitrary: k p acc)
  case Nil
  then obtain k' where "k = Suc k'" by (cases k) auto
  then show ?case using Nil peek_at [of b p v "[60, 62]"] by (intro exI [of _ "[]"] exI [of _ p]) simp
next
  case (Cons r rs)
  obtain w mode fd where r: "r = (w, mode, fd)" by (cases r)
  have ok: "word_ok w" "(mode, fd) = (O_RDONLY, 0) \<or> (mode, fd) = (O_WRONLY OR O_CREATE, 1)" using Cons.prems(2) r by (auto simp: redir_ok_def)
  obtain k' where k: "k = Suc k'" using Cons.prems(5) by (cases k) auto
  let ?c = "if fd = 0 then 60 else 62 :: byte" let ?rest = "concat (map render_redir rs) @ v"
  have e: "at b p (?c # render_word w @ ?rest)" using Cons.prems(1) r by (simp add: render_redir_eq)
  have nr: "nows ?rest" by (rule nows_redirs [OF Cons.prems(3)])
  have nw: "nows (render_word w @ ?rest)" by (rule nows_word [OF ok(1)])
  have "\<not> starts (render_word w @ ?rest) [62]" using word_head [OF ok(1)] by (auto simp: starts_def render_word_def symbols_def)
  then have c: "?c \<in> {124, 40, 41, 59, 38, 60} \<or> ?c = 62 \<and> \<not> starts (render_word w @ ?rest) [62]" by auto
  note S = gettoken_symbol [OF e nw c]
  note W = gettoken_word [OF S(3) nr ok(1)]
  let ?w = "(p + 1, p + 1 + length w)"
  let ?r' = "if ?c = 60 then (?w, O_RDONLY, 0) else (?w, O_WRONLY OR O_CREATE, 1)"
  have r': "?r' = (?w, mode, fd)" using ok(2) by auto
  have "\<exists>rs' p'. parseredirs k' b (p + 1 + length w + 1) (acc @ [?r']) = Ok ((acc @ [?r']) @ rs', p') \<and> at b p' v \<and>
      map (\<lambda>(w, x). (str b w, x)) rs' = rs"
    by (rule Cons.IH [OF W(2)]) (use Cons.prems k in auto)
  then obtain rs' p' where IH: "parseredirs k' b (p + 1 + length w + 1) (acc @ [?r']) = Ok ((acc @ [?r']) @ rs', p')" "at b p' v"
      "map (\<lambda>(w, x). (str b w, x)) rs' = rs" by blast
  have "parseredirs k b p acc = parseredirs k' b (p + 1 + length w + 1) (acc @ [?r'])"
    unfolding k parseredirs.simps peek_at [OF e, of "[60, 62]", simplified] prod.case S(1) W(1) by (simp add: starts_def)
  then show ?case using IH W(3) r r' by (intro exI [of _ "?r' # rs'"] exI [of _ p']) simp
qed


lemma parseargs_stop:
  assumes "at b p v" and "v = [] \<or> starts v [124, 41, 38, 59]"
  shows "parseargs (Suc k) b p argv rs = Ok (argv, rs, p)"
proof (cases v)
  case Nil
  have c: "char_at b p = 0" using at_char [OF assms(1)] Nil by simp
  have "gettoken b p = (0, p, p, p)" unfolding gettoken_def Let_def at_skip [OF assms(1)] c by (simp add: at_skip [OF assms(1)])
  then show ?thesis using Nil peek_at [OF assms(1), of "[124, 41, 38, 59]"] by (simp add: starts_def)
next
  case (Cons c v')
  then show ?thesis using assms(2) peek_at [OF assms(1), of "[124, 41, 38, 59]"] by simp
qed

lemma parseargs_render:
  assumes "at b p (concat (map render_word ws) @ concat (map render_redir rs) @ v)" and "\<forall>w \<in> set ws. word_ok w"
    and "\<forall>r \<in> set rs. redir_ok r" and "nows v" and "v = [] \<or> starts v [124, 41, 38, 59]" and "ws = [] \<Longrightarrow> rs = []"
    and "length ws < k" and "length argv + length ws < MAXARGS" and "length rs \<le> length b"
  shows "\<exists>argv' rs' p'. parseargs k b p argv [] = Ok (argv @ argv', rs', p') \<and> at b p' v \<and> map (str b) argv' = ws \<and>
    map (\<lambda>(w, x). (str b w, x)) rs' = rs"
  using assms
proof (induction ws arbitrary: k p argv)
  case Nil
  then obtain k' where k: "k = Suc k'" by (cases k) auto
  have e: "at b p v" "rs = []" using Nil.prems by auto
  show ?case using parseargs_stop [OF e(1) Nil.prems(5)] k e by (intro exI [of _ "[]"] exI [of _ "[]"] exI [of _ p]) simp
next
  case (Cons w ws)
  obtain k' where k: "k = Suc k'" using Cons.prems(7) by (cases k) auto
  have ok: "word_ok w" "\<forall>w \<in> set ws. word_ok w" using Cons.prems(2) by auto
  let ?rest = "concat (map render_word ws) @ concat (map render_redir rs) @ v"
  have e: "at b p (render_word w @ ?rest)" using Cons.prems(1) by simp
  have nr: "nows ?rest" by (intro nows_words nows_redirs ok(2) Cons.prems(4))
  note W = gettoken_word [OF e nr ok(1)]
  have st: "\<not> starts (render_word w @ ?rest) [124, 41, 38, 59]"
    using word_head [OF ok(1)] by (auto simp: starts_def render_word_def symbols_def)
  let ?p = "p + length w + 1" let ?a = "argv @ [(p, p + length w)]"
  have step: "parseargs k b p argv [] = kbind (parseredirs (Suc (length b)) b ?p []) (\<lambda>(rs, p). parseargs k' b p ?a rs)"
    unfolding k parseargs.simps peek_at [OF e, of "[124, 41, 38, 59]", simplified] prod.case W(1) using st Cons.prems(8) by simp
  show ?case
  proof (cases "ws = []")
    case True
    have "\<not> starts v [60, 62]" using Cons.prems(5) by (auto simp: starts_def)
    moreover have "at b ?p (concat (map render_redir rs) @ v)" using W(2) True by simp
    ultimately obtain rs' p' where R: "parseredirs (Suc (length b)) b ?p [] = Ok (rs', p')" "at b p' v" "map (\<lambda>(w, x). (str b w, x)) rs' = rs"
      using parseredirs_render [of b ?p rs v "Suc (length b)" "[]"] Cons.prems(3,4,9) by auto
    have k'': "0 < k'" using Cons.prems(7) k by simp
    obtain k2 where k2: "k' = Suc k2" using k'' by (cases k') auto
    have "parseargs k' b p' ?a rs' = Ok (?a, rs', p')" unfolding k2 by (rule parseargs_stop [OF R(2) Cons.prems(5)])
    then show ?thesis using R W(3) True step by (intro exI [of _ "[(p, p + length w)]"] exI [of _ rs'] exI [of _ p']) simp
  next
    case False
    then obtain u us where ws: "ws = u # us" by (cases ws) auto
    have "\<not> starts ?rest [60, 62]" using word_head [of u] ok(2) ws by (auto simp: starts_def render_word_def symbols_def)
    then have R: "parseredirs (Suc (length b)) b ?p [] = Ok ([], ?p)"
      using parseredirs_render [of b ?p "[]" ?rest "Suc (length b)" "[]"] W(2) nr peek_at [OF W(2), of "[60, 62]"] by simp
    have "\<exists>argv' rs' p'. parseargs k' b ?p ?a [] = Ok (?a @ argv', rs', p') \<and> at b p' v \<and> map (str b) argv' = ws \<and>
        map (\<lambda>(w, x). (str b w, x)) rs' = rs"
      by (rule Cons.IH [OF W(2) ok(2)]) (use Cons.prems False k in auto)
    then obtain argv' rs' p' where IH: "parseargs k' b ?p ?a [] = Ok (?a @ argv', rs', p')" "at b p' v" "map (str b) argv' = ws"
        "map (\<lambda>(w, x). (str b w, x)) rs' = rs" by blast
    then show ?thesis using step R W(3) by (intro exI [of _ "(p, p + length w) # argv'"] exI [of _ rs'] exI [of _ p']) simp
  qed
qed


lemma map_foldl_redircmd:
  "map_cmd f (foldl redircmd c rs) = foldl redircmd (map_cmd f c) (map (\<lambda>(w, x). (f w, x)) rs)"
  by (induction rs arbitrary: c) (auto simp: redircmd_def split: prod.splits)

lemma nows_render: "cmd_wf c \<Longrightarrow> nows v \<Longrightarrow> nows (render c lv @ v)"
proof (induction c arbitrary: v lv)
  case (EXEC ws)
  then show ?case using nows_words by simp
next
  case (REDIR c w mode fd)
  then show ?case using nows_redirs [of v "[(w, mode, fd)]"] by simp
qed (auto simp: paren_def whitespace_def)

text \<open>What each procedure makes of the text of a command, in front of a rest it does not touch.\<close>

definition execs_ok :: "byte list cmd \<Rightarrow> bool" where
  "execs_ok c \<longleftrightarrow> (\<forall>b p rs v n. at b p (render c RExec @ concat (map render_redir rs) @ v) \<longrightarrow> (\<forall>r \<in> set rs. redir_ok r) \<longrightarrow>
     nows v \<longrightarrow> (v = [] \<or> starts v [124, 41, 38, 59]) \<longrightarrow> need Execs (length b - p) \<le> n \<longrightarrow>
     (\<exists>c' p'. parse n Execs b p = Ok (c', p') \<and> at b p' v \<and> map_cmd (str b) c' = foldl redircmd c rs))"

definition pipes_ok :: "byte list cmd \<Rightarrow> bool" where
  "pipes_ok c \<longleftrightarrow> (\<forall>b p v n. at b p (render c RPipe @ v) \<longrightarrow> nows v \<longrightarrow> (v = [] \<or> starts v [41, 38, 59]) \<longrightarrow>
     need Pipes (length b - p) \<le> n \<longrightarrow>
     (\<exists>c' p'. parse n Pipes b p = Ok (c', p') \<and> at b p' v \<and> map_cmd (str b) c' = c))"

definition back_ok :: "byte list cmd \<Rightarrow> bool" where
  "back_ok c \<longleftrightarrow> (\<forall>b p v n. at b p (render c RBack @ v) \<longrightarrow> nows v \<longrightarrow> (v = [] \<or> starts v [41, 38, 59]) \<longrightarrow>
     need Pipes (length b - p) \<le> n \<longrightarrow>
     (\<exists>c' p' j. kbind (parse n Pipes b p) (\<lambda>(c, p). parseback (Suc (length b)) b p c) = parseback (Suc j) b p' c' \<and>
        length v \<le> j \<and> at b p' v \<and> map_cmd (str b) c' = c))"

definition line_ok :: "byte list cmd \<Rightarrow> bool" where
  "line_ok c \<longleftrightarrow> (\<forall>b p v n. at b p (render c RLine @ v) \<longrightarrow> nows v \<longrightarrow> (v = [] \<or> starts v [41]) \<longrightarrow>
     need Line (length b - p) \<le> n \<longrightarrow>
     (\<exists>c' p'. parse n Line b p = Ok (c', p') \<and> at b p' v \<and> map_cmd (str b) c' = c))"

lemma pipes_of_execs:
  assumes "execs_ok c" and "render c RPipe = render c RExec"
  shows "pipes_ok c"
  unfolding pipes_ok_def
proof (intro allI impI)
  fix b p v n assume a: "at b p (render c RPipe @ v)" "nows v" "v = [] \<or> starts v [41, 38, 59]" "need Pipes (length b - p) \<le> n"
  obtain m where n: "n = Suc m" using a(4) by (cases n) auto
  have v: "v = [] \<or> starts v [124, 41, 38, 59]" "\<not> starts v [124]" using a(3) by (auto simp: starts_def)
  obtain c' p' where E: "parse m Execs b p = Ok (c', p')" "at b p' v" "map_cmd (str b) c' = c"
    using assms(1) [unfolded execs_ok_def, rule_format, of b p "[]" v m] a v(1) assms(2) n by auto
  then show "\<exists>c' p'. parse n Pipes b p = Ok (c', p') \<and> at b p' v \<and> map_cmd (str b) c' = c"
    using n v(2) peek_at [OF E(2), of "[124]"] by simp
qed

lemma back_of_pipes:
  assumes "pipes_ok c" and "render c RBack = render c RPipe"
  shows "back_ok c"
  unfolding back_ok_def
proof (intro allI impI)
  fix b p v n assume a: "at b p (render c RBack @ v)" "nows v" "v = [] \<or> starts v [41, 38, 59]" "need Pipes (length b - p) \<le> n"
  obtain c' p' where E: "parse n Pipes b p = Ok (c', p')" "at b p' v" "map_cmd (str b) c' = c"
    using assms(1) [unfolded pipes_ok_def, rule_format, of b p v n] a assms(2) by auto
  then show "\<exists>c' p' j. kbind (parse n Pipes b p) (\<lambda>(c, p). parseback (Suc (length b)) b p c) = parseback (Suc j) b p' c' \<and>
      length v \<le> j \<and> at b p' v \<and> map_cmd (str b) c' = c"
    using at_len [OF E(2)] by (intro exI [of _ c'] exI [of _ p'] exI [of _ "length b"]) (simp del: parseback.simps)
qed

lemma parseback_stop: "at b p v \<Longrightarrow> \<not> starts v [38] \<Longrightarrow> parseback (Suc j) b p c = Ok (c, p)"
  using peek_at [of b p v "[38]"] by simp

lemma line_of_back:
  assumes "back_ok c" and "render c RLine = render c RBack"
  shows "line_ok c"
  unfolding line_ok_def
proof (intro allI impI)
  fix b p v n assume a: "at b p (render c RLine @ v)" "nows v" "v = [] \<or> starts v [41]" "need Line (length b - p) \<le> n"
  obtain m where n: "n = Suc m" using a(4) by (cases n) auto
  have v: "v = [] \<or> starts v [41, 38, 59]" "\<not> starts v [38]" "\<not> starts v [59]" using a(3) by (auto simp: starts_def)
  obtain c' p' j where E: "kbind (parse m Pipes b p) (\<lambda>(c, p). parseback (Suc (length b)) b p c) = parseback (Suc j) b p' c'"
      "at b p' v" "map_cmd (str b) c' = c"
    using assms(1) [unfolded back_ok_def, rule_format, of b p v m] a v(1) assms(2) n by (auto simp del: parseback.simps)
  have "kbind (parse m Pipes b p) (\<lambda>(c, p). parseback (Suc (length b)) b p c) = Ok (c', p')"
    using E(1) parseback_stop [OF E(2) v(2)] by (simp only:)
  then obtain c1 p1 where "parse m Pipes b p = Ok (c1, p1)" "parseback (Suc (length b)) b p1 c1 = Ok (c', p')"
    by (auto simp del: parseback.simps elim!: kbind_OkE)
  then show "\<exists>c' p'. parse n Line b p = Ok (c', p') \<and> at b p' v \<and> map_cmd (str b) c' = c"
    using E(2,3) n v(3) peek_at [OF E(2), of "[59]"] by (simp del: parseback.simps)
qed

lemma execs_of_line:
  assumes "line_ok c" and "render c RExec = [40] @ render c RLine @ [41]" and "cmd_wf c"
  shows "execs_ok c"
  unfolding execs_ok_def
proof (intro allI impI)
  fix b p rs v n
  assume a: "at b p (render c RExec @ concat (map render_redir rs) @ v)" "\<forall>r \<in> set rs. redir_ok r" "nows v"
    "v = [] \<or> starts v [124, 41, 38, 59]" "need Execs (length b - p) \<le> n"
  let ?rs = "concat (map render_redir rs) @ v"
  have e: "at b p (40 # render c RLine @ 41 # ?rs)" using a(1) assms(2) by simp
  have nr: "nows ?rs" by (rule nows_redirs [OF a(3)])
  have nl: "nows (render c RLine @ 41 # ?rs)" by (rule nows_render [OF assms(3)]) (simp add: whitespace_def)
  note S = gettoken_symbol [OF e nl, simplified]
  obtain m where n: "n = Suc (Suc m)" using a(5) by (cases n; cases "n - 1") auto
  have "length b - p = Suc (length b - (p + 1))" using at_length [OF e] by simp
  then have "need Line (length b - (p + 1)) \<le> m" using a(5) n by simp
  then obtain c' p' where L: "parse m Line b (p + 1) = Ok (c', p')" "at b p' (41 # ?rs)" "map_cmd (str b) c' = c"
    using assms(1) [unfolded line_ok_def, rule_format, of b "p + 1" "41 # ?rs" m] S(3) by (auto simp: starts_def whitespace_def)
  note S2 = gettoken_symbol [OF L(2) nr, simplified]
  have "\<not> starts v [60, 62]" using a(4) by (auto simp: starts_def)
  moreover have "length rs < Suc (length b)"
  proof -
    have "length rs \<le> length (concat (map render_redir rs))" by (induction rs) (auto simp: render_redir_def split: prod.splits)
    then show ?thesis using at_len [OF S2(3)] by simp
  qed
  ultimately obtain rs' p'' where R: "parseredirs (Suc (length b)) b (p' + 1) [] = Ok (rs', p'')" "at b p'' v" "map (\<lambda>(w, x). (str b w, x)) rs' = rs"
    using parseredirs_render [of b "p' + 1" rs v "Suc (length b)" "[]"] S2(3) a(2,3) by auto
  have "parse n Execs b p = Ok (foldl redircmd c' rs', p'')"
    using n L(1) R(1) S(2) S2(2) peek_at [OF e, of "[40]"] peek_at [OF L(2), of "[41]"] by (simp add: starts_def del: parseredirs.simps)
  then show "\<exists>c' p'. parse n Execs b p = Ok (c', p') \<and> at b p' v \<and> map_cmd (str b) c' = foldl redircmd c rs"
    using R(2,3) L(3) by (intro exI [of _ "foldl redircmd c' rs'"] exI [of _ p'']) (simp add: map_foldl_redircmd)
qed


lemma execs_EXEC:
  assumes "cmd_wf (EXEC ws)"
  shows "execs_ok (EXEC ws)"
  unfolding execs_ok_def
proof (intro allI impI)
  fix b p rs v n
  assume a: "at b p (render (EXEC ws) RExec @ concat (map render_redir rs) @ v)" "\<forall>r \<in> set rs. redir_ok r" "nows v"
    "v = [] \<or> starts v [124, 41, 38, 59]" "need Execs (length b - p) \<le> n"
  have ws: "length ws < MAXARGS" "\<forall>w \<in> set ws. word_ok w" using assms by auto
  obtain m where n: "n = Suc m" using a(5) by (cases n) auto
  let ?t = "concat (map render_word ws) @ concat (map render_redir rs) @ v"
  have e: "at b p ?t" using a(1) by simp
  have lr: "length rs \<le> length (concat (map render_redir rs))" by (induction rs) (auto simp: render_redir_def split: prod.splits)
  have lw: "length ws \<le> length (concat (map render_word ws))" by (induction ws) (auto simp: render_word_def)
  have len: "length rs \<le> length b" "length ws \<le> length b" using lr lw at_len [OF e] by auto
  have v: "\<not> starts v [60, 62]" "\<not> starts v [40]" using a(4) by (auto simp: starts_def)
  have nb: "\<not> starts ?t [40]"
  proof (cases ws)
    case Nil
    then show ?thesis using v(2) by (cases rs) (auto simp: starts_def render_redir_def split: prod.splits)
  next
    case (Cons w us)
    then show ?thesis using word_head [of w] ws(2) by (auto simp: starts_def render_word_def symbols_def)
  qed
  show "\<exists>c' p'. parse n Execs b p = Ok (c', p') \<and> at b p' v \<and> map_cmd (str b) c' = foldl redircmd (EXEC ws) rs"
  proof (cases "ws = []")
    case True
    then obtain rs' p' where R: "parseredirs (Suc (length b)) b p [] = Ok (rs', p')" "at b p' v" "map (\<lambda>(w, x). (str b w, x)) rs' = rs"
      using parseredirs_render [of b p rs v "Suc (length b)" "[]"] e a(2,3) v(1) len(1) by auto
    have "parse n Execs b p = Ok (foldl redircmd (EXEC []) rs', p')"
      using n R(1) nb peek_at [OF e, of "[40]"] parseargs_stop [OF R(2) a(4)] by (simp del: parseredirs.simps parseargs.simps)
    then show ?thesis using R True by (simp add: map_foldl_redircmd)
  next
    case False
    then obtain w us where wu: "ws = w # us" by (cases ws) auto
    have "\<not> starts ?t [60, 62]" using word_head [of w] ws(2) wu by (auto simp: starts_def render_word_def symbols_def)
    then have R: "parseredirs (Suc (length b)) b p [] = Ok ([], p)" using peek_at [OF e, of "[60, 62]"] by simp
    obtain argv' rs' p' where A: "parseargs (Suc (length b)) b p [] [] = Ok (argv', rs', p')" "at b p' v" "map (str b) argv' = ws"
        "map (\<lambda>(w, x). (str b w, x)) rs' = rs"
      using parseargs_render [OF e ws(2) a(2-4), of "Suc (length b)" "[]"] False ws(1) len by auto
    have "parse n Execs b p = Ok (foldl redircmd (EXEC argv') rs', p')"
      using n R A(1) nb peek_at [OF e, of "[40]"] by (simp del: parseredirs.simps parseargs.simps)
    then show ?thesis using A by (simp add: map_foldl_redircmd)
  qed
qed

lemma execs_REDIR:
  assumes "execs_ok c" and "redir_ok (w, mode, fd)"
  shows "execs_ok (REDIR c w mode fd)"
  unfolding execs_ok_def
proof (intro allI impI)
  fix b p rs v n
  assume a: "at b p (render (REDIR c w mode fd) RExec @ concat (map render_redir rs) @ v)" "\<forall>r \<in> set rs. redir_ok r" "nows v"
    "v = [] \<or> starts v [124, 41, 38, 59]" "need Execs (length b - p) \<le> n"
  show "\<exists>c' p'. parse n Execs b p = Ok (c', p') \<and> at b p' v \<and> map_cmd (str b) c' = foldl redircmd (REDIR c w mode fd) rs"
    using assms(1) [unfolded execs_ok_def, rule_format, of b p "(w, mode, fd) # rs" v n] a assms(2) by (auto simp: redircmd_def)
qed

lemma pipes_PIPE:
  assumes "execs_ok c" and "pipes_ok d" and "cmd_wf d"
  shows "pipes_ok (PIPE c d)"
  unfolding pipes_ok_def
proof (intro allI impI)
  fix b p v n
  assume a: "at b p (render (PIPE c d) RPipe @ v)" "nows v" "v = [] \<or> starts v [41, 38, 59]" "need Pipes (length b - p) \<le> n"
  obtain m where n: "n = Suc m" using a(4) by (cases n) auto
  let ?v = "124 # render d RPipe @ v"
  have e: "at b p (render c RExec @ ?v)" using a(1) by (simp add: paren_def)
  have "starts ?v [124, 41, 38, 59]" "nows ?v" by (simp_all add: starts_def whitespace_def)
  then obtain c' p' where C: "parse m Execs b p = Ok (c', p')" "at b p' ?v" "map_cmd (str b) c' = c"
    using assms(1) [unfolded execs_ok_def, rule_format, of b p "[]" ?v m] e a(4) n by auto
  have nd: "nows (render d RPipe @ v)" by (rule nows_render [OF assms(3) a(2)])
  note S = gettoken_symbol [OF C(2) nd, simplified]
  have "length b - (p' + 1) < length b - p" using at_length [OF C(2)] at_length [OF e] by simp
  then obtain d' p'' where D: "parse m Pipes b (p' + 1) = Ok (d', p'')" "at b p'' v" "map_cmd (str b) d' = d"
    using assms(2) [unfolded pipes_ok_def, rule_format, of b "p' + 1" v m] S(3) a n by auto
  show "\<exists>c' p'. parse n Pipes b p = Ok (c', p') \<and> at b p' v \<and> map_cmd (str b) c' = PIPE c d"
    using n C D S(2) peek_at [OF C(2), of "[124]"] by (simp add: starts_def)
qed

lemma back_BACK:
  assumes "back_ok c"
  shows "back_ok (BACK c)"
  unfolding back_ok_def
proof (intro allI impI)
  fix b p v n
  assume a: "at b p (render (BACK c) RBack @ v)" "nows v" "v = [] \<or> starts v [41, 38, 59]" "need Pipes (length b - p) \<le> n"
  have e: "at b p (render c RBack @ 38 # v)" using a(1) by (simp add: paren_def)
  have "starts (38 # v) [41, 38, 59]" "nows (38 # v)" by (simp_all add: starts_def whitespace_def)
  then obtain c' p' j where C: "kbind (parse n Pipes b p) (\<lambda>(c, p). parseback (Suc (length b)) b p c) = parseback (Suc j) b p' c'"
      "length (38 # v) \<le> j" "at b p' (38 # v)" "map_cmd (str b) c' = c"
    using assms [unfolded back_ok_def, rule_format, of b p "38 # v" n] e a(4) by blast
  obtain j' where j: "j = Suc j'" "length v \<le> j'" using C(2) by (cases j) auto
  note S = gettoken_symbol [OF C(3) a(2), simplified]
  have "parseback (Suc j) b p' c' = parseback (Suc j') b (p' + 1) (BACK c')"
    using peek_at [OF C(3), of "[38]"] S(2) j(1) by (simp add: starts_def del: parseback.simps(2)) (simp add: starts_def)
  then show "\<exists>c' p' j. kbind (parse n Pipes b p) (\<lambda>(c, p). parseback (Suc (length b)) b p c) = parseback (Suc j) b p' c' \<and>
      length v \<le> j \<and> at b p' v \<and> map_cmd (str b) c' = BACK c"
    using C S(3) j by (intro exI [of _ "BACK c'"] exI [of _ "p' + 1"] exI [of _ j']) (simp del: parseback.simps)
qed

lemma line_LIST:
  assumes "back_ok c" and "line_ok d" and "cmd_wf d"
  shows "line_ok (LIST c d)"
  unfolding line_ok_def
proof (intro allI impI)
  fix b p v n
  assume a: "at b p (render (LIST c d) RLine @ v)" "nows v" "v = [] \<or> starts v [41]" "need Line (length b - p) \<le> n"
  obtain m where n: "n = Suc m" using a(4) by (cases n) auto
  let ?v = "59 # render d RLine @ v"
  have e: "at b p (render c RBack @ ?v)" using a(1) by (simp add: paren_def)
  have sv: "starts ?v [41, 38, 59]" "nows ?v" "\<not> starts ?v [38]" by (simp_all add: starts_def whitespace_def)
  then obtain c' p' j where C: "kbind (parse m Pipes b p) (\<lambda>(c, p). parseback (Suc (length b)) b p c) = parseback (Suc j) b p' c'"
      "at b p' ?v" "map_cmd (str b) c' = c"
    using assms(1) [unfolded back_ok_def, rule_format, of b p ?v m] e a(4) n by (auto simp del: parseback.simps)
  have "kbind (parse m Pipes b p) (\<lambda>(c, p). parseback (Suc (length b)) b p c) = Ok (c', p')"
    using C(1) parseback_stop [OF C(2) sv(3)] by (simp only:)
  then obtain c1 p1 where B: "parse m Pipes b p = Ok (c1, p1)" "parseback (Suc (length b)) b p1 c1 = Ok (c', p')"
    by (auto simp del: parseback.simps elim!: kbind_OkE)
  have nd: "nows (render d RLine @ v)" by (rule nows_render [OF assms(3) a(2)])
  note S = gettoken_symbol [OF C(2) nd, simplified]
  have "length b - (p' + 1) < length b - p" using at_length [OF C(2)] at_length [OF e] by simp
  then obtain d' p'' where D: "parse m Line b (p' + 1) = Ok (d', p'')" "at b p'' v" "map_cmd (str b) d' = d"
    using assms(2) [unfolded line_ok_def, rule_format, of b "p' + 1" v m] S(3) a n by auto
  show "\<exists>c' p'. parse n Line b p = Ok (c', p') \<and> at b p' v \<and> map_cmd (str b) c' = LIST c d"
    using n B C(2,3) D S(2) peek_at [OF C(2), of "[59]"] by (simp add: starts_def del: parseback.simps)
qed

lemma render_parse: "cmd_wf c \<Longrightarrow> execs_ok c \<and> pipes_ok c \<and> back_ok c \<and> line_ok c"
proof (induction c)
  case (EXEC ws)
  then have e: "execs_ok (EXEC ws)" by (rule execs_EXEC)
  then have p: "pipes_ok (EXEC ws)" by (rule pipes_of_execs) simp
  then have b: "back_ok (EXEC ws)" by (rule back_of_pipes) simp
  then have "line_ok (EXEC ws)" by (rule line_of_back) simp
  then show ?case using e p b by simp
next
  case (REDIR c w mode fd)
  then have e: "execs_ok (REDIR c w mode fd)" by (auto intro: execs_REDIR)
  then have p: "pipes_ok (REDIR c w mode fd)" by (rule pipes_of_execs) simp
  then have b: "back_ok (REDIR c w mode fd)" by (rule back_of_pipes) simp
  then have "line_ok (REDIR c w mode fd)" by (rule line_of_back) simp
  then show ?case using e p b by simp
next
  case (PIPE c d)
  then have p: "pipes_ok (PIPE c d)" by (auto intro: pipes_PIPE)
  then have b: "back_ok (PIPE c d)" by (rule back_of_pipes) (simp add: paren_def)
  then have l: "line_ok (PIPE c d)" by (rule line_of_back) (simp add: paren_def)
  then show ?case using p b PIPE.prems execs_of_line [of "PIPE c d"] by (simp add: paren_def)
next
  case (LIST c d)
  then have l: "line_ok (LIST c d)" by (auto intro: line_LIST)
  then have e: "execs_ok (LIST c d)" using LIST.prems execs_of_line [of "LIST c d"] by (simp add: paren_def)
  then have "pipes_ok (LIST c d)" by (rule pipes_of_execs) simp
  moreover from this have "back_ok (LIST c d)" by (rule back_of_pipes) simp
  ultimately show ?case using l e by simp
next
  case (BACK c)
  then have b: "back_ok (BACK c)" by (auto intro: back_BACK)
  then have l: "line_ok (BACK c)" by (rule line_of_back) (simp add: paren_def)
  then have e: "execs_ok (BACK c)" using BACK.prems execs_of_line [of "BACK c"] by (simp add: paren_def)
  then have "pipes_ok (BACK c)" by (rule pipes_of_execs) (simp add: paren_def)
  then show ?case using b l e by simp
qed

lemma parse_line_sound: "sound (parsed b 0) (parse (parse_fuel b) Line b 0)"
  by (rule parse_sound) (simp_all add: parse_fuel_def)

lemma zero_render: "cmd_wf c \<Longrightarrow> 0 \<notin> set (render c lv)"
  by (induction c arbitrary: lv) (auto simp: word_ok_def render_word_def render_redir_def redir_ok_def paren_def)

section \<open>Properties\<close>

text \<open>
  C28: \<open>parsecmd\<close> ends on every line, with a command or a syntax error. In the buffer it leaves
  behind, every word of the command is the start of a terminated string: exactly the characters
  between the two pointers the parser kept for it, none of them a space or an operator.
\<close>

theorem parsecmd_ends:
  assumes "0 \<notin> set b"
  shows "sound (\<lambda>(c, buf). \<forall>w \<in> set_cmd c. string_at buf (fst w) = str b w \<and> word_ok (str b w)) (parsecmd b)"
  unfolding parsecmd_def
proof (rule sound_bind [OF parse_line_sound])
  fix x assume x: "parsed b 0 x"
  obtain c p where xx: "x = (c, p)" by fastforce
  have ok: "\<forall>w \<in> set_cmd c. span_ok b w" using x xx by simp
  have "string_at (nulterminate c (b @ [0])) (fst w) = str b w \<and> word_ok (str b w)" if "w \<in> set_cmd c" for w
  proof
    show "string_at (nulterminate c (b @ [0])) (fst w) = str b w"
      using nulterminate_words [OF ok assms, of "fst w" "snd w"] that by (simp add: str_def)
    have s: "fst w < snd w" "snd w \<le> length b" "\<And>i. fst w \<le> i \<Longrightarrow> i < snd w \<Longrightarrow> word_char (b ! i)"
      using ok that by (auto simp: span_ok_def)
    have "word_char z \<and> z \<noteq> 0" if z: "z \<in> set (str b w)" for z
    proof -
      obtain i where i: "i < length (str b w)" "z = str b w ! i" using z by (auto simp: in_set_conv_nth)
      have "length (str b w) = snd w - fst w" using s by (simp add: str_def)
      then have "z = b ! (fst w + i)" "fst w + i < snd w" using i s by (auto simp: str_def nth_slice)
      then show ?thesis using s assms by (metis le_add1 less_le_trans nth_mem)
    qed
    moreover have "str b w \<noteq> []" using s by (auto simp: str_def slice_def)
    ultimately show "word_ok (str b w)" by (simp add: word_ok_def)
  qed
  then show "sound (\<lambda>(c, buf). \<forall>w \<in> set_cmd c. string_at buf (fst w) = str b w \<and> word_ok (str b w))
      (case x of (c, p) \<Rightarrow> case peek b p [] of (_, p) \<Rightarrow>
        if p \<noteq> length b then Panic ''syntax'' else Ok (c, nulterminate c (b @ [0])))"
    using xx by (auto split: prod.splits)
qed

theorem parsecmd_ends_witness:
  "sound (\<lambda>(c, buf). \<nexists>w. w \<in> set_cmd c \<and> string_at buf (fst w) \<noteq> str [108, 115, 62, 102] w) (parsecmd [108, 115, 62, 102])"
  by (rule sound_mono [OF parsecmd_ends]) auto

text \<open>
  C27: round trip. A command written out as text (words and redirections, pipes, lists, background
  commands, parentheses where needed) parses back to itself, and the strings its words point to
  in the terminated buffer are the words it was written with.
\<close>

theorem parsecmd_render:
  assumes "cmd_wf c"
  shows "\<exists>c' buf. parsecmd (render c RLine) = Ok (c', buf) \<and> map_cmd (\<lambda>w. string_at buf (fst w)) c' = c"
proof -
  let ?b = "render c RLine"
  have "nows ?b" using nows_render [OF assms, of "[]" RLine] by simp
  then have at0: "at ?b 0 (?b @ [])" by (simp add: at_def)
  obtain c' p' where P: "parse (parse_fuel ?b) Line ?b 0 = Ok (c', p')" "at ?b p' []" "map_cmd (str ?b) c' = c"
    using render_parse [OF assms] at0 unfolding line_ok_def by (fastforce simp: parse_fuel_def)
  have p': "p' = length ?b" using at_length [OF P(2)] by simp
  have ok: "\<forall>w \<in> set_cmd c'. span_ok ?b w" using parse_line_sound [of ?b] P(1) by simp
  have "string_at (nulterminate c' (?b @ [0])) (fst w) = str ?b w" if "w \<in> set_cmd c'" for w
    using nulterminate_words [OF ok zero_render [OF assms], of "fst w" "snd w"] that by (simp add: str_def)
  then have "map_cmd (\<lambda>w. string_at (nulterminate c' (?b @ [0])) (fst w)) c' = map_cmd (str ?b) c'" by (rule cmd.map_cong0)
  then show ?thesis using P p' at_skip [OF P(2)] by (simp add: parsecmd_def peek_def Let_def)
qed

definition demo_cmd :: "byte list cmd" where
  "demo_cmd = LIST (BACK (EXEC [[97]])) (PIPE (REDIR (EXEC [[98], [99, 100]]) [102] O_RDONLY 0) (EXEC [[101]]))"

theorem parsecmd_render_witness:
  "\<exists>c' buf. parsecmd (render demo_cmd RLine) = Ok (c', buf) \<and> map_cmd (\<lambda>w. string_at buf (fst w)) c' = demo_cmd"
  by (rule parsecmd_render)
    (simp add: demo_cmd_def word_ok_def redir_ok_def word_char_def whitespace_def symbols_def MAXARGS_def)

end
