(* ===== verification/Xv6_Pipe.thy ===== *)
theory Xv6_Pipe
  imports Ring
begin

text \<open>
  Pipes (\<open>pipe.c\<close>). The pipe's lock is held from one sleep to the next, so the code between two
  sleeps is atomic; an operation that has to sleep returns what it still has to do. A woken read is a new
  call. A woken write goes on with \<open>pipewrite_loop\<close> on the rest and returns the count of its first call;
  on the pipe this is the same as a new call on the rest (\<open>pipewrite_resume\<close>), which is how it appears in
  a sequence of calls. The wakeups of readers and writers are counted. \<open>pipealloc\<close>, which takes a
  page and two file structures, sets the state \<open>pipe_new\<close>.
\<close>

definition PIPESIZE :: nat where "PIPESIZE = 512"

record pipe =
  data :: "byte list"
  nread :: uint
  nwrite :: uint
  readopen :: bool
  writeopen :: bool
  freed :: bool
  rwakes :: nat
  wwakes :: nat

definition pipe_new :: "byte list \<Rightarrow> pipe" where
  "pipe_new page = \<lparr>data = take PIPESIZE page, nread = 0, nwrite = 0, readopen = True, writeopen = True,
     freed = False, rwakes = 0, wwakes = 0\<rparr>"

definition pipeclose :: "bool \<Rightarrow> pipe \<Rightarrow> pipe" where
  "pipeclose writable p =
    (let p = (if writable then p\<lparr>writeopen := False, rwakes := rwakes p + 1\<rparr>
              else p\<lparr>readopen := False, wwakes := wwakes p + 1\<rparr>)
     in if \<not> readopen p \<and> \<not> writeopen p then p\<lparr>freed := True\<rparr> else p)"

text \<open>A write returns a count or -1, or sleeps with the bytes it still has to store.\<close>

datatype pwrite = WReturn int | WSleep "byte list"

primrec pipewrite_loop :: "bool \<Rightarrow> nat \<Rightarrow> byte list \<Rightarrow> pipe \<Rightarrow> pwrite \<times> pipe" where
  "pipewrite_loop killed n [] p = (WReturn (int n), p\<lparr>rwakes := rwakes p + 1\<rparr>)"
| "pipewrite_loop killed n (c # addr) p =
    (if nwrite p = nread p + of_nat PIPESIZE then
       if \<not> readopen p \<or> killed then (WReturn (-1), p)
       else (WSleep (c # addr), p\<lparr>rwakes := rwakes p + 1\<rparr>)
     else
       pipewrite_loop killed n addr
         (p\<lparr>data := (data p)[unat (nwrite p) mod PIPESIZE := c], nwrite := nwrite p + 1\<rparr>))"

definition pipewrite :: "bool \<Rightarrow> byte list \<Rightarrow> pipe \<Rightarrow> pwrite \<times> pipe" where
  "pipewrite killed addr p = pipewrite_loop killed (length addr) addr p"

lemma pipewrite_resume: "snd (pipewrite_loop killed n addr p) = snd (pipewrite killed addr p)"
proof -
  have "snd (pipewrite_loop killed n addr p) = snd (pipewrite_loop killed m addr p)" for m
    by (induction addr arbitrary: p) auto
  then show ?thesis by (simp add: pipewrite_def)
qed

text \<open>A read returns -1 or the bytes it copied, or sleeps.\<close>

datatype pread = RReturn int "byte list" | RSleep

primrec piperead_copy :: "nat \<Rightarrow> pipe \<Rightarrow> byte list \<times> pipe" where
  "piperead_copy 0 p = ([], p)"
| "piperead_copy (Suc n) p =
    (if nread p = nwrite p then ([], p)
     else case piperead_copy n (p\<lparr>nread := nread p + 1\<rparr>) of (cs, p') \<Rightarrow>
       (data p ! (unat (nread p) mod PIPESIZE) # cs, p'))"

definition piperead :: "bool \<Rightarrow> nat \<Rightarrow> pipe \<Rightarrow> pread \<times> pipe" where
  "piperead killed n p =
    (if nread p = nwrite p \<and> writeopen p then if killed then (RReturn (-1) [], p) else (RSleep, p)
     else case piperead_copy n p of (cs, p') \<Rightarrow>
       (RReturn (int (length cs)) cs, p'\<lparr>wwakes := wwakes p' + 1\<rparr>))"

section \<open>A pipe is a bounded queue\<close>

interpretation pring: ring_size PIPESIZE
  by unfold_locales (simp_all add: PIPESIZE_def)

definition pipe_rep :: "pipe \<Rightarrow> byte list \<Rightarrow> bool" where
  "pipe_rep p q \<longleftrightarrow> length (data p) = PIPESIZE \<and> length q \<le> PIPESIZE \<and> nwrite p = nread p + of_nat (length q) \<and>
     ring PIPESIZE (data p) (nread p) (length q) = q"

lemma pipe_rep_full: "pipe_rep p q \<Longrightarrow> nwrite p = nread p + of_nat PIPESIZE \<longleftrightarrow> length q = PIPESIZE"
proof -
  assume r: "pipe_rep p q"
  then have "nwrite p = nread p + of_nat PIPESIZE \<longleftrightarrow> (of_nat (length q) :: uint) = of_nat PIPESIZE" by (simp add: pipe_rep_def)
  also have "\<dots> \<longleftrightarrow> length q = PIPESIZE"
    using r by (simp only: word_unat_eq_iff) (simp add: pipe_rep_def PIPESIZE_def unat_of_nat)
  finally show ?thesis .
qed

lemma pipe_rep_empty: "pipe_rep p q \<Longrightarrow> nread p = nwrite p \<longleftrightarrow> q = []"
proof -
  assume r: "pipe_rep p q"
  then have "nread p = nwrite p \<longleftrightarrow> unat (of_nat (length q) :: uint) = 0" by (simp only: unat_eq_0) (simp add: pipe_rep_def)
  also have "\<dots> \<longleftrightarrow> q = []" using r by (simp add: pipe_rep_def PIPESIZE_def unat_of_nat)
  finally show ?thesis .
qed

lemma pipe_rep_put:
  assumes "pipe_rep p q" and "length q < PIPESIZE"
  shows "pipe_rep (p\<lparr>data := (data p)[unat (nwrite p) mod PIPESIZE := c], nwrite := nwrite p + 1\<rparr>) (q @ [c])"
  using assms pring.ring_push [of "data p" "length q" "nread p" c] by (simp add: pipe_rep_def add.assoc)

lemma pipe_rep_get:
  assumes "pipe_rep p (c # q)"
  shows "data p ! (unat (nread p) mod PIPESIZE) = c" "pipe_rep (p\<lparr>nread := nread p + 1\<rparr>) q"
  using assms by (simp_all add: pipe_rep_def ring_Cons add.assoc)

text \<open>Only the fields that belong to the queue and the counters change.\<close>

definition same_ends :: "pipe \<Rightarrow> pipe \<Rightarrow> bool" where
  "same_ends p p' \<longleftrightarrow> readopen p' = readopen p \<and> writeopen p' = writeopen p \<and> freed p' = freed p"

lemma pipe_rep_wakes [simp]: "pipe_rep (p\<lparr>rwakes := k\<rparr>) q = pipe_rep p q" "pipe_rep (p\<lparr>wwakes := k\<rparr>) q = pipe_rep p q"
  by (simp_all add: pipe_rep_def)

lemma pipewrite_loop_rep:
  assumes "pipe_rep p q"
  shows "\<exists>p'. pipewrite_loop killed n addr p =
      (if length q + length addr \<le> PIPESIZE then WReturn (int n)
       else if \<not> readopen p \<or> killed then WReturn (-1) else WSleep (drop (PIPESIZE - length q) addr), p') \<and>
    pipe_rep p' (q @ take (PIPESIZE - length q) addr) \<and> same_ends p p'"
  using assms
proof (induction addr arbitrary: p q)
  case Nil
  then show ?case by (auto simp: same_ends_def pipe_rep_def)
next
  case (Cons c addr)
  note full = pipe_rep_full [OF Cons.prems]
  show ?case
  proof (cases "length q = PIPESIZE")
    case True
    then show ?thesis using Cons.prems full by (auto simp: same_ends_def)
  next
    case False
    then have lt: "length q < PIPESIZE" using Cons.prems by (simp add: pipe_rep_def)
    let ?p1 = "p\<lparr>data := (data p)[unat (nwrite p) mod PIPESIZE := c], nwrite := nwrite p + 1\<rparr>"
    from Cons.IH [OF pipe_rep_put [OF Cons.prems lt, of c]] obtain p' where IH:
      "pipewrite_loop killed n addr ?p1 =
        (if length (q @ [c]) + length addr \<le> PIPESIZE then WReturn (int n)
         else if \<not> readopen ?p1 \<or> killed then WReturn (-1) else WSleep (drop (PIPESIZE - length (q @ [c])) addr), p')"
      "pipe_rep p' ((q @ [c]) @ take (PIPESIZE - length (q @ [c])) addr)" "same_ends ?p1 p'" by blast
    obtain k where k: "PIPESIZE - length q = Suc k" "PIPESIZE - length (q @ [c]) = k" using lt by (cases "PIPESIZE - length q") auto
    show ?thesis using IH False full k by (intro exI [of _ p']) (auto simp: same_ends_def)
  qed
qed

lemma piperead_copy_rep:
  "pipe_rep p q \<Longrightarrow> \<exists>p'. piperead_copy n p = (take n q, p') \<and> pipe_rep p' (drop n q) \<and> same_ends p p'"
proof (induction n arbitrary: p q)
  case 0
  then show ?case by (simp add: same_ends_def)
next
  case (Suc n)
  show ?case
  proof (cases q)
    case Nil
    then show ?thesis using Suc.prems pipe_rep_empty [OF Suc.prems] by (simp add: same_ends_def)
  next
    case (Cons c q')
    note G = pipe_rep_get [OF Suc.prems [unfolded Cons]]
    from Suc.IH [OF G(2)] show ?thesis
      using Cons G(1) pipe_rep_empty [OF Suc.prems] by (auto simp: same_ends_def)
  qed
qed

section \<open>Any sequence of operations\<close>

text \<open>
  A history of a pipe: writes, reads and closes in any order, by any processes. A write that sleeps
  is followed by further writes of what it has left. \<open>run\<close> collects the bytes stored and the
  bytes delivered.
\<close>

datatype pipeop = Write bool "byte list" | Read bool nat | Close bool

definition stored :: "byte list \<Rightarrow> pipe \<Rightarrow> byte list" where
  "stored addr p = take (PIPESIZE - unat (nwrite p - nread p)) addr"

primrec pipe_op :: "pipeop \<Rightarrow> pipe \<Rightarrow> byte list \<times> byte list \<times> pipe" where
  "pipe_op (Write killed addr) p = (stored addr p, [], snd (pipewrite killed addr p))"
| "pipe_op (Read killed n) p =
    (case piperead killed n p of (r, p') \<Rightarrow> ([], case r of RReturn _ cs \<Rightarrow> cs | RSleep \<Rightarrow> [], p'))"
| "pipe_op (Close writable) p = ([], [], pipeclose writable p)"

primrec pipe_run :: "pipeop list \<Rightarrow> pipe \<Rightarrow> byte list \<times> byte list \<times> pipe" where
  "pipe_run [] p = ([], [], p)"
| "pipe_run (x # xs) p =
    (case pipe_op x p of (w, r, p1) \<Rightarrow> case pipe_run xs p1 of (ws, rs, p2) \<Rightarrow> (w @ ws, r @ rs, p2))"

lemma pipe_op_rep:
  assumes "pipe_rep p q"
  shows "\<exists>w r p' q'. pipe_op x p = (w, r, p') \<and> pipe_rep p' q' \<and> q @ w = r @ q'"
proof (cases x)
  case (Write killed addr)
  have "unat (nwrite p - nread p) = length q" using assms by (simp add: pipe_rep_def PIPESIZE_def unat_of_nat)
  then show ?thesis using pipewrite_loop_rep [OF assms, of killed "length addr" addr] Write
    by (auto simp: stored_def pipewrite_def)
next
  case (Read killed n)
  obtain p' where p': "piperead_copy n p = (take n q, p')" "pipe_rep p' (drop n q)" using piperead_copy_rep [OF assms] by blast
  then show ?thesis using assms Read by (auto simp: piperead_def)
next
  case (Close writable)
  then show ?thesis using assms by (auto simp: pipeclose_def Let_def pipe_rep_def)
qed

lemma pipe_run_rep:
  "pipe_rep p q \<Longrightarrow> \<exists>w r p' q'. pipe_run xs p = (w, r, p') \<and> pipe_rep p' q' \<and> q @ w = r @ q'"
proof (induction xs arbitrary: p q)
  case (Cons x xs)
  obtain w r p1 q1 where o: "pipe_op x p = (w, r, p1)" "pipe_rep p1 q1" "q @ w = r @ q1" using pipe_op_rep [OF Cons.prems] by blast
  obtain w' r' p2 q2 where s: "pipe_run xs p1 = (w', r', p2)" "pipe_rep p2 q2" "q1 @ w' = r' @ q2" using Cons.IH [OF o(2)] by blast
  have "q @ (w @ w') = (r @ r') @ q2" using o(3) s(3) by (metis append_assoc)
  then show ?case using o s by auto
qed auto

lemma pipe_rep_new: "length page = 4096 \<Longrightarrow> pipe_rep (pipe_new page) []"
  by (simp add: pipe_rep_def pipe_new_def PIPESIZE_def)

section \<open>Properties\<close>

text \<open>
  C26: whatever reads, writes and closes are made on a new pipe, in any order, the bytes delivered are
  the bytes stored, in order and without loss or repetition, except for at most 512 that are still in
  the buffer, and the buffer holds exactly these.
\<close>

theorem pipe_is_fifo:
  assumes "length page = 4096"
  shows "\<exists>w r p q. pipe_run xs (pipe_new page) = (w, r, p) \<and> w = r @ q \<and> length q \<le> 512 \<and> pipe_rep p q"
  using pipe_run_rep [OF pipe_rep_new [OF assms], of xs] by (fastforce simp: pipe_rep_def PIPESIZE_def)

theorem pipe_is_fifo_witness:
  "\<exists>w r p q. pipe_run [Write False [1, 2, 3], Read False 2, Close True] (pipe_new (replicate 4096 1)) = (w, r, p) \<and> w = r @ q \<and>
     length q \<le> 512 \<and> pipe_rep p q"
  by (rule pipe_is_fifo) simp

text \<open>
  C29: \<open>pipewrite\<close> against the queue. If everything fits it returns the count; otherwise it fills the
  buffer and sleeps with the rest, or returns -1 if the readers are gone or the writer is killed.
  \<open>piperead\<close> returns what is there, up to \<open>n\<close> bytes; it sleeps only on an empty pipe whose writers are
  still open, so a closed pipe reads as end of file.
\<close>

theorem pipe_calls:
  assumes "pipe_rep p q"
  shows "(\<exists>p'. pipewrite killed addr p =
        (if length q + length addr \<le> PIPESIZE then WReturn (int (length addr))
         else if \<not> readopen p \<or> killed then WReturn (-1) else WSleep (drop (PIPESIZE - length q) addr), p') \<and>
      pipe_rep p' (q @ take (PIPESIZE - length q) addr)) \<and>
    (\<exists>p'. piperead killed n p =
        (if q = [] \<and> writeopen p then if killed then RReturn (-1) [] else RSleep
         else RReturn (int (min n (length q))) (take n q), p') \<and>
      pipe_rep p' (drop n q))"
proof
  show "\<exists>p'. pipewrite killed addr p =
        (if length q + length addr \<le> PIPESIZE then WReturn (int (length addr))
         else if \<not> readopen p \<or> killed then WReturn (-1) else WSleep (drop (PIPESIZE - length q) addr), p') \<and>
      pipe_rep p' (q @ take (PIPESIZE - length q) addr)"
    using pipewrite_loop_rep [OF assms, of killed "length addr" addr] by (auto simp: pipewrite_def)
  obtain p' where "piperead_copy n p = (take n q, p')" "pipe_rep p' (drop n q)" using piperead_copy_rep [OF assms] by blast
  then show "\<exists>p'. piperead killed n p =
        (if q = [] \<and> writeopen p then if killed then RReturn (-1) [] else RSleep
         else RReturn (int (min n (length q))) (take n q), p') \<and>
      pipe_rep p' (drop n q)"
    using assms pipe_rep_empty [OF assms] by (auto simp: piperead_def min.commute)
qed

theorem pipe_calls_witness:
  "\<exists>p'. pipewrite False (replicate 600 7) (pipe_new (replicate 4096 1)) = (WSleep (replicate 88 7), p') \<and> pipe_rep p' (replicate 512 7)"
  using pipe_calls [OF pipe_rep_new, of "replicate 4096 1" False "replicate 600 7" 0]
  by (auto simp: PIPESIZE_def pipe_new_def)

end
