(* ===== verification/Xv6_Proc.thy ===== *)
theory Xv6_Proc
  imports Prelude
begin

text \<open>
  Processes and the scheduler (\<open>proc.c\<close>, \<open>proc.h\<close>, and \<open>sys_setpriority\<close> of \<open>sysproc.c\<close>), with the
  priority scheduler of lab 3. A process is named by its index in the table. What \<open>ptable.lock\<close> protects
  is one atomic change of the table; \<open>fork\<close> and \<open>exit\<close>, which work on the table outside of the lock
  too, are split into parts, and the step relation interleaves the parts. \<open>swtch\<close> is the change of the
  process a CPU runs. Results of the memory allocator and of \<open>copyuvm\<close> are arguments, since they come
  from other components. Process ids do not wrap around: \<open>nextpid++\<close> is undefined in C past \<open>INT_MAX\<close>.
  The checks of \<open>sched\<close> on the lock and the interrupt flag are not modelled.
\<close>

definition NPROC :: nat where "NPROC = 64"
definition NCPU :: nat where "NCPU = 8"
definition NOFILE :: nat where "NOFILE = 16"

datatype procstate = UNUSED | EMBRYO | SLEEPING | RUNNABLE | RUNNING | ZOMBIE

text \<open>The name of a process is its text up to the terminating 0.\<close>

text \<open>What a process sleeps on: nothing, a process table entry, or another address.\<close>

datatype chan = NoChan | ProcChan nat | Addr uint

record proc =
  sz :: uint
  pgdir :: uint
  kstack :: uint
  state :: procstate
  pid :: int
  parent :: "nat option"
  tf :: "uint list"
  context_ :: "uint list"
  chan :: chan
  killed :: bool
  ofile :: "nat option list"
  cwd :: "nat option"
  name :: "byte list"
  priority :: int

text \<open>
  A CPU: the process it runs, if any, and where its scheduler is: the priority of the current pass
  and the table index the pass has reached.
\<close>

record cpu =
  curproc :: "nat option"
  pass :: int
  pos :: nat

record ptable =
  procs :: "proc list"
  nextpid :: int
  initproc :: nat
  cpus :: "cpu list"

definition upd :: "nat \<Rightarrow> (proc \<Rightarrow> proc) \<Rightarrow> ptable \<Rightarrow> ptable" where
  "upd i f st = st\<lparr>procs := (procs st)[i := f (procs st ! i)]\<rparr>"

definition upd_cpu :: "nat \<Rightarrow> (cpu \<Rightarrow> cpu) \<Rightarrow> ptable \<Rightarrow> ptable" where
  "upd_cpu c f st = st\<lparr>cpus := (cpus st)[c := f (cpus st ! c)]\<rparr>"

text \<open>
  The table before the first process: zeroed memory, with \<open>nextpid\<close> at 1 and every CPU at the point
  where its scheduler starts a pass.
\<close>

definition proc0 :: proc where
  "proc0 = \<lparr>sz = 0, pgdir = 0, kstack = 0, state = UNUSED, pid = 0, parent = None, tf = [], context_ = [], chan = NoChan,
     killed = False, ofile = replicate NOFILE None, cwd = None, name = [], priority = 0\<rparr>"

definition ptable0 :: ptable where
  "ptable0 = \<lparr>procs = replicate NPROC proc0, nextpid = 1, initproc = 0,
     cpus = replicate NCPU \<lparr>curproc = None, pass = 201, pos = NPROC\<rparr>\<rparr>"

section \<open>Creating processes\<close>

text \<open>The part of \<open>allocproc\<close> under the lock: take an unused slot.\<close>

definition alloc_slot :: "ptable \<Rightarrow> (nat \<times> ptable) option" where
  "alloc_slot st =
    (case find (\<lambda>i. state (procs st ! i) = UNUSED) [0..<NPROC] of
       None \<Rightarrow> None
     | Some i \<Rightarrow>
         Some (i, (upd i (\<lambda>p. p\<lparr>state := EMBRYO, pid := nextpid st, priority := 50\<rparr>) st)\<lparr>nextpid := nextpid st + 1\<rparr>))"

text \<open>
  The rest of it: the kernel stack. \<open>ks\<close> is what \<open>kalloc\<close> returns: nothing, or a page and the words
  on it where the trap frame goes. \<open>forkret\<close> is the address of that function.
\<close>

definition alloc_stack :: "uint \<Rightarrow> (uint \<times> uint list) option \<Rightarrow> nat \<Rightarrow> ptable \<Rightarrow> ptable" where
  "alloc_stack forkret ks i st =
    (case ks of
       None \<Rightarrow> upd i (\<lambda>p. p\<lparr>kstack := 0, state := UNUSED\<rparr>) st
     | Some (a, w) \<Rightarrow> upd i (\<lambda>p. p\<lparr>kstack := a, tf := w, context_ := [0, 0, 0, 0, forkret]\<rparr>) st)"

definition allocproc :: "uint \<Rightarrow> (uint \<times> uint list) option \<Rightarrow> ptable \<Rightarrow> nat option \<times> ptable" where
  "allocproc forkret ks st =
    (case alloc_slot st of
       None \<Rightarrow> (None, st)
     | Some (i, st) \<Rightarrow> (if ks = None then None else Some i, alloc_stack forkret ks i st))"

text \<open>
  Words of a trap frame; \<open>SEG_UCODE << 3 | DPL_USER\<close> and \<open>SEG_UDATA << 3 | DPL_USER\<close> are 0x1b and 0x23,
  and \<open>FL_IF\<close> is 0x200.
\<close>

definition init_tf :: "uint list" where
  "init_tf = (replicate 19 0)[15 := 0x1b, 11 := 0x23, 10 := 0x23, 18 := 0x23, 16 := 0x200, 17 := 4096, 14 := 0]"

text \<open>
  \<open>userinit\<close>: \<open>pg\<close> is what \<open>setupkvm\<close> returns (0 for none) and \<open>root\<close> the inode of \<open>/\<close>. With no
  process the first access is through a null pointer.
\<close>

definition userinit :: "uint \<Rightarrow> (uint \<times> uint list) option \<Rightarrow> uint \<Rightarrow> nat \<Rightarrow> ptable \<Rightarrow> ptable kres" where
  "userinit forkret ks pg root st =
    (case allocproc forkret ks st of
       (None, st) \<Rightarrow> Undefined
     | (Some i, st) \<Rightarrow>
         if pg = 0 then Panic ''userinit: out of memory?''
         else Ok (upd i (\<lambda>p. p\<lparr>pgdir := pg, sz := 4096, tf := init_tf,
             name := map of_char ''initcode'', cwd := Some root, state := RUNNABLE\<rparr>) (st\<lparr>initproc := i\<rparr>)))"

text \<open>The index of \<open>eax\<close> among the words of a trap frame.\<close>

definition EAX :: nat where "EAX = 7"

text \<open>What \<open>fork\<close> does without a copy of the memory, and with the copy \<open>pg\<close>.\<close>

definition fork_abort :: "nat \<Rightarrow> ptable \<Rightarrow> ptable" where
  "fork_abort np st = upd np (\<lambda>p. p\<lparr>pgdir := 0, kstack := 0, state := UNUSED\<rparr>) st"

definition fork_fill :: "nat \<Rightarrow> nat \<Rightarrow> uint \<Rightarrow> ptable \<Rightarrow> ptable" where
  "fork_fill cur np pg st =
    (let c = procs st ! cur in
     upd np (\<lambda>p. p\<lparr>pgdir := pg, sz := sz c, parent := Some cur, tf := (tf c)[EAX := 0],
       ofile := map2 (\<lambda>a b. if a \<noteq> None then a else b) (ofile c) (ofile p),
       cwd := cwd c, name := take 15 (name c)\<rparr>) st)"

definition fork_done :: "nat \<Rightarrow> ptable \<Rightarrow> ptable" where
  "fork_done np st = upd np (\<lambda>p. p\<lparr>state := RUNNABLE\<rparr>) st"

text \<open>\<open>fork\<close> by process \<open>cur\<close>; \<open>pg\<close> is the page directory \<open>copyuvm\<close> returns (0 for none).\<close>

definition fork :: "uint \<Rightarrow> nat \<Rightarrow> (uint \<times> uint list) option \<Rightarrow> uint \<Rightarrow> ptable \<Rightarrow> int \<times> ptable" where
  "fork forkret cur ks pg st =
    (case allocproc forkret ks st of
       (None, st) \<Rightarrow> (-1, st)
     | (Some np, st) \<Rightarrow>
         if pg = 0 then (-1, fork_abort np st)
         else (let st = fork_fill cur np pg st in (pid (procs st ! np), fork_done np st)))"

section \<open>Sleeping and waking\<close>

definition wake_proc :: "chan \<Rightarrow> proc \<Rightarrow> proc" where
  "wake_proc ch p = (if state p = SLEEPING \<and> chan p = ch then p\<lparr>state := RUNNABLE\<rparr> else p)"

definition wakeup1 :: "chan \<Rightarrow> ptable \<Rightarrow> ptable" where
  "wakeup1 ch st = st\<lparr>procs := map (wake_proc ch) (procs st)\<rparr>"

definition wakeup :: "chan \<Rightarrow> ptable \<Rightarrow> ptable" where
  "wakeup ch st = wakeup1 ch st"

text \<open>\<open>sched\<close> on CPU \<open>c\<close>: back to its scheduler, which clears the current process.\<close>

definition sched :: "nat \<Rightarrow> ptable \<Rightarrow> ptable kres" where
  "sched c st =
    (case curproc (cpus st ! c) of None \<Rightarrow> Undefined
     | Some p \<Rightarrow>
         if state (procs st ! p) = RUNNING then Panic ''sched running''
         else Ok (upd_cpu c (\<lambda>cp. cp\<lparr>curproc := None\<rparr>) st))"

definition yield :: "nat \<Rightarrow> ptable \<Rightarrow> ptable kres" where
  "yield c st =
    (case curproc (cpus st ! c) of None \<Rightarrow> Undefined
     | Some p \<Rightarrow> sched c (upd p (\<lambda>q. q\<lparr>state := RUNNABLE\<rparr>) st))"

text \<open>\<open>sleep\<close> up to the switch; what follows the switch clears \<open>chan\<close> when the process runs again.\<close>

definition sleep :: "nat \<Rightarrow> chan \<Rightarrow> ptable \<Rightarrow> ptable kres" where
  "sleep c ch st =
    (case curproc (cpus st ! c) of None \<Rightarrow> Panic ''sleep''
     | Some p \<Rightarrow> sched c (upd p (\<lambda>q. q\<lparr>chan := ch, state := SLEEPING\<rparr>) st))"

definition sleep_tidy :: "nat \<Rightarrow> ptable \<Rightarrow> ptable" where
  "sleep_tidy p st = upd p (\<lambda>q. q\<lparr>chan := NoChan\<rparr>) st"

definition kill :: "int \<Rightarrow> ptable \<Rightarrow> int \<times> ptable" where
  "kill k st =
    (case find (\<lambda>i. pid (procs st ! i) = k) [0..<NPROC] of
       None \<Rightarrow> (-1, st)
     | Some i \<Rightarrow> (0, upd i (\<lambda>p. p\<lparr>killed := True, state := (if state p = SLEEPING then RUNNABLE else state p)\<rparr>) st))"

section \<open>Ending processes\<close>

text \<open>One round of the loop of \<open>exit\<close> that passes children to init.\<close>

definition exit_child :: "nat \<Rightarrow> ptable \<Rightarrow> nat \<Rightarrow> ptable" where
  "exit_child cur st i =
    (if parent (procs st ! i) = Some cur then
       (let st = upd i (\<lambda>p. p\<lparr>parent := Some (initproc st)\<rparr>) st in
        if state (procs st ! i) = ZOMBIE then wakeup1 (ProcChan (initproc st)) st else st)
     else st)"

definition exit_files :: "nat \<Rightarrow> ptable \<Rightarrow> ptable" where
  "exit_files cur st = upd cur (\<lambda>p. p\<lparr>ofile := replicate NOFILE None, cwd := None\<rparr>) st"

text \<open>The part of \<open>exit\<close> under the lock.\<close>

definition exit_locked :: "nat \<Rightarrow> nat \<Rightarrow> ptable \<Rightarrow> ptable kres" where
  "exit_locked c cur st =
    (let st = wakeup1 (case parent (procs st ! cur) of None \<Rightarrow> NoChan | Some q \<Rightarrow> ProcChan q) st;
         st = foldl (exit_child cur) st [0..<NPROC]
     in sched c (upd cur (\<lambda>p. p\<lparr>state := ZOMBIE\<rparr>) st))"

definition exit :: "nat \<Rightarrow> ptable \<Rightarrow> ptable kres" where
  "exit c st =
    (case curproc (cpus st ! c) of None \<Rightarrow> Undefined
     | Some cur \<Rightarrow> if cur = initproc st then Panic ''init exiting'' else exit_locked c cur (exit_files cur st))"

text \<open>
  One round of the loop of \<open>wait\<close>: it returns the pid of a child, or -1 for no child to wait for, or
  goes to sleep until the next round, all under the lock.
\<close>

datatype waitres = Returns int | WaitSleeps

definition reap :: "nat \<Rightarrow> ptable \<Rightarrow> ptable" where
  "reap i st =
    upd i (\<lambda>p. p\<lparr>kstack := 0, pid := 0, parent := None, name := [], killed := False, state := UNUSED\<rparr>) st"

definition wait :: "nat \<Rightarrow> ptable \<Rightarrow> (waitres \<times> ptable) kres" where
  "wait c st =
    (case curproc (cpus st ! c) of None \<Rightarrow> Undefined
     | Some cur \<Rightarrow>
       (case find (\<lambda>i. parent (procs st ! i) = Some cur \<and> state (procs st ! i) = ZOMBIE) [0..<NPROC] of
          Some i \<Rightarrow> Ok (Returns (pid (procs st ! i)), reap i st)
        | None \<Rightarrow>
            if \<not> list_ex (\<lambda>p. parent p = Some cur) (procs st) \<or> killed (procs st ! cur) then Ok (Returns (-1), st)
            else kbind (sleep c (ProcChan cur) st) (\<lambda>st. Ok (WaitSleeps, st))))"

section \<open>The schedulers\<close>

definition max_priority :: "proc list \<Rightarrow> int" where
  "max_priority ps = foldl (\<lambda>m p. if state p = RUNNABLE \<and> priority p < m then priority p else m) 201 ps"

text \<open>
  The priority scheduler from one place of its loop to the next: it runs the next process of the
  pass, or ends the pass and starts another one with the priority found then.
\<close>

definition dispatch :: "nat \<Rightarrow> nat \<Rightarrow> ptable \<Rightarrow> ptable" where
  "dispatch c i st = upd_cpu c (\<lambda>cp. cp\<lparr>curproc := Some i, pos := i + 1\<rparr>) (upd i (\<lambda>p. p\<lparr>state := RUNNING\<rparr>) st)"

definition scheduler :: "nat \<Rightarrow> ptable \<Rightarrow> ptable" where
  "scheduler c st =
    (let cp = cpus st ! c in
     case find (\<lambda>i. state (procs st ! i) = RUNNABLE \<and> priority (procs st ! i) = pass cp) [pos cp..<NPROC] of
       Some i \<Rightarrow> dispatch c i st
     | None \<Rightarrow> upd_cpu c (\<lambda>cp. cp\<lparr>pass := max_priority (procs st), pos := 0\<rparr>) st)"

text \<open>The round-robin scheduler it replaces.\<close>

definition scheduler_old :: "nat \<Rightarrow> ptable \<Rightarrow> ptable" where
  "scheduler_old c st =
    (case find (\<lambda>i. state (procs st ! i) = RUNNABLE) [pos (cpus st ! c)..<NPROC] of
       Some i \<Rightarrow> dispatch c i st
     | None \<Rightarrow> upd_cpu c (\<lambda>cp. cp\<lparr>pos := 0\<rparr>) st)"

text \<open>
  \<open>sys_setpriority\<close> for what \<open>argint\<close> fetches. Its result is not looked at: without an argument the
  priority is an uninitialised variable.
\<close>

definition sys_setpriority :: "nat \<Rightarrow> int option \<Rightarrow> ptable \<Rightarrow> (int \<times> ptable) kres" where
  "sys_setpriority c arg st =
    (case arg of None \<Rightarrow> Undefined
     | Some prio \<Rightarrow>
       if prio < 0 \<or> prio > 200 then Ok (-1, st)
       else
         case curproc (cpus st ! c) of None \<Rightarrow> Undefined
         | Some cur \<Rightarrow>
             (let old = priority (procs st ! cur); st = upd cur (\<lambda>p. p\<lparr>priority := prio\<rparr>) st in
              if old < prio then kbind (yield c st) (\<lambda>st. Ok (0, st)) else Ok (0, st)))"

section \<open>The system as a step relation\<close>

text \<open>
  The forks in progress, from the parent to the slot of the child.
\<close>

type_synonym psys = "ptable \<times> (nat \<rightharpoonup> nat)"

definition on_cpu :: "nat \<Rightarrow> nat \<Rightarrow> ptable \<Rightarrow> bool" where
  "on_cpu c p st = (c < NCPU \<and> curproc (cpus st ! c) = Some p)"

text \<open>
  Any CPU may take a step: run its scheduler when it has no process, or let its process do one part
  of the calls above. A process may lose its CPU (\<open>yield\<close>, from the timer) between the parts of a
  fork. Processes and interrupts wake sleepers at any time; \<open>wait\<close> is the only caller of \<open>sleep\<close>
  on a process.
\<close>

inductive pstep :: "psys \<Rightarrow> psys \<Rightarrow> bool" where
  sched: "c < NCPU \<Longrightarrow> curproc (cpus st ! c) = None \<Longrightarrow> pstep (st, fk) (scheduler c st, fk)"
| sched_old: "c < NCPU \<Longrightarrow> curproc (cpus st ! c) = None \<Longrightarrow> pstep (st, fk) (scheduler_old c st, fk)"
| fork1: "on_cpu c cur st \<Longrightarrow> fk cur = None \<Longrightarrow> alloc_slot st = Some (np, st') \<Longrightarrow> pstep (st, fk) (st', fk(cur \<mapsto> np))"
| fork2: "on_cpu c cur st \<Longrightarrow> fk cur = Some np \<Longrightarrow> parent (procs st ! np) = None \<Longrightarrow>
    pstep (st, fk) (alloc_stack forkret (Some ks) np st, fk)"
| fork2_fail: "on_cpu c cur st \<Longrightarrow> fk cur = Some np \<Longrightarrow> parent (procs st ! np) = None \<Longrightarrow>
    pstep (st, fk) (alloc_stack forkret None np st, fk(cur := None))"
| fork3: "on_cpu c cur st \<Longrightarrow> fk cur = Some np \<Longrightarrow> pstep (st, fk) (fork_fill cur np pg st, fk)"
| fork3_fail: "on_cpu c cur st \<Longrightarrow> fk cur = Some np \<Longrightarrow> parent (procs st ! np) = None \<Longrightarrow>
    pstep (st, fk) (fork_abort np st, fk(cur := None))"
| fork4: "on_cpu c cur st \<Longrightarrow> fk cur = Some np \<Longrightarrow> parent (procs st ! np) = Some cur \<Longrightarrow>
    pstep (st, fk) (fork_done np st, fk(cur := None))"
| yield: "c < NCPU \<Longrightarrow> yield c st = Ok st' \<Longrightarrow> pstep (st, fk) (st', fk)"
| sleep: "on_cpu c cur st \<Longrightarrow> fk cur = None \<Longrightarrow> sleep c (Addr a) st = Ok st' \<Longrightarrow> pstep (st, fk) (st', fk)"
| sleep_tidy: "on_cpu c cur st \<Longrightarrow> pstep (st, fk) (sleep_tidy cur st, fk)"
| wakeup: "pstep (st, fk) (wakeup ch st, fk)"
| kill: "pstep (st, fk) (snd (kill k st), fk)"
| exit1: "on_cpu c cur st \<Longrightarrow> fk cur = None \<Longrightarrow> pstep (st, fk) (exit_files cur st, fk)"
| exit2: "on_cpu c cur st \<Longrightarrow> fk cur = None \<Longrightarrow> cur \<noteq> initproc st \<Longrightarrow> exit_locked c cur st = Ok st' \<Longrightarrow>
    pstep (st, fk) (st', fk)"
| wait: "on_cpu c cur st \<Longrightarrow> fk cur = None \<Longrightarrow> wait c st = Ok (r, st') \<Longrightarrow> pstep (st, fk) (st', fk)"
| setpriority: "on_cpu c cur st \<Longrightarrow> fk cur = None \<Longrightarrow> sys_setpriority c arg st = Ok (r, st') \<Longrightarrow>
    pstep (st, fk) (st', fk)"

section \<open>The invariant\<close>

text \<open>The table as functions of the slot, and the process each CPU runs.\<close>

definition state_of :: "ptable \<Rightarrow> nat \<Rightarrow> procstate" where "state_of st i = state (procs st ! i)"
definition pid_of :: "ptable \<Rightarrow> nat \<Rightarrow> int" where "pid_of st i = pid (procs st ! i)"
definition parent_of :: "ptable \<Rightarrow> nat \<Rightarrow> nat option" where "parent_of st i = parent (procs st ! i)"
definition chan_of :: "ptable \<Rightarrow> nat \<Rightarrow> chan" where "chan_of st i = chan (procs st ! i)"
definition runs :: "ptable \<Rightarrow> nat \<Rightarrow> nat option" where
  "runs st c = (if c < NCPU then curproc (cpus st ! c) else None)"

definition live :: "procstate \<Rightarrow> bool" where
  "live s \<longleftrightarrow> s = SLEEPING \<or> s = RUNNABLE \<or> s = RUNNING"

text \<open>Process ids are told apart.\<close>

definition pids_ok :: "(nat \<Rightarrow> procstate) \<Rightarrow> (nat \<Rightarrow> int) \<Rightarrow> int \<Rightarrow> bool" where
  "pids_ok S P n \<longleftrightarrow> 0 < n \<and>
    (\<forall>i < NPROC. 0 \<le> P i \<and> P i < n \<and> (S i \<noteq> UNUSED \<longrightarrow> P i \<noteq> 0)) \<and>
    (\<forall>i < NPROC. \<forall>j < NPROC. i \<noteq> j \<longrightarrow> P i = P j \<longrightarrow> P i = 0)"

text \<open>A process is \<open>RUNNING\<close> exactly when it is on a CPU, and then on one only.\<close>

definition cpus_ok :: "(nat \<Rightarrow> procstate) \<Rightarrow> (nat \<Rightarrow> nat option) \<Rightarrow> bool" where
  "cpus_ok S R \<longleftrightarrow>
    (\<forall>c p. R c = Some p \<longrightarrow> p < NPROC \<and> S p = RUNNING) \<and>
    (\<forall>c d p. R c = Some p \<longrightarrow> R d = Some p \<longrightarrow> c = d) \<and>
    (\<forall>p < NPROC. S p = RUNNING \<longrightarrow> (\<exists>c. R c = Some p))"

text \<open>Init lives and has no parent, and every other process has a parent that lives and can wait for it.\<close>

definition parents_ok :: "(nat \<Rightarrow> procstate) \<Rightarrow> (nat \<Rightarrow> nat option) \<Rightarrow> nat \<Rightarrow> bool" where
  "parents_ok S Q ini \<longleftrightarrow>
    ini < NPROC \<and> live (S ini) \<and> Q ini = None \<and>
    (\<forall>i < NPROC. S i = UNUSED \<longrightarrow> Q i = None) \<and>
    (\<forall>i < NPROC. \<forall>q. Q i = Some q \<longrightarrow> q < NPROC \<and> q \<noteq> i \<and> live (S q)) \<and>
    (\<forall>i < NPROC. S i \<noteq> UNUSED \<longrightarrow> S i \<noteq> EMBRYO \<longrightarrow> i \<noteq> ini \<longrightarrow> Q i \<noteq> None)"

text \<open>The forks in progress own the embryos.\<close>

definition forks_ok :: "(nat \<Rightarrow> procstate) \<Rightarrow> (nat \<Rightarrow> nat option) \<Rightarrow> (nat \<rightharpoonup> nat) \<Rightarrow> bool" where
  "forks_ok S Q fk \<longleftrightarrow>
    (\<forall>p n. fk p = Some n \<longrightarrow>
       p < NPROC \<and> n < NPROC \<and> S n = EMBRYO \<and> (S p = RUNNABLE \<or> S p = RUNNING) \<and> (Q n = None \<or> Q n = Some p)) \<and>
    (\<forall>p q n. fk p = Some n \<longrightarrow> fk q = Some n \<longrightarrow> p = q) \<and>
    (\<forall>i < NPROC. S i = EMBRYO \<longrightarrow> (\<exists>p. fk p = Some i))"

text \<open>No process sleeps in \<open>wait\<close> while it has a child to reap.\<close>

definition waits_ok :: "(nat \<Rightarrow> procstate) \<Rightarrow> (nat \<Rightarrow> nat option) \<Rightarrow> (nat \<Rightarrow> chan) \<Rightarrow> bool" where
  "waits_ok S Q C \<longleftrightarrow>
    (\<forall>q < NPROC. \<forall>i < NPROC. S q = SLEEPING \<longrightarrow> C q = ProcChan q \<longrightarrow> Q i = Some q \<longrightarrow> S i \<noteq> ZOMBIE)"

definition pinv :: "psys \<Rightarrow> bool" where
  "pinv s \<longleftrightarrow>
    (case s of (st, fk) \<Rightarrow>
      length (procs st) = NPROC \<and> length (cpus st) = NCPU \<and>
      pids_ok (state_of st) (pid_of st) (nextpid st) \<and>
      cpus_ok (state_of st) (runs st) \<and>
      parents_ok (state_of st) (parent_of st) (initproc st) \<and>
      forks_ok (state_of st) (parent_of st) fk \<and>
      waits_ok (state_of st) (parent_of st) (chan_of st))"

end
