(* ===== verification/Xv6_Proc_Inv.thy ===== *)
theory Xv6_Proc_Inv
  imports Xv6_Proc
begin

text \<open>The table's invariant holds in every state the system reaches.\<close>

section \<open>Reading a changed table\<close>

lemma upd_sel [simp]:
  "procs (upd i f st) = (procs st)[i := f (procs st ! i)]" "nextpid (upd i f st) = nextpid st"
  "initproc (upd i f st) = initproc st" "cpus (upd i f st) = cpus st"
  by (simp_all add: upd_def)

lemma upd_cpu_sel [simp]:
  "procs (upd_cpu c g st) = procs st" "nextpid (upd_cpu c g st) = nextpid st"
  "initproc (upd_cpu c g st) = initproc st" "cpus (upd_cpu c g st) = (cpus st)[c := g (cpus st ! c)]"
  by (simp_all add: upd_cpu_def)

lemma wakeup1_sel [simp]:
  "procs (wakeup1 ch st) = map (wake_proc ch) (procs st)" "nextpid (wakeup1 ch st) = nextpid st"
  "initproc (wakeup1 ch st) = initproc st" "cpus (wakeup1 ch st) = cpus st"
  by (simp_all add: wakeup1_def)

lemma wake_proc_sel [simp]:
  "pid (wake_proc ch p) = pid p" "parent (wake_proc ch p) = parent p" "chan (wake_proc ch p) = chan p"
  "state (wake_proc ch p) = (if state p = SLEEPING \<and> chan p = ch then RUNNABLE else state p)"
  by (simp_all add: wake_proc_def)

lemma upd_view:
  assumes "i < length (procs st)"
  shows "state_of (upd i f st) = (state_of st)(i := state (f (procs st ! i)))"
    and "pid_of (upd i f st) = (pid_of st)(i := pid (f (procs st ! i)))"
    and "parent_of (upd i f st) = (parent_of st)(i := parent (f (procs st ! i)))"
    and "chan_of (upd i f st) = (chan_of st)(i := chan (f (procs st ! i)))"
    and "runs (upd i f st) = runs st"
  using assms by (auto simp: fun_eq_iff state_of_def pid_of_def parent_of_def chan_of_def runs_def nth_list_update)

lemma upd_cpu_view [simp]:
  "state_of (upd_cpu c g st) = state_of st" "pid_of (upd_cpu c g st) = pid_of st"
  "parent_of (upd_cpu c g st) = parent_of st" "chan_of (upd_cpu c g st) = chan_of st"
  by (auto simp: fun_eq_iff state_of_def pid_of_def parent_of_def chan_of_def)

lemma upd_cpu_runs:
  "c < NCPU \<Longrightarrow> length (cpus st) = NCPU \<Longrightarrow> runs (upd_cpu c g st) = (runs st)(c := curproc (g (cpus st ! c)))"
  by (auto simp: fun_eq_iff runs_def nth_list_update)

lemma nextpid_view [simp]:
  "state_of (st\<lparr>nextpid := n\<rparr>) = state_of st" "pid_of (st\<lparr>nextpid := n\<rparr>) = pid_of st"
  "parent_of (st\<lparr>nextpid := n\<rparr>) = parent_of st" "chan_of (st\<lparr>nextpid := n\<rparr>) = chan_of st"
  "runs (st\<lparr>nextpid := n\<rparr>) = runs st"
  by (auto simp: fun_eq_iff state_of_def pid_of_def parent_of_def chan_of_def runs_def)

lemma find_upt:
  assumes "find P [a..<n] = Some i"
  shows "a \<le> i" and "i < n" and "P i" and "\<And>j. a \<le> j \<Longrightarrow> j < i \<Longrightarrow> \<not> P j"
proof -
  obtain k where k: "k < n - a" "P (a + k)" "i = a + k" and less: "\<And>j. j < k \<Longrightarrow> \<not> P (a + j)"
    using assms by (auto simp: find_Some_iff)
  show "a \<le> i" "i < n" "P i" using k by auto
  show "\<not> P j" if "a \<le> j" "j < i" for j
    using less [of "j - a"] that k by auto
qed

lemma find_upt_None: "find P [a..<n] = None \<longleftrightarrow> (\<forall>i. a \<le> i \<longrightarrow> i < n \<longrightarrow> \<not> P i)"
  by (auto simp: find_None_iff)

section \<open>The parts of the invariant under a change of one slot\<close>

lemma pids_state:
  "pids_ok S P n \<Longrightarrow> (\<And>i. S' i \<noteq> UNUSED \<Longrightarrow> S i \<noteq> UNUSED) \<Longrightarrow> pids_ok S' P n"
  unfolding pids_ok_def by blast

lemma pids_new:
  assumes "pids_ok S P n"
  shows "pids_ok (S(i := s)) (P(i := n)) (n + 1)"
proof -
  have P: "\<And>j. j < NPROC \<Longrightarrow> 0 \<le> P j \<and> P j < n \<and> (S j \<noteq> UNUSED \<longrightarrow> P j \<noteq> 0)" and n: "0 < n"
    and D: "\<And>j k. j < NPROC \<Longrightarrow> k < NPROC \<Longrightarrow> j \<noteq> k \<Longrightarrow> P j = P k \<Longrightarrow> P j = 0"
    using assms unfolding pids_ok_def by blast+
  show ?thesis unfolding pids_ok_def
  proof (intro conjI allI impI)
    fix j assume "j < NPROC"
    then show "0 \<le> (P(i := n)) j" "(P(i := n)) j < n + 1" "(S(i := s)) j \<noteq> UNUSED \<Longrightarrow> (P(i := n)) j \<noteq> 0"
      using P [of j] n by (auto split: if_splits)
  next
    fix j k assume "j < NPROC" "k < NPROC" "j \<noteq> k" "(P(i := n)) j = (P(i := n)) k"
    then show "(P(i := n)) j = 0" using P [of j] P [of k] D [of j k] by (auto split: if_splits)
  qed (use n in simp)
qed

lemma pids_free:
  assumes "pids_ok S P n"
  shows "pids_ok (S(i := UNUSED)) (P(i := 0)) n"
  using assms unfolding pids_ok_def by auto

lemma cpus_state:
  "cpus_ok S R \<Longrightarrow> (\<And>i. S' i = RUNNING \<longleftrightarrow> S i = RUNNING) \<Longrightarrow> cpus_ok S' R"
  unfolding cpus_ok_def by simp

lemma cpus_on:
  assumes "cpus_ok S R" "S i \<noteq> RUNNING" "i < NPROC" "R c = None"
  shows "cpus_ok (S(i := RUNNING)) (R(c := Some i))"
proof -
  have at: "\<And>d p. R d = Some p \<Longrightarrow> p < NPROC \<and> S p = RUNNING" and inj: "\<And>d e p. R d = Some p \<Longrightarrow> R e = Some p \<Longrightarrow> d = e"
    and ex: "\<And>p. p < NPROC \<Longrightarrow> S p = RUNNING \<Longrightarrow> \<exists>d. R d = Some p" using assms(1) unfolding cpus_ok_def by blast+
  have not: "R d \<noteq> Some i" for d using at assms(2) by blast
  show ?thesis unfolding cpus_ok_def
  proof (intro conjI allI impI)
    fix p assume p: "p < NPROC" "(S(i := RUNNING)) p = RUNNING"
    show "\<exists>d. (R(c := Some i)) d = Some p"
    proof (cases "p = i")
      case False
      then obtain d where "R d = Some p" using ex p by auto
      then have "(R(c := Some i)) d = Some p" using assms(4) by auto
      then show ?thesis by blast
    qed auto
  qed (use at not assms(3) inj in \<open>auto split: if_splits\<close>)
qed

lemma cpus_off:
  assumes "cpus_ok S R" "R c = Some i" "s \<noteq> RUNNING"
  shows "cpus_ok (S(i := s)) (R(c := None))"
proof -
  have at: "\<And>d p. R d = Some p \<Longrightarrow> p < NPROC \<and> S p = RUNNING" and inj: "\<And>d e p. R d = Some p \<Longrightarrow> R e = Some p \<Longrightarrow> d = e"
    and ex: "\<And>p. p < NPROC \<Longrightarrow> S p = RUNNING \<Longrightarrow> \<exists>d. R d = Some p" using assms(1) unfolding cpus_ok_def by blast+
  have not: "d \<noteq> c \<Longrightarrow> R d \<noteq> Some i" for d using inj assms(2) by blast
  show ?thesis unfolding cpus_ok_def
  proof (intro conjI allI impI)
    fix p assume p: "p < NPROC" "(S(i := s)) p = RUNNING"
    then have "p \<noteq> i" using assms(3) by auto
    then obtain d where "R d = Some p" using ex p by auto
    then have "(R(c := None)) d = Some p" using assms(2) \<open>p \<noteq> i\<close> by auto
    then show "\<exists>d. (R(c := None)) d = Some p" by blast
  qed (use at not inj in \<open>auto split: if_splits\<close>)
qed

lemma parents_at:
  assumes "parents_ok S Q ini"
  shows "ini < NPROC" "live (S ini)" "Q ini = None" "i < NPROC \<Longrightarrow> S i = UNUSED \<Longrightarrow> Q i = None"
    "i < NPROC \<Longrightarrow> Q i = Some q \<Longrightarrow> q < NPROC \<and> q \<noteq> i \<and> live (S q)"
    "i < NPROC \<Longrightarrow> S i \<noteq> UNUSED \<Longrightarrow> S i \<noteq> EMBRYO \<Longrightarrow> i \<noteq> ini \<Longrightarrow> Q i \<noteq> None"
  using assms unfolding parents_ok_def by blast+

lemma parentsI:
  assumes "ini < NPROC" "live (S ini)" "Q ini = None" "\<And>i. i < NPROC \<Longrightarrow> S i = UNUSED \<Longrightarrow> Q i = None"
    "\<And>i q. i < NPROC \<Longrightarrow> Q i = Some q \<Longrightarrow> q < NPROC \<and> q \<noteq> i \<and> live (S q)"
    "\<And>i. i < NPROC \<Longrightarrow> S i \<noteq> UNUSED \<Longrightarrow> S i \<noteq> EMBRYO \<Longrightarrow> i \<noteq> ini \<Longrightarrow> Q i \<noteq> None"
  shows "parents_ok S Q ini"
  unfolding parents_ok_def
proof (intro conjI)
  show "\<forall>i < NPROC. S i = UNUSED \<longrightarrow> Q i = None" using assms(4) by blast
  show "\<forall>i < NPROC. \<forall>q. Q i = Some q \<longrightarrow> q < NPROC \<and> q \<noteq> i \<and> live (S q)" using assms(5) by blast
  show "\<forall>i < NPROC. S i \<noteq> UNUSED \<longrightarrow> S i \<noteq> EMBRYO \<longrightarrow> i \<noteq> ini \<longrightarrow> Q i \<noteq> None" using assms(6) by blast
qed (rule assms(1-3))+

lemma parents_state:
  assumes "parents_ok S Q ini" "\<And>i. i < NPROC \<Longrightarrow> live (S i) \<Longrightarrow> live (S' i)"
    "\<And>i. i < NPROC \<Longrightarrow> S' i = UNUSED \<longleftrightarrow> S i = UNUSED" "\<And>i. i < NPROC \<Longrightarrow> S' i = EMBRYO \<longleftrightarrow> S i = EMBRYO"
    "\<And>i. i < NPROC \<Longrightarrow> Q' i = Q i"
  shows "parents_ok S' Q' ini"
proof (rule parentsI)
  note A = parents_at [OF assms(1)]
  show "ini < NPROC" "live (S' ini)" "Q' ini = None" using A(1-3) assms(2,5) by auto
  fix j assume j: "j < NPROC"
  show "Q' j = None" if "S' j = UNUSED" using that A(4) [OF j] assms(3,5) [OF j] by simp
  show "Q' j \<noteq> None" if "S' j \<noteq> UNUSED" "S' j \<noteq> EMBRYO" "j \<noteq> ini"
    using that A(6) [OF j] assms(3-5) [OF j] by simp
  show "q < NPROC \<and> q \<noteq> j \<and> live (S' q)" if "Q' j = Some q" for q
    using that A(5) [OF j, of q] assms(2) [of q] assms(5) [OF j] by simp
qed

lemma forks_state:
  assumes "forks_ok S Q fk"
    "\<And>i. i < NPROC \<Longrightarrow> S i = RUNNABLE \<or> S i = RUNNING \<Longrightarrow> S' i = RUNNABLE \<or> S' i = RUNNING"
    "\<And>i. i < NPROC \<Longrightarrow> S' i = EMBRYO \<longleftrightarrow> S i = EMBRYO" "\<And>i. i < NPROC \<Longrightarrow> Q' i = Q i"
  shows "forks_ok S' Q' fk"
proof -
  have A: "a < NPROC \<and> n < NPROC \<and> S n = EMBRYO \<and> (S a = RUNNABLE \<or> S a = RUNNING) \<and> (Q n = None \<or> Q n = Some a)"
    if "fk a = Some n" for a n using assms(1) that unfolding forks_ok_def by blast
  have "a < NPROC \<and> n < NPROC \<and> S' n = EMBRYO \<and> (S' a = RUNNABLE \<or> S' a = RUNNING) \<and> (Q' n = None \<or> Q' n = Some a)"
    if "fk a = Some n" for a n using A [OF that] assms(2) [of a] assms(3,4) [of n] by simp
  then show ?thesis using assms(1,3) unfolding forks_ok_def by blast
qed

lemma waits_state:
  "waits_ok S Q C \<Longrightarrow> (\<And>i. S' i = SLEEPING \<Longrightarrow> S i = SLEEPING) \<Longrightarrow> (\<And>i. S' i = ZOMBIE \<Longrightarrow> S i = ZOMBIE) \<Longrightarrow>
    waits_ok S' Q C"
  unfolding waits_ok_def by blast

lemma forks_leave:
  assumes "forks_ok S Q fk" "S p = RUNNING" "s = RUNNABLE \<or> s = SLEEPING \<and> fk p = None"
  shows "forks_ok (S(p := s)) Q fk"
proof -
  have A: "a < NPROC \<and> n < NPROC \<and> S n = EMBRYO \<and> (S a = RUNNABLE \<or> S a = RUNNING) \<and> (Q n = None \<or> Q n = Some a)"
    if "fk a = Some n" for a n using assms(1) that unfolding forks_ok_def by blast
  have B: "\<forall>a b n. fk a = Some n \<longrightarrow> fk b = Some n \<longrightarrow> a = b" and C: "\<And>i. i < NPROC \<Longrightarrow> S i = EMBRYO \<Longrightarrow> \<exists>a. fk a = Some i"
    using assms(1) unfolding forks_ok_def by blast+
  show ?thesis unfolding forks_ok_def
  proof (intro conjI allI impI)
    fix a n assume fk: "fk a = Some n"
    show "a < NPROC" "n < NPROC" "(S(p := s)) n = EMBRYO" "Q n = None \<or> Q n = Some a"
      "(S(p := s)) a = RUNNABLE \<or> (S(p := s)) a = RUNNING"
      using A [OF fk] assms(2,3) fk by auto
  qed (use B C assms(3) in \<open>auto split: if_splits\<close>)
qed

lemma waits_leave:
  assumes "waits_ok S Q C" "S p = RUNNING"
    "s = RUNNABLE \<or> s = SLEEPING \<and> (ch = ProcChan p \<longrightarrow> (\<forall>i < NPROC. Q i = Some p \<longrightarrow> S i \<noteq> ZOMBIE))"
  shows "waits_ok (S(p := s)) Q (C(p := ch))"
  using assms unfolding waits_ok_def fun_upd_apply by (metis procstate.distinct)

text \<open>A slot no live process has may change its state, if its parent fits the new one.\<close>

lemma parents_slot:
  assumes p: "parents_ok S Q ini" and i: "\<not> live (S i)" "\<forall>q. r = Some q \<longrightarrow> q < NPROC \<and> q \<noteq> i \<and> live ((S(i := s)) q)"
    "s = UNUSED \<longrightarrow> r = None" "s \<noteq> UNUSED \<longrightarrow> s \<noteq> EMBRYO \<longrightarrow> r \<noteq> None"
  shows "parents_ok (S(i := s)) (Q(i := r)) ini"
proof (rule parentsI)
  note A = parents_at [OF p]
  have keep: "live (S q) \<Longrightarrow> live ((S(i := s)) q)" for q using i(1) by auto
  show "ini < NPROC" by (rule A(1))
  show "live ((S(i := s)) ini)" by (rule keep [OF A(2)])
  show "(Q(i := r)) ini = None" using i(1) A(2,3) by auto
  fix j assume j: "j < NPROC"
  show "(Q(i := r)) j = None" if "(S(i := s)) j = UNUSED" using that A(4) [OF j] i(3) by (cases "j = i") auto
  show "(Q(i := r)) j \<noteq> None" if "(S(i := s)) j \<noteq> UNUSED" "(S(i := s)) j \<noteq> EMBRYO" "j \<noteq> ini"
    using that A(6) [OF j] i(4) by (cases "j = i") auto
  fix q assume q: "(Q(i := r)) j = Some q"
  show "q < NPROC \<and> q \<noteq> j \<and> live ((S(i := s)) q)"
  proof (cases "j = i")
    case False
    then show ?thesis using A(5) [OF j, of q] q keep by auto
  qed (use q i(2) in auto)
qed

lemma parents_exit:
  assumes p: "parents_ok S Q ini" and cur: "S cur = RUNNING" "cur \<noteq> ini"
    and Q': "\<And>i. i < NPROC \<Longrightarrow> Q' i = (if Q i = Some cur then Some ini else Q i)"
  shows "parents_ok (S(cur := ZOMBIE)) Q' ini"
proof (rule parentsI)
  note A = parents_at [OF p]
  show "ini < NPROC" by (rule A(1))
  show "live ((S(cur := ZOMBIE)) ini)" using A(2) cur by simp
  show "Q' ini = None" using A(1,3) Q' by simp
  fix j assume j: "j < NPROC"
  show "Q' j = None" if "(S(cur := ZOMBIE)) j = UNUSED" using that A(4) [OF j] Q' [OF j] by (auto split: if_splits)
  show "Q' j \<noteq> None" if "(S(cur := ZOMBIE)) j \<noteq> UNUSED" "(S(cur := ZOMBIE)) j \<noteq> EMBRYO" "j \<noteq> ini"
    using that A(6) [OF j] Q' [OF j] cur by (cases "j = cur") auto
  show "q < NPROC \<and> q \<noteq> j \<and> live ((S(cur := ZOMBIE)) q)" if "Q' j = Some q" for q
    using that A(1-3) A(5) [OF j, of q] Q' [OF j] cur by (cases "Q j = Some cur") auto
qed

lemma forks_at:
  "forks_ok S Q fk \<Longrightarrow> fk a = Some n \<Longrightarrow>
    a < NPROC \<and> n < NPROC \<and> S n = EMBRYO \<and> (S a = RUNNABLE \<or> S a = RUNNING) \<and> (Q n = None \<or> Q n = Some a)"
  "forks_ok S Q fk \<Longrightarrow> fk a = Some n \<Longrightarrow> fk b = Some n \<Longrightarrow> a = b"
  "forks_ok S Q fk \<Longrightarrow> i < NPROC \<Longrightarrow> S i = EMBRYO \<Longrightarrow> \<exists>a. fk a = Some i"
  unfolding forks_ok_def by blast+

lemma forksI:
  assumes "\<And>a n. fk a = Some n \<Longrightarrow>
      a < NPROC \<and> n < NPROC \<and> S n = EMBRYO \<and> (S a = RUNNABLE \<or> S a = RUNNING) \<and> (Q n = None \<or> Q n = Some a)"
    "\<And>a b n. fk a = Some n \<Longrightarrow> fk b = Some n \<Longrightarrow> a = b"
    "\<And>i. i < NPROC \<Longrightarrow> S i = EMBRYO \<Longrightarrow> \<exists>a. fk a = Some i"
  shows "forks_ok S Q fk"
  unfolding forks_ok_def using assms by blast

lemma forks_new:
  assumes f: "forks_ok S Q fk" and "S i = UNUSED" "Q i = None" "fk cur = None" "S cur = RUNNING" "cur < NPROC" "i < NPROC"
  shows "forks_ok (S(i := EMBRYO)) Q (fk(cur \<mapsto> i))"
proof (rule forksI)
  fix j assume j: "j < NPROC" "(S(i := EMBRYO)) j = EMBRYO"
  show "\<exists>a. (fk(cur \<mapsto> i)) a = Some j"
  proof (cases "j = i")
    case False
    then obtain a where "fk a = Some j" using forks_at(3) [OF f] j by auto
    then have "(fk(cur \<mapsto> i)) a = Some j" using assms(4) by auto
    then show ?thesis by blast
  qed auto
next
  fix a n assume "(fk(cur \<mapsto> i)) a = Some n"
  then consider "a = cur" "n = i" | "a \<noteq> cur" "fk a = Some n" by (auto split: if_splits)
  then show "a < NPROC \<and> n < NPROC \<and> (S(i := EMBRYO)) n = EMBRYO \<and>
      ((S(i := EMBRYO)) a = RUNNABLE \<or> (S(i := EMBRYO)) a = RUNNING) \<and> (Q n = None \<or> Q n = Some a)"
  proof cases
    case 2
    then show ?thesis using forks_at(1) [OF f 2(2)] assms(2) by auto
  qed (use assms in auto)
next
  fix a b n assume "(fk(cur \<mapsto> i)) a = Some n" "(fk(cur \<mapsto> i)) b = Some n"
  moreover have "fk x \<noteq> Some i" for x using forks_at(1) [OF f, of x i] assms(2) by auto
  ultimately show "a = b" using forks_at(2) [OF f, of a n b] by (auto split: if_splits)
qed

lemma forks_free:
  assumes f: "forks_ok S Q fk" and "fk cur = Some i" "s \<noteq> EMBRYO"
  shows "forks_ok (S(i := s)) Q (fk(cur := None))"
proof (rule forksI)
  fix j assume j: "j < NPROC" "(S(i := s)) j = EMBRYO"
  then have "j \<noteq> i" using assms(3) by auto
  then obtain a where "fk a = Some j" using forks_at(3) [OF f] j by auto
  then have "(fk(cur := None)) a = Some j" using assms(2) \<open>j \<noteq> i\<close> by auto
  then show "\<exists>a. (fk(cur := None)) a = Some j" by blast
next
  fix a n assume "(fk(cur := None)) a = Some n"
  then have an: "fk a = Some n" "a \<noteq> cur" by (auto split: if_splits)
  have "n \<noteq> i" using forks_at(2) [OF f an(1), of cur] assms(2) an(2) by blast
  moreover have "a \<noteq> i" using forks_at(1) [OF f an(1)] forks_at(1) [OF f assms(2)] by auto
  ultimately show "a < NPROC \<and> n < NPROC \<and> (S(i := s)) n = EMBRYO \<and>
      ((S(i := s)) a = RUNNABLE \<or> (S(i := s)) a = RUNNING) \<and> (Q n = None \<or> Q n = Some a)"
    using forks_at(1) [OF f an(1)] by simp
next
  fix a b n assume "(fk(cur := None)) a = Some n" "(fk(cur := None)) b = Some n"
  then show "a = b" using forks_at(2) [OF f, of a n b] by (auto split: if_splits)
qed

lemma forks_fill:
  assumes f: "forks_ok S Q fk" and "fk cur = Some i"
  shows "forks_ok S (Q(i := Some cur)) fk"
  by (rule forksI) (use assms(2) forks_at [OF f] in \<open>auto split: if_splits\<close>)

lemma forks_reap:
  assumes f: "forks_ok S Q fk" and "S i = ZOMBIE"
  shows "forks_ok (S(i := UNUSED)) (Q(i := None)) fk"
proof (rule forksI)
  fix a n assume an: "fk a = Some n"
  then show "a < NPROC \<and> n < NPROC \<and> (S(i := UNUSED)) n = EMBRYO \<and>
      ((S(i := UNUSED)) a = RUNNABLE \<or> (S(i := UNUSED)) a = RUNNING) \<and> ((Q(i := None)) n = None \<or> (Q(i := None)) n = Some a)"
    using forks_at(1) [OF f an] assms(2) by auto
qed (use forks_at(2,3) [OF f] in \<open>auto split: if_splits\<close>)

lemma forks_exit:
  assumes f: "forks_ok S Q fk" and "S cur = RUNNING" "fk cur = None"
    and Q': "\<And>i. i < NPROC \<Longrightarrow> Q' i = (if Q i = Some cur then Some ini else Q i)"
  shows "forks_ok (S(cur := ZOMBIE)) Q' fk"
proof (rule forksI)
  fix a n assume an: "fk a = Some n"
  then show "a < NPROC \<and> n < NPROC \<and> (S(cur := ZOMBIE)) n = EMBRYO \<and>
      ((S(cur := ZOMBIE)) a = RUNNABLE \<or> (S(cur := ZOMBIE)) a = RUNNING) \<and> (Q' n = None \<or> Q' n = Some a)"
    using forks_at(1) [OF f an] assms(2,3) Q' [of n] by auto
qed (use forks_at(2,3) [OF f] in \<open>auto split: if_splits\<close>)

lemma waits_fill:
  "waits_ok S Q C \<Longrightarrow> S i = EMBRYO \<Longrightarrow> waits_ok S (Q(i := Some cur)) C"
  unfolding waits_ok_def by (auto split: if_splits)

lemma waits_reap:
  "waits_ok S Q C \<Longrightarrow> waits_ok (S(i := UNUSED)) (Q(i := None)) C"
  unfolding waits_ok_def by (auto split: if_splits)

lemma waits_exit:
  assumes "waits_ok S Q C" "S cur = RUNNING"
    and Q': "\<And>i. i < NPROC \<Longrightarrow> Q' i = (if Q i = Some cur then Some ini else Q i)"
    and up: "Q cur = Some q" "q \<noteq> cur" "S q = SLEEPING \<Longrightarrow> C q \<noteq> ProcChan q"
    and zombies: "\<And>i. i < NPROC \<Longrightarrow> Q i = Some cur \<Longrightarrow> S i = ZOMBIE \<Longrightarrow> S ini = SLEEPING \<Longrightarrow> C ini \<noteq> ProcChan ini"
  shows "waits_ok (S(cur := ZOMBIE)) Q' C"
  unfolding waits_ok_def
proof (intro allI impI)
  fix r i assume r: "r < NPROC" "i < NPROC" "(S(cur := ZOMBIE)) r = SLEEPING" "C r = ProcChan r" "Q' i = Some r"
  then have S: "S r = SLEEPING" "r \<noteq> cur" by (auto split: if_splits)
  show "(S(cur := ZOMBIE)) i \<noteq> ZOMBIE"
  proof (cases "i = cur")
    case True
    then have "q = r" using up(1,2) Q' [OF r(2)] r(5) by auto
    then show ?thesis using up(3) r(4) S(1) by simp
  next
    case False
    show ?thesis
    proof (cases "Q i = Some cur")
      case True
      then have "r = ini" using Q' [OF r(2)] r(5) by simp
      then show ?thesis using zombies [OF r(2) True] S(1) r(4) False by auto
    next
      case no: False
      then have "Q i = Some r" using Q' [OF r(2)] r(5) by simp
      then show ?thesis using assms(1) r(1,2,4) S(1) False unfolding waits_ok_def by simp
    qed
  qed
qed

section \<open>The invariant under the operations\<close>

lemma pinv_len: "pinv (st, fk) \<Longrightarrow> length (procs st) = NPROC \<and> length (cpus st) = NCPU"
  by (simp add: pinv_def)

lemma pinv_parts:
  assumes "pinv (st, fk)"
  shows "pids_ok (state_of st) (pid_of st) (nextpid st)" "cpus_ok (state_of st) (runs st)"
    "parents_ok (state_of st) (parent_of st) (initproc st)" "forks_ok (state_of st) (parent_of st) fk"
    "waits_ok (state_of st) (parent_of st) (chan_of st)"
    "length (procs st) = NPROC" "length (cpus st) = NCPU"
  using assms by (simp_all add: pinv_def)

lemma on_cpu_runs: "on_cpu c p st \<longleftrightarrow> runs st c = Some p"
  by (auto simp: on_cpu_def runs_def)

lemma pinv_running:
  "pinv (st, fk) \<Longrightarrow> on_cpu c p st \<Longrightarrow> p < NPROC \<and> state_of st p = RUNNING \<and> p < length (procs st)"
  by (simp add: pinv_def cpus_ok_def on_cpu_runs)

lemma pinv_same:
  assumes "pinv (st, fk)" "i < NPROC" "\<And>p. state (f p) = state p" "\<And>p. pid (f p) = pid p"
    "\<And>p. parent (f p) = parent p" "\<And>p. chan (f p) = chan p"
  shows "pinv (upd i f st, fk)"
proof -
  have i: "i < length (procs st)" using assms(1,2) by (simp add: pinv_def)
  have "state_of (upd i f st) = state_of st" "pid_of (upd i f st) = pid_of st"
    "parent_of (upd i f st) = parent_of st" "chan_of (upd i f st) = chan_of st"
    by (auto simp: upd_view [OF i] assms fun_eq_iff state_of_def pid_of_def parent_of_def chan_of_def)
  then show ?thesis using assms(1) by (simp add: pinv_def upd_view(5) [OF i])
qed

lemma pinv_pass:
  assumes "pinv (st, fk)" "c < NCPU" "\<And>cp. curproc (g cp) = curproc cp"
  shows "pinv (upd_cpu c g st, fk)"
proof -
  have "runs (upd_cpu c g st) = runs st"
    using assms by (auto simp: upd_cpu_runs pinv_def fun_eq_iff runs_def)
  then show ?thesis using assms(1) by (simp add: pinv_def)
qed

lemma pinv_dispatch:
  assumes inv: "pinv (st, fk)" and c: "c < NCPU" "curproc (cpus st ! c) = None"
    and i: "i < NPROC" "state (procs st ! i) = RUNNABLE"
  shows "pinv (dispatch c i st, fk)"
proof -
  have len: "i < length (procs st)" "length (cpus st) = NCPU" using inv i by (auto simp: pinv_def)
  have S: "state_of st i = RUNNABLE" using i by (simp add: state_of_def)
  have keep: "(pid_of st)(i := pid (procs st ! i)) = pid_of st" "(parent_of st)(i := parent (procs st ! i)) = parent_of st"
    "(chan_of st)(i := chan (procs st ! i)) = chan_of st"
    by (simp_all add: fun_eq_iff pid_of_def parent_of_def chan_of_def)
  note P = pinv_parts [OF inv]
  have v: "state_of (dispatch c i st) = (state_of st)(i := RUNNING)" "pid_of (dispatch c i st) = pid_of st"
    "parent_of (dispatch c i st) = parent_of st" "chan_of (dispatch c i st) = chan_of st"
    "runs (dispatch c i st) = (runs st)(c := Some i)" "nextpid (dispatch c i st) = nextpid st"
    "initproc (dispatch c i st) = initproc st" "length (procs (dispatch c i st)) = length (procs st)"
    "length (cpus (dispatch c i st)) = length (cpus st)"
    using c(1) len by (simp_all add: dispatch_def upd_view upd_cpu_runs keep)
  have "runs st c = None" using c by (simp add: runs_def)
  then have "cpus_ok ((state_of st)(i := RUNNING)) ((runs st)(c := Some i))"
    using S i by (intro cpus_on P(2)) auto
  moreover have "pids_ok ((state_of st)(i := RUNNING)) (pid_of st) (nextpid st)"
    by (rule pids_state [OF P(1)]) (use S in \<open>auto split: if_splits\<close>)
  moreover have "parents_ok ((state_of st)(i := RUNNING)) (parent_of st) (initproc st)"
    by (rule parents_state [OF P(3)]) (use S in \<open>auto simp: live_def split: if_splits\<close>)
  moreover have "forks_ok ((state_of st)(i := RUNNING)) (parent_of st) fk"
    by (rule forks_state [OF P(4)]) (use S in \<open>auto split: if_splits\<close>)
  moreover have "waits_ok ((state_of st)(i := RUNNING)) (parent_of st) (chan_of st)"
    by (rule waits_state [OF P(5)]) (use S in \<open>auto split: if_splits\<close>)
  ultimately show ?thesis using P(6,7) by (simp add: pinv_def v)
qed

lemma pinv_scheduler:
  assumes "pinv (st, fk)" "c < NCPU" "curproc (cpus st ! c) = None"
  shows "pinv (scheduler c st, fk)"
proof (cases "find (\<lambda>i. state (procs st ! i) = RUNNABLE \<and> priority (procs st ! i) = pass (cpus st ! c)) [pos (cpus st ! c)..<NPROC]")
  case None
  then show ?thesis using assms by (simp add: scheduler_def Let_def pinv_pass)
next
  case (Some i)
  then show ?thesis using assms find_upt(2,3) [OF Some] by (simp add: scheduler_def Let_def pinv_dispatch)
qed

lemma pinv_scheduler_old:
  assumes "pinv (st, fk)" "c < NCPU" "curproc (cpus st ! c) = None"
  shows "pinv (scheduler_old c st, fk)"
proof (cases "find (\<lambda>i. state (procs st ! i) = RUNNABLE) [pos (cpus st ! c)..<NPROC]")
  case None
  then show ?thesis using assms by (simp add: scheduler_old_def Let_def pinv_pass)
next
  case (Some i)
  then show ?thesis using assms find_upt(2,3) [OF Some] by (simp add: scheduler_old_def Let_def pinv_dispatch)
qed

lemma sched_Ok:
  assumes "sched c st = Ok st'" "c < NCPU" "length (cpus st) = NCPU"
  shows "state_of st' = state_of st" "pid_of st' = pid_of st" "parent_of st' = parent_of st" "chan_of st' = chan_of st"
    "runs st' = (runs st)(c := None)" "nextpid st' = nextpid st" "initproc st' = initproc st"
    "length (procs st') = length (procs st)" "length (cpus st') = length (cpus st)"
  using assms by (auto simp: sched_def upd_cpu_runs split: option.splits if_splits)

text \<open>A process gives up its CPU, to run later or to sleep.\<close>

lemma pinv_leave:
  assumes inv: "pinv (st, fk)" and c: "on_cpu c p st" and st': "sched c (upd p f st) = Ok st'"
    and f: "\<And>x. pid (f x) = pid x" "\<And>x. parent (f x) = parent x"
    and s: "state (f (procs st ! p)) = RUNNABLE \<or>
      state (f (procs st ! p)) = SLEEPING \<and> fk p = None \<and>
      (chan (f (procs st ! p)) = ProcChan p \<longrightarrow> (\<forall>i < NPROC. parent_of st i = Some p \<longrightarrow> state_of st i \<noteq> ZOMBIE))"
  shows "pinv (st', fk)"
proof -
  let ?x = "f (procs st ! p)"
  note P = pinv_parts [OF inv]
  have len: "p < length (procs st)" "length (cpus (upd p f st)) = NCPU" "c < NCPU"
    and S: "state_of st p = RUNNING" and p: "p < NPROC"
    using pinv_running [OF inv c] P(7) c by (auto simp: on_cpu_def)
  have v: "pid_of (upd p f st) = pid_of st" "parent_of (upd p f st) = parent_of st"
    by (auto simp: upd_view [OF len(1)] f pid_of_def parent_of_def fun_eq_iff)
  note v' = sched_Ok [OF st' len(3,2)] upd_view(1,4,5) [OF len(1)] v
  have "cpus_ok ((state_of st)(p := state ?x)) ((runs st)(c := None))"
    using c s by (intro cpus_off P(2)) (auto simp: on_cpu_runs)
  moreover have "pids_ok ((state_of st)(p := state ?x)) (pid_of st) (nextpid st)"
    by (rule pids_state [OF P(1)]) (use S in \<open>auto split: if_splits\<close>)
  moreover have "parents_ok ((state_of st)(p := state ?x)) (parent_of st) (initproc st)"
    by (rule parents_state [OF P(3)]) (use S s in \<open>auto simp: live_def split: if_splits\<close>)
  moreover have "forks_ok ((state_of st)(p := state ?x)) (parent_of st) fk"
    by (rule forks_leave [OF P(4) S]) (use s in auto)
  moreover have "waits_ok ((state_of st)(p := state ?x)) (parent_of st) ((chan_of st)(p := chan ?x))"
    by (rule waits_leave [OF P(5) S]) (use s in auto)
  ultimately show ?thesis using P(6,7) by (simp add: pinv_def v')
qed

lemma pinv_yield:
  assumes "pinv (st, fk)" "c < NCPU" "yield c st = Ok st'"
  shows "pinv (st', fk)"
proof -
  obtain p where p: "on_cpu c p st" "sched c (upd p (\<lambda>q. q\<lparr>state := RUNNABLE\<rparr>) st) = Ok st'"
    using assms(2,3) by (auto simp: yield_def on_cpu_def split: option.splits)
  show ?thesis by (rule pinv_leave [OF assms(1) p]) auto
qed

lemma pinv_sleep:
  assumes "pinv (st, fk)" "on_cpu c p st" "fk p = None" "sleep c ch st = Ok st'"
    "ch = ProcChan p \<Longrightarrow> (\<forall>i < NPROC. parent_of st i = Some p \<longrightarrow> state_of st i \<noteq> ZOMBIE)"
  shows "pinv (st', fk)"
proof -
  have st': "sched c (upd p (\<lambda>q. q\<lparr>chan := ch, state := SLEEPING\<rparr>) st) = Ok st'"
    using assms(2,4) by (auto simp: sleep_def on_cpu_def)
  show ?thesis by (rule pinv_leave [OF assms(1,2) st']) (use assms(3,5) in auto)
qed

text \<open>Sleepers become runnable.\<close>

lemma pinv_wake:
  assumes inv: "pinv (st, fk)"
    and len: "length (procs st') = length (procs st)" "cpus st' = cpus st" "nextpid st' = nextpid st" "initproc st' = initproc st"
    and same: "\<And>i. i < NPROC \<Longrightarrow> pid_of st' i = pid_of st i \<and> parent_of st' i = parent_of st i \<and> chan_of st' i = chan_of st i"
    and wake: "\<And>i. i < NPROC \<Longrightarrow> state_of st' i = state_of st i \<or> state_of st i = SLEEPING \<and> state_of st' i = RUNNABLE"
  shows "pinv (st', fk)"
proof -
  have r: "runs st' = runs st" by (auto simp: runs_def len fun_eq_iff)
  have w: "live (state_of st i) \<Longrightarrow> live (state_of st' i)" "state_of st' i = UNUSED \<longleftrightarrow> state_of st i = UNUSED"
    "state_of st' i = RUNNING \<longleftrightarrow> state_of st i = RUNNING" "state_of st' i = EMBRYO \<longleftrightarrow> state_of st i = EMBRYO"
    "state_of st' i = ZOMBIE \<longleftrightarrow> state_of st i = ZOMBIE" "state_of st' i = SLEEPING \<Longrightarrow> state_of st i = SLEEPING"
    "state_of st i = RUNNABLE \<Longrightarrow> state_of st' i = RUNNABLE"
    if "i < NPROC" for i using wake [OF that] by (auto simp: live_def)
  note P = pinv_parts [OF inv]
  have "pids_ok (state_of st') (pid_of st') (nextpid st')"
    using P(1) w(2) same len(3) unfolding pids_ok_def by simp
  moreover have "cpus_ok (state_of st') (runs st')"
    using P(2) w(3) unfolding cpus_ok_def r by blast
  moreover have "parents_ok (state_of st') (parent_of st') (initproc st')"
    unfolding len(4) by (rule parents_state [OF P(3)]) (use w(1,2,4) same in auto)
  moreover have "forks_ok (state_of st') (parent_of st') fk"
    by (rule forks_state [OF P(4)]) (use w(3,4,7) same in auto)
  moreover have "waits_ok (state_of st') (parent_of st') (chan_of st')"
    using P(5) w(5,6) same unfolding waits_ok_def by simp
  ultimately show ?thesis using P(6,7) len by (simp add: pinv_def)
qed

lemma pinv_wakeup:
  assumes "pinv (st, fk)"
  shows "pinv (wakeup1 ch st, fk)"
  by (rule pinv_wake [OF assms])
    (use pinv_len [OF assms] in \<open>auto simp: state_of_def pid_of_def parent_of_def chan_of_def\<close>)

lemma pinv_kill:
  assumes "pinv (st, fk)"
  shows "pinv (snd (kill k st), fk)"
proof (cases "find (\<lambda>i. pid (procs st ! i) = k) [0..<NPROC]")
  case (Some i)
  then have "i < length (procs st)" using find_upt(2) [OF Some] assms by (simp add: pinv_def)
  then show ?thesis using assms
    by (elim pinv_wake) (auto simp: kill_def Some upd_view state_of_def pid_of_def parent_of_def chan_of_def)
qed (use assms in \<open>simp add: kill_def\<close>)

lemma pinv_updI:
  assumes "length (procs st) = NPROC" "length (cpus st) = NCPU" "i < NPROC"
    "pids_ok ((state_of st)(i := state (f (procs st ! i)))) ((pid_of st)(i := pid (f (procs st ! i)))) (nextpid st)"
    "cpus_ok ((state_of st)(i := state (f (procs st ! i)))) (runs st)"
    "parents_ok ((state_of st)(i := state (f (procs st ! i)))) ((parent_of st)(i := parent (f (procs st ! i)))) (initproc st)"
    "forks_ok ((state_of st)(i := state (f (procs st ! i)))) ((parent_of st)(i := parent (f (procs st ! i)))) fk"
    "waits_ok ((state_of st)(i := state (f (procs st ! i)))) ((parent_of st)(i := parent (f (procs st ! i))))
       ((chan_of st)(i := chan (f (procs st ! i))))"
  shows "pinv (upd i f st, fk)"
  using assms by (simp add: pinv_def upd_view)

lemma view_same:
  "(state_of st)(i := state (procs st ! i)) = state_of st" "(pid_of st)(i := pid (procs st ! i)) = pid_of st"
  "(parent_of st)(i := parent (procs st ! i)) = parent_of st" "(chan_of st)(i := chan (procs st ! i)) = chan_of st"
  by (auto simp: fun_eq_iff state_of_def pid_of_def parent_of_def chan_of_def)

lemma pinv_alloc_slot:
  assumes inv: "pinv (st, fk)" and cur: "on_cpu c cur st" "fk cur = None" and a: "alloc_slot st = Some (i, st')"
  shows "pinv (st', fk(cur \<mapsto> i))"
proof -
  note P = pinv_parts [OF inv]
  obtain f: "find (\<lambda>i. state (procs st ! i) = UNUSED) [0..<NPROC] = Some i"
    and st': "st' = (upd i (\<lambda>p. p\<lparr>state := EMBRYO, pid := nextpid st, priority := 50\<rparr>) st)\<lparr>nextpid := nextpid st + 1\<rparr>"
    using a by (auto simp: alloc_slot_def split: option.splits)
  have i: "i < NPROC" and S: "state_of st i = UNUSED" using find_upt(2,3) [OF f] by (auto simp: state_of_def)
  have Q: "parent_of st i = None" using parents_at(4) [OF P(3) i S] .
  have run: "cur < NPROC" "state_of st cur = RUNNING" using pinv_running [OF inv cur(1)] by auto
  have "cpus_ok ((state_of st)(i := EMBRYO)) (runs st)"
    by (rule cpus_state [OF P(2)]) (use S in auto)
  moreover have "parents_ok ((state_of st)(i := EMBRYO)) ((parent_of st)(i := None)) (initproc st)"
    by (rule parents_slot [OF P(3)]) (use S in \<open>auto simp: live_def\<close>)
  moreover have "forks_ok ((state_of st)(i := EMBRYO)) (parent_of st) (fk(cur \<mapsto> i))"
    using P(4) S Q cur(2) run i by (intro forks_new)
  moreover have "waits_ok ((state_of st)(i := EMBRYO)) (parent_of st) (chan_of st)"
    by (rule waits_state [OF P(5)]) (auto split: if_splits)
  moreover have "(parent_of st)(i := None) = parent_of st" using Q by (auto simp: fun_eq_iff)
  ultimately show ?thesis using P(6,7) i pids_new [OF P(1)]
    by (simp add: pinv_def st' upd_view view_same)
qed

text \<open>The steps of a fork on its embryo.\<close>

lemma pinv_embryo:
  assumes "pinv (st, fk)" "fk cur = Some i"
  shows "i < NPROC" "state_of st i = EMBRYO" "state (procs st ! i) = EMBRYO" "cur < NPROC" "i \<noteq> cur"
    "parent_of st i = None \<or> parent_of st i = Some cur"
  using forks_at(1) [OF pinv_parts(4) [OF assms(1)] assms(2)] by (auto simp: state_of_def)

lemma pinv_fork_fail:
  assumes inv: "pinv (st, fk)" and fk: "fk cur = Some i" and Q: "parent (procs st ! i) = None"
    and f: "\<And>p. state (f p) = UNUSED" "\<And>p. parent (f p) = parent p" "\<And>p. pid (f p) = pid p" "\<And>p. chan (f p) = chan p"
  shows "pinv (upd i f st, fk(cur := None))"
proof -
  note P = pinv_parts [OF inv] and E = pinv_embryo [OF inv fk]
  have "parents_ok ((state_of st)(i := UNUSED)) ((parent_of st)(i := None)) (initproc st)"
    by (rule parents_slot [OF P(3)]) (use E in \<open>auto simp: live_def\<close>)
  moreover have "pids_ok ((state_of st)(i := UNUSED)) (pid_of st) (nextpid st)"
    by (rule pids_state [OF P(1)]) (auto split: if_splits)
  moreover have "cpus_ok ((state_of st)(i := UNUSED)) (runs st)"
    by (rule cpus_state [OF P(2)]) (use E in auto)
  moreover have "waits_ok ((state_of st)(i := UNUSED)) (parent_of st) (chan_of st)"
    by (rule waits_state [OF P(5)]) (auto split: if_splits)
  moreover have "forks_ok ((state_of st)(i := UNUSED)) (parent_of st) (fk(cur := None))"
    by (rule forks_free [OF P(4) fk]) simp
  moreover have "(parent_of st)(i := None) = parent_of st" using Q by (auto simp: fun_eq_iff parent_of_def)
  ultimately show ?thesis using P(6,7) E(1) by (intro pinv_updI) (simp_all add: f view_same)
qed

lemma pinv_fork_fill:
  assumes inv: "pinv (st, fk)" and fk: "fk cur = Some i" and run: "on_cpu c cur st"
  shows "pinv (fork_fill cur i pg st, fk)"
proof -
  note P = pinv_parts [OF inv] and E = pinv_embryo [OF inv fk]
  have "parents_ok ((state_of st)(i := EMBRYO)) ((parent_of st)(i := Some cur)) (initproc st)"
    by (rule parents_slot [OF P(3)]) (use E pinv_running [OF inv run] in \<open>auto simp: live_def\<close>)
  moreover have "(state_of st)(i := EMBRYO) = state_of st" using E by (auto simp: fun_eq_iff)
  ultimately show ?thesis
    unfolding fork_fill_def Let_def using P E
    by (intro pinv_updI) (simp_all add: view_same forks_fill [OF P(4) fk] waits_fill)
qed

lemma pinv_fork_done:
  assumes inv: "pinv (st, fk)" and fk: "fk cur = Some i" and Q: "parent (procs st ! i) = Some cur"
  shows "pinv (fork_done i st, fk(cur := None))"
proof -
  note P = pinv_parts [OF inv] and E = pinv_embryo [OF inv fk]
  have Q': "parent_of st i = Some cur" using Q by (simp add: parent_of_def)
  have "parents_ok ((state_of st)(i := RUNNABLE)) ((parent_of st)(i := Some cur)) (initproc st)"
    by (rule parents_slot [OF P(3)]) (use E parents_at(5) [OF P(3) E(1) Q'] in \<open>auto simp: live_def\<close>)
  moreover have "pids_ok ((state_of st)(i := RUNNABLE)) (pid_of st) (nextpid st)"
    by (rule pids_state [OF P(1)]) (use E in \<open>auto split: if_splits\<close>)
  moreover have "cpus_ok ((state_of st)(i := RUNNABLE)) (runs st)"
    by (rule cpus_state [OF P(2)]) (use E in auto)
  moreover have "waits_ok ((state_of st)(i := RUNNABLE)) (parent_of st) (chan_of st)"
    by (rule waits_state [OF P(5)]) (auto split: if_splits)
  moreover have "forks_ok ((state_of st)(i := RUNNABLE)) (parent_of st) (fk(cur := None))"
    by (rule forks_free [OF P(4) fk]) simp
  ultimately show ?thesis unfolding fork_done_def using P(6,7) E(1) Q view_same(3) [of st i]
    by (intro pinv_updI) (simp_all add: view_same)
qed

lemma pinv_tidy:
  assumes inv: "pinv (st, fk)" and run: "on_cpu c cur st"
  shows "pinv (sleep_tidy cur st, fk)"
proof -
  note P = pinv_parts [OF inv]
  have "waits_ok (state_of st) (parent_of st) ((chan_of st)(cur := NoChan))"
    using P(5) unfolding waits_ok_def by (auto split: if_splits)
  then show ?thesis unfolding sleep_tidy_def using P pinv_running [OF inv run]
    by (intro pinv_updI) (simp_all add: view_same)
qed

lemma pinv_reap:
  assumes inv: "pinv (st, fk)" and i: "i < NPROC" "state (procs st ! i) = ZOMBIE"
  shows "pinv (reap i st, fk)"
proof -
  note P = pinv_parts [OF inv]
  have S: "state_of st i = ZOMBIE" using i by (simp add: state_of_def)
  have "parents_ok ((state_of st)(i := UNUSED)) ((parent_of st)(i := None)) (initproc st)"
    by (rule parents_slot [OF P(3)]) (use S in \<open>auto simp: live_def\<close>)
  moreover have "cpus_ok ((state_of st)(i := UNUSED)) (runs st)"
    by (rule cpus_state [OF P(2)]) (use S in auto)
  ultimately show ?thesis unfolding reap_def using P(6,7) i(1) pids_free [OF P(1)] forks_reap [OF P(4) S] waits_reap [OF P(5)]
    by (intro pinv_updI) (simp_all add: view_same)
qed

lemma pinv_wait:
  assumes inv: "pinv (st, fk)" and run: "on_cpu c cur st" "fk cur = None" and w: "wait c st = Ok (r, st')"
  shows "pinv (st', fk)"
proof (cases "find (\<lambda>i. parent (procs st ! i) = Some cur \<and> state (procs st ! i) = ZOMBIE) [0..<NPROC]")
  case None
  then have no: "\<forall>i < NPROC. parent_of st i = Some cur \<longrightarrow> state_of st i \<noteq> ZOMBIE"
    by (simp add: find_upt_None parent_of_def state_of_def)
  consider "st' = st" | "sleep c (ProcChan cur) st = Ok st'"
    using w run(1) None by (cases "sleep c (ProcChan cur) st") (auto simp: wait_def on_cpu_def split: if_splits)
  then show ?thesis
  proof cases
    case 2
    show ?thesis by (rule pinv_sleep [OF inv run 2]) (use no in simp)
  qed (use inv in simp)
next
  case (Some i)
  then show ?thesis using w run(1) find_upt(2,3) [OF Some] inv by (auto simp: wait_def on_cpu_def pinv_reap)
qed

lemma pinv_setpriority:
  assumes inv: "pinv (st, fk)" and run: "on_cpu c cur st" and s: "sys_setpriority c arg st = Ok (r, st')"
  shows "pinv (st', fk)"
proof -
  have cur: "cur < NPROC" "curproc (cpus st ! c) = Some cur" "c < NCPU"
    using pinv_running [OF inv run] run by (auto simp: on_cpu_def)
  obtain prio where arg: "arg = Some prio" using s by (cases arg) (auto simp: sys_setpriority_def)
  let ?st = "upd cur (\<lambda>p. p\<lparr>priority := prio\<rparr>) st"
  have inv': "pinv (?st, fk)" by (rule pinv_same [OF inv cur(1)]) auto
  consider "st' = st" | "st' = ?st" | "yield c ?st = Ok st'"
    using s cur(2) arg by (cases "yield c ?st") (auto simp: sys_setpriority_def Let_def split: if_splits)
  then show ?thesis by cases (use inv inv' pinv_yield [OF inv' cur(3)] in auto)
qed

section \<open>Exit\<close>

lemma pinv_agree:
  assumes "pids_ok S P (nextpid st)" "cpus_ok S (runs st)" "parents_ok S Q (initproc st)" "forks_ok S Q fk" "waits_ok S Q C"
    and len: "length (procs st) = NPROC" "length (cpus st) = NCPU"
    and eq: "\<And>i. i < NPROC \<Longrightarrow> state_of st i = S i" "\<And>i. i < NPROC \<Longrightarrow> pid_of st i = P i"
      "\<And>i. i < NPROC \<Longrightarrow> parent_of st i = Q i" "\<And>i. i < NPROC \<Longrightarrow> chan_of st i = C i"
  shows "pinv (st, fk)"
proof -
  have "pids_ok (state_of st) (pid_of st) (nextpid st)" using assms(1) by (simp add: pids_ok_def eq)
  moreover have "cpus_ok (state_of st) (runs st)" using assms(2) eq(1) unfolding cpus_ok_def by metis
  moreover have "parents_ok (state_of st) (parent_of st) (initproc st)"
    by (rule parents_state [OF assms(3)]) (simp_all add: eq)
  moreover have "forks_ok (state_of st) (parent_of st) fk"
    by (rule forks_state [OF assms(4)]) (simp_all add: eq)
  moreover have "waits_ok (state_of st) (parent_of st) (chan_of st)" using assms(5) by (simp add: waits_ok_def eq)
  ultimately show ?thesis using len by (simp add: pinv_def)
qed

text \<open>The loop of \<open>exit\<close> after \<open>n\<close> slots: init is woken if a zombie was among the children.\<close>

definition zombie_child :: "nat \<Rightarrow> ptable \<Rightarrow> nat \<Rightarrow> bool" where
  "zombie_child cur st n = (\<exists>k < n. parent_of st k = Some cur \<and> state_of st k = ZOMBIE)"

lemma exit_loop:
  assumes "n \<le> length (procs st)"
  shows "let st' = foldl (exit_child cur) st [0..<n]; st2 = (if zombie_child cur st n then wakeup1 (ProcChan (initproc st)) st else st) in
    length (procs st') = length (procs st) \<and> cpus st' = cpus st \<and> nextpid st' = nextpid st \<and> initproc st' = initproc st \<and>
    (\<forall>i < length (procs st). state_of st' i = state_of st2 i \<and> pid_of st' i = pid_of st i \<and> chan_of st' i = chan_of st i \<and>
       killed (procs st' ! i) = killed (procs st ! i) \<and>
       parent_of st' i = (if i < n \<and> parent_of st i = Some cur then Some (initproc st) else parent_of st i))"
  using assms
proof (induction n)
  case 0
  then show ?case by (simp add: zombie_child_def Let_def)
next
  case (Suc n)
  define st1 where "st1 = foldl (exit_child cur) st [0..<n]"
  define st' where "st' = exit_child cur st1 n"
  have fold: "foldl (exit_child cur) st [0..<Suc n] = st'" by (simp add: st'_def st1_def)
  have zs: "zombie_child cur st (Suc n) \<longleftrightarrow> zombie_child cur st n \<or> parent_of st n = Some cur \<and> state_of st n = ZOMBIE"
    by (auto simp: zombie_child_def less_Suc_eq)
  have IH: "length (procs st1) = length (procs st)" "cpus st1 = cpus st" "nextpid st1 = nextpid st" "initproc st1 = initproc st"
    "\<And>i. i < length (procs st) \<Longrightarrow> state (procs st1 ! i) =
       (if zombie_child cur st n \<and> state (procs st ! i) = SLEEPING \<and> chan (procs st ! i) = ProcChan (initproc st) then RUNNABLE else state (procs st ! i))"
    "\<And>i. i < length (procs st) \<Longrightarrow> pid (procs st1 ! i) = pid (procs st ! i) \<and> chan (procs st1 ! i) = chan (procs st ! i) \<and>
       killed (procs st1 ! i) = killed (procs st ! i)"
    "\<And>i. i < length (procs st) \<Longrightarrow>
       parent (procs st1 ! i) = (if i < n \<and> parent (procs st ! i) = Some cur then Some (initproc st) else parent (procs st ! i))"
    using Suc by (auto simp: Let_def st1_def state_of_def pid_of_def chan_of_def parent_of_def split: if_splits)
  have n: "n < length (procs st)" using Suc.prems by simp
  have "length (procs st') = length (procs st) \<and> cpus st' = cpus st \<and> nextpid st' = nextpid st \<and> initproc st' = initproc st"
    by (simp add: st'_def exit_child_def Let_def IH)
  moreover have "state (procs st' ! i) = (if zombie_child cur st (Suc n) \<and> state (procs st ! i) = SLEEPING \<and>
        chan (procs st ! i) = ProcChan (initproc st) then RUNNABLE else state (procs st ! i)) \<and>
      pid (procs st' ! i) = pid (procs st ! i) \<and> chan (procs st' ! i) = chan (procs st ! i) \<and>
      killed (procs st' ! i) = killed (procs st ! i) \<and>
      parent (procs st' ! i) = (if i < Suc n \<and> parent (procs st ! i) = Some cur then Some (initproc st) else parent (procs st ! i))"
    if i: "i < length (procs st)" for i
    using IH(5,6,7) [OF i] IH(5,7) [OF n] IH(1,4) i n
    by (auto simp: st'_def exit_child_def Let_def nth_list_update zs less_Suc_eq parent_of_def state_of_def wake_proc_def)
  ultimately show ?case unfolding fold
    by (auto simp: Let_def state_of_def pid_of_def chan_of_def parent_of_def)
qed

lemma exit_effect:
  assumes inv: "pinv (st, fk)" and run: "on_cpu c cur st" and fk: "fk cur = None" and ini: "cur \<noteq> initproc st"
  obtains st' q where "exit_locked c cur st = Ok st'" "pinv (st', fk)" "parent_of st cur = Some q"
    "state_of st' cur = ZOMBIE" "parent_of st' cur = Some q" "pid_of st' cur = pid_of st cur" "runs st' c = None"
    "state_of st' q = SLEEPING \<Longrightarrow> chan_of st' q \<noteq> ProcChan q"
proof -
  note R = pinv_running [OF inv run]
  obtain q where q: "parent_of st cur = Some q" and q': "q < NPROC" "q \<noteq> cur"
    using parents_at(5,6) [OF pinv_parts(3) [OF inv], of cur] R ini by force
  define st1 where "st1 = wakeup1 (ProcChan q) st"
  define st2 where "st2 = (if zombie_child cur st1 NPROC then wakeup1 (ProcChan (initproc st)) st1 else st1)"
  define st3 where "st3 = foldl (exit_child cur) st1 [0..<NPROC]"
  let ?f = "\<lambda>p. p\<lparr>state := ZOMBIE\<rparr>"
  have inv2: "pinv (st2, fk)" by (simp add: st2_def st1_def pinv_wakeup inv)
  have len: "length (procs st) = NPROC" "length (cpus st) = NCPU" using pinv_len [OF inv] by auto
  have s2: "initproc st2 = initproc st" "nextpid st2 = nextpid st" "runs st2 = runs st" "initproc st1 = initproc st"
    by (auto simp: st2_def st1_def runs_def fun_eq_iff)
  have v2: "pid_of st2 i = pid_of st i \<and> parent_of st2 i = parent_of st i \<and> chan_of st2 i = chan_of st i \<and>
      parent_of st1 i = parent_of st i \<and> (state_of st1 i = ZOMBIE \<longleftrightarrow> state_of st2 i = ZOMBIE) \<and>
      (state_of st i = RUNNING \<longrightarrow> state_of st2 i = RUNNING)" if "i < NPROC" for i
    using that len by (auto simp: st2_def st1_def state_of_def pid_of_def parent_of_def chan_of_def)
  have q2: "state_of st2 q = SLEEPING \<Longrightarrow> chan_of st2 q \<noteq> ProcChan q"
    using q'(1) len by (auto simp: st2_def st1_def state_of_def chan_of_def split: if_splits)
  have i2: "zombie_child cur st1 NPROC \<Longrightarrow> state_of st2 (initproc st) = SLEEPING \<Longrightarrow> chan_of st2 (initproc st) \<noteq> ProcChan (initproc st)"
    using parents_at(1) [OF pinv_parts(3) [OF inv]] len by (auto simp: st2_def st1_def state_of_def chan_of_def split: if_splits)
  have l3: "length (procs st3) = NPROC" "cpus st3 = cpus st" "nextpid st3 = nextpid st" "initproc st3 = initproc st"
    and v3: "\<And>i. i < NPROC \<Longrightarrow> state_of st3 i = state_of st2 i \<and> pid_of st3 i = pid_of st i \<and> chan_of st3 i = chan_of st2 i \<and>
       parent_of st3 i = (if parent_of st2 i = Some cur then Some (initproc st) else parent_of st2 i)"
    using exit_loop [of NPROC st1 cur] len v2 unfolding Let_def st3_def [symmetric] s2(4) st2_def [symmetric]
    by (auto simp: st1_def pid_of_def chan_of_def)
  have cur: "cur < length (procs st3)" "cur < NPROC" "c < NCPU" using R l3 run by (auto simp: on_cpu_def)
  have ex: "exit_locked c cur st = sched c (upd cur ?f st3)"
    using q by (simp add: exit_locked_def Let_def st3_def st1_def parent_of_def)
  define st' where "st' = upd_cpu c (\<lambda>cp. cp\<lparr>curproc := None\<rparr>) (upd cur ?f st3)"
  have ok: "sched c (upd cur ?f st3) = Ok st'"
    using run cur by (simp add: sched_def st'_def on_cpu_def l3)
  note v' = sched_Ok [OF ok cur(3)] upd_view [OF cur(1), of ?f]
  have len3: "length (cpus (upd cur ?f st3)) = NCPU" using l3 len by simp
  have S': "state_of st' = (state_of st3)(cur := ZOMBIE)" "parent_of st' = parent_of st3" "pid_of st' = pid_of st3"
    "chan_of st' = chan_of st3" "runs st' = (runs st)(c := None)" "nextpid st' = nextpid st" "initproc st' = initproc st"
    "length (procs st') = NPROC" "length (cpus st') = NCPU"
    using v' len3 l3 len by (auto simp: fun_eq_iff parent_of_def pid_of_def chan_of_def runs_def)
  note P = pinv_parts [OF inv2]
  have c2: "state_of st2 cur = RUNNING" "parent_of st2 cur = Some q" using R v2 [OF cur(2)] q by auto
  have zc: "i < NPROC \<Longrightarrow> parent_of st2 i = Some cur \<Longrightarrow> state_of st2 i = ZOMBIE \<Longrightarrow> zombie_child cur st1 NPROC" for i
    using v2 [of i] by (auto simp: zombie_child_def)
  let ?S = "(state_of st2)(cur := ZOMBIE)"
  let ?Q = "\<lambda>i. if parent_of st2 i = Some cur then Some (initproc st) else parent_of st2 i"
  have "pinv (st', fk)"
  proof (rule pinv_agree [of ?S "pid_of st2" _ ?Q _ "chan_of st2"])
    show "pids_ok ?S (pid_of st2) (nextpid st')"
      using pids_state [OF P(1), of ?S] c2 by (auto simp: s2 S' split: if_splits)
    show "cpus_ok ?S (runs st')" unfolding S'(5)
      using cpus_off [OF P(2), of c cur ZOMBIE] run by (simp add: s2 on_cpu_runs)
    show "parents_ok ?S ?Q (initproc st')"
      using parents_exit [OF P(3) c2(1), of ?Q] ini by (simp add: s2 S')
    show "forks_ok ?S ?Q fk" by (rule forks_exit [OF P(4) c2(1) fk]) simp
    show "waits_ok ?S ?Q (chan_of st2)"
      by (rule waits_exit [OF P(5) c2(1), of _ "initproc st" q]) (use c2(2) q' q2 i2 zc in auto)
  qed (use S' v3 v2 in auto)
  moreover have "state_of st' q = SLEEPING \<Longrightarrow> chan_of st' q \<noteq> ProcChan q"
    using q2 q' v3 [OF q'(1)] by (simp add: S')
  moreover have "parent_of st' cur = Some q" "pid_of st' cur = pid_of st cur"
    using v3 [OF cur(2)] c2(2) q'(2) by (auto simp: S')
  ultimately show ?thesis using that [of st' q] ex ok q by (simp add: S')
qed

end
