(* ===== verification/Xv6_Proc_Props.thy ===== *)
theory Xv6_Proc_Props
  imports Xv6_Proc_Inv
begin

text \<open>What the process table guarantees, in every state the system reaches from its first process.\<close>

section \<open>Reachable states\<close>

definition reaches :: "psys \<Rightarrow> bool" where
  "reaches s \<longleftrightarrow> (\<exists>forkret ks pg root st. userinit forkret ks pg root ptable0 = Ok st \<and> pstep\<^sup>*\<^sup>* (st, Map.empty) s)"

lemma find_first: "P a \<Longrightarrow> a < n \<Longrightarrow> find P [a..<n] = Some a"
  by (simp add: upt_conv_Cons)

lemma pinv_first:
  assumes "userinit forkret ks pg root ptable0 = Ok st"
  shows "pinv (st, Map.empty)"
proof -
  have f: "find (\<lambda>i. state (procs ptable0 ! i) = UNUSED) [0..<NPROC] = Some 0"
    by (rule find_first) (simp_all add: ptable0_def proc0_def NPROC_def)
  have n: "nextpid ptable0 = 1" by (simp add: ptable0_def)
  obtain a w where ks: "ks = Some (a, w)" and pg: "pg \<noteq> 0"
    using assms by (cases ks) (auto simp: userinit_def allocproc_def alloc_slot_def f split: if_splits)
  have st: "st = upd 0 (\<lambda>p. p\<lparr>pgdir := pg, sz := 4096, tf := init_tf, name := map of_char ''initcode'', cwd := Some root, state := RUNNABLE\<rparr>)
     ((upd 0 (\<lambda>p. p\<lparr>kstack := a, tf := w, context_ := [0, 0, 0, 0, forkret]\<rparr>)
       ((upd 0 (\<lambda>p. p\<lparr>state := EMBRYO, pid := 1, priority := 50\<rparr>) ptable0)\<lparr>nextpid := 2\<rparr>))\<lparr>initproc := 0\<rparr>)"
    using assms pg ks n by (simp add: userinit_def allocproc_def alloc_slot_def f alloc_stack_def)
  have at: "procs st ! 0 = proc0\<lparr>state := RUNNABLE, pid := 1, priority := 50, kstack := a, tf := init_tf, context_ := [0, 0, 0, 0, forkret],
      pgdir := pg, sz := 4096, name := map of_char ''initcode'', cwd := Some root\<rparr>"
    by (simp add: st ptable0_def NPROC_def)
  have other: "procs st ! i = proc0" if "i < NPROC" "i \<noteq> 0" for i
    using that by (simp add: st ptable0_def)
  show ?thesis
  proof (rule pinv_agree [of "(\<lambda>_. UNUSED)(0 := RUNNABLE)" "(\<lambda>_. 0)(0 := 1)" _ "\<lambda>_. None" _ "\<lambda>_. NoChan"])
    have "nextpid st = 2" by (simp add: st)
    then show "pids_ok ((\<lambda>_. UNUSED)(0 := RUNNABLE)) ((\<lambda>_. 0)(0 := 1)) (nextpid st)" by (simp add: pids_ok_def)
    have "runs st c = None" for c by (simp add: runs_def st ptable0_def)
    then show "cpus_ok ((\<lambda>_. UNUSED)(0 := RUNNABLE)) (runs st)" by (simp add: cpus_ok_def)
    have "initproc st = 0" by (simp add: st)
    then show "parents_ok ((\<lambda>_. UNUSED)(0 := RUNNABLE)) (\<lambda>_. None) (initproc st)"
      by (simp add: parents_ok_def live_def NPROC_def)
    show "forks_ok ((\<lambda>_. UNUSED)(0 := RUNNABLE)) (\<lambda>_. None) Map.empty" by (simp add: forks_ok_def)
    show "waits_ok ((\<lambda>_. UNUSED)(0 := RUNNABLE)) (\<lambda>_. None) (\<lambda>_. NoChan)" by (simp add: waits_ok_def)
    show "length (procs st) = NPROC" "length (cpus st) = NCPU" by (simp_all add: st ptable0_def)
    fix i assume "i < NPROC"
    then show "state_of st i = ((\<lambda>_. UNUSED)(0 := RUNNABLE)) i" "pid_of st i = ((\<lambda>_. 0)(0 := 1)) i"
      "parent_of st i = None" "chan_of st i = NoChan"
      using other [of i] at
      by (cases "i = 0"; simp add: state_of_def pid_of_def parent_of_def chan_of_def proc0_def)+
  qed
qed

lemma pinv_step:
  assumes step: "pstep s s'" and inv: "pinv s"
  shows "pinv s'"
  using step
proof cases
  case (sched c st fk)
  then show ?thesis using inv pinv_scheduler by simp
next
  case (sched_old c st fk)
  then show ?thesis using inv pinv_scheduler_old by simp
next
  case (fork1 c cur st fk np st')
  then show ?thesis using inv pinv_alloc_slot [of st fk c cur np st'] by simp
next
  case (fork2 c cur st fk np forkret ks)
  then have "pinv (st, fk)" "np < NPROC" using inv pinv_embryo(1) [of st fk cur np] by auto
  then show ?thesis using fork2 by (cases ks) (simp add: alloc_stack_def pinv_same)
next
  case (fork2_fail c cur st fk np forkret)
  then show ?thesis using inv pinv_fork_fail [of st fk cur np] by (simp add: alloc_stack_def)
next
  case (fork3 c cur st fk np pg)
  then show ?thesis using inv pinv_fork_fill by simp
next
  case (fork3_fail c cur st fk np)
  then show ?thesis using inv pinv_fork_fail [of st fk cur np] by (simp add: fork_abort_def)
next
  case (fork4 c cur st fk np)
  then show ?thesis using inv pinv_fork_done by simp
next
  case (yield c st st' fk)
  then show ?thesis using inv pinv_yield by simp
next
  case (sleep c cur st fk a st')
  then show ?thesis using inv pinv_sleep [of st fk c cur "Addr a" st'] by simp
next
  case (sleep_tidy c cur st fk)
  then show ?thesis using inv pinv_tidy by simp
next
  case (wakeup st fk ch)
  then show ?thesis using inv pinv_wakeup by (simp add: wakeup_def)
next
  case (kill st fk k)
  then show ?thesis using inv pinv_kill by simp
next
  case (exit1 c cur st fk)
  then show ?thesis using inv pinv_running [of st fk c cur] by (simp add: exit_files_def pinv_same)
next
  case (exit2 c cur st fk st')
  then have e: "pinv (st, fk)" "on_cpu c cur st" "fk cur = None" "cur \<noteq> initproc st" using inv by auto
  show ?thesis by (rule exit_effect [OF e]) (use exit2 in auto)
next
  case (wait c cur st fk r st')
  then show ?thesis using inv pinv_wait [of st fk c cur r st'] by simp
next
  case (setpriority c cur st fk arg r st')
  then show ?thesis using inv pinv_setpriority [of st fk c cur arg r st'] by simp
qed

lemma reaches_pinv: "reaches s \<Longrightarrow> pinv s"
proof -
  assume "reaches s"
  then obtain forkret ks pg root st where b: "userinit forkret ks pg root ptable0 = Ok st" and s: "pstep\<^sup>*\<^sup>* (st, Map.empty) s"
    unfolding reaches_def by blast
  from s show "pinv s" by (induction rule: rtranclp_induct) (use pinv_first [OF b] pinv_step in blast)+
qed

section \<open>Priorities\<close>

definition prio_ok :: "ptable \<Rightarrow> bool" where
  "prio_ok st \<longleftrightarrow> (\<forall>p \<in> set (procs st). 0 \<le> priority p \<and> priority p \<le> 200)"

lemma prio_upd:
  assumes "prio_ok st" "\<And>p. priority (f p) = priority p \<or> 0 \<le> priority (f p) \<and> priority (f p) \<le> 200"
  shows "prio_ok (upd i f st)"
proof (cases "i < length (procs st)")
  case True
  have "0 \<le> priority (f (procs st ! i)) \<and> priority (f (procs st ! i)) \<le> 200"
    using assms(1) assms(2) [of "procs st ! i"] nth_mem [OF True] by (auto simp: prio_ok_def)
  then show ?thesis
    using assms(1) set_update_subset_insert [of "procs st" i "f (procs st ! i)"] by (auto simp: prio_ok_def)
qed (use assms(1) in \<open>simp add: prio_ok_def list_update_beyond\<close>)

lemma prio_upd_cpu [simp]: "prio_ok (upd_cpu c g st) = prio_ok st" by (simp add: prio_ok_def)

lemma prio_nextpid [simp]: "prio_ok (st\<lparr>nextpid := n\<rparr>) = prio_ok st" by (simp add: prio_ok_def)

lemma prio_initproc [simp]: "prio_ok (st\<lparr>initproc := n\<rparr>) = prio_ok st" by (simp add: prio_ok_def)

lemma prio_wakeup1 [simp]: "prio_ok (wakeup1 ch st) = prio_ok st"
proof -
  have "priority (wake_proc ch p) = priority p" for p by (simp add: wake_proc_def)
  then show ?thesis by (simp add: prio_ok_def)
qed

lemma prio_sched: "sched c st = Ok st' \<Longrightarrow> prio_ok st \<Longrightarrow> prio_ok st'"
  by (auto simp: sched_def split: option.splits if_splits)

lemma prio_exit_loop: "prio_ok st \<Longrightarrow> prio_ok (foldl (exit_child cur) st is)"
  by (induction "is" arbitrary: st) (auto simp: exit_child_def Let_def prio_upd)

lemma prio_exit: "prio_ok st \<Longrightarrow> exit_locked c cur st = Ok st' \<Longrightarrow> prio_ok st'"
  by (auto simp: exit_locked_def Let_def prio_upd prio_exit_loop elim!: prio_sched)

lemma prio_yield: "prio_ok st \<Longrightarrow> yield c st = Ok st' \<Longrightarrow> prio_ok st'"
  by (auto simp: yield_def prio_upd split: option.splits elim!: prio_sched)

lemma prio_sleep: "prio_ok st \<Longrightarrow> sleep c ch st = Ok st' \<Longrightarrow> prio_ok st'"
  by (auto simp: sleep_def prio_upd split: option.splits elim!: prio_sched)

lemma prio_wait:
  assumes "prio_ok st" "wait c st = Ok (r, st')"
  shows "prio_ok st'"
proof (cases "curproc (cpus st ! c)")
  case (Some cur)
  then show ?thesis using assms prio_sleep [OF assms(1), of c "ProcChan cur"]
    by (cases "sleep c (ProcChan cur) st") (auto simp: wait_def reap_def prio_upd split: option.splits if_splits)
qed (use assms in \<open>simp add: wait_def\<close>)

lemma prio_setpriority:
  assumes "prio_ok st" "sys_setpriority c arg st = Ok (r, st')"
  shows "prio_ok st'"
proof -
  obtain prio where arg: "arg = Some prio" using assms(2) by (cases arg) (auto simp: sys_setpriority_def)
  show ?thesis
  proof (cases "prio < 0 \<or> prio > 200")
    case False
    then obtain cur where cur: "curproc (cpus st ! c) = Some cur"
      using assms(2) arg by (cases "curproc (cpus st ! c)") (auto simp: sys_setpriority_def)
    let ?st = "upd cur (\<lambda>p. p\<lparr>priority := prio\<rparr>) st"
    have "prio_ok ?st" using assms(1) False by (intro prio_upd) auto
    then show ?thesis using assms(2) arg False cur prio_yield [of ?st c]
      by (cases "yield c ?st") (auto simp: sys_setpriority_def Let_def split: if_splits)
  qed (use assms arg in \<open>auto simp: sys_setpriority_def\<close>)
qed

lemma prio_step:
  assumes "pstep s s'" "prio_ok (fst s)"
  shows "prio_ok (fst s')"
  using assms(1)
proof cases
  case (exit2 c cur st fk st')
  then show ?thesis using assms(2) prio_exit by simp
next
  case (wait c cur st fk r st')
  then show ?thesis using assms(2) prio_wait by simp
next
  case (setpriority c cur st fk arg r st')
  then show ?thesis using assms(2) prio_setpriority by simp
next
  case (fork2 c cur st fk np forkret ks)
  then show ?thesis using assms(2) by (cases ks) (simp add: alloc_stack_def prio_upd)
next
  case (fork1 c cur st fk np st')
  then show ?thesis using assms(2) by (auto simp: alloc_slot_def prio_upd split: option.splits)
next
  case (yield c st st' fk)
  then show ?thesis using assms(2) prio_yield by simp
next
  case (sleep c cur st fk a st')
  then show ?thesis using assms(2) prio_sleep by simp
qed (use assms(2) in \<open>auto simp: scheduler_def scheduler_old_def dispatch_def Let_def alloc_stack_def fork_fill_def fork_abort_def
    fork_done_def sleep_tidy_def wakeup_def kill_def exit_files_def prio_upd split: option.split\<close>)

lemma reaches_prio: "reaches s \<Longrightarrow> prio_ok (fst s)"
proof -
  assume "reaches s"
  then obtain forkret ks pg root st where b: "userinit forkret ks pg root ptable0 = Ok st" and s: "pstep\<^sup>*\<^sup>* (st, Map.empty) s"
    unfolding reaches_def by blast
  have "prio_ok ptable0" by (simp add: prio_ok_def ptable0_def proc0_def NPROC_def)
  then have "prio_ok st" using b
    by (auto simp: userinit_def allocproc_def alloc_slot_def alloc_stack_def prio_upd split: option.splits if_splits)
  with s show ?thesis by (induction rule: rtranclp_induct) (simp, use prio_step in blast)
qed

lemma max_priority_foldl:
  fixes m :: int
  defines "g \<equiv> \<lambda>m p. if state p = RUNNABLE \<and> priority p < m then priority p else m"
  shows "foldl g m ps \<le> m \<and> (\<forall>p \<in> set ps. state p = RUNNABLE \<longrightarrow> foldl g m ps \<le> priority p) \<and>
    (foldl g m ps = m \<or> (\<exists>p \<in> set ps. state p = RUNNABLE \<and> priority p = foldl g m ps))"
proof (induction ps arbitrary: m)
  case (Cons p ps)
  show ?case using Cons.IH [of "g m p"] by (auto simp: g_def split: if_splits)
qed simp

lemma max_priority_least:
  assumes "p \<in> set ps" "state p = RUNNABLE" "priority p \<le> 200"
  shows "\<forall>q \<in> set ps. state q = RUNNABLE \<longrightarrow> max_priority ps \<le> priority q"
    and "\<exists>q \<in> set ps. state q = RUNNABLE \<and> priority q = max_priority ps"
  using max_priority_foldl [of 201 ps] assms unfolding max_priority_def by fastforce+

section \<open>A run\<close>

text \<open>
  The first process is dispatched on CPU 0 and forks; the child is dispatched on CPU 1.
\<close>

definition run_first :: ptable where
  "run_first = (case userinit 0x100 (Some (0x1000, [])) 0x2000 1 ptable0 of Ok st \<Rightarrow> st | _ \<Rightarrow> ptable0)"

definition run_init :: ptable where
  "run_init = scheduler 0 (scheduler 0 run_first)"

definition run_embryo :: ptable where
  "run_embryo = snd (the (alloc_slot run_init))"

definition run_forked :: ptable where
  "run_forked = fork_done 1 (fork_fill 0 1 0x3000 (alloc_stack 0x100 (Some (0x4000, [])) 1 run_embryo))"

definition run_child :: ptable where
  "run_child = scheduler 1 (scheduler 1 run_forked)"

definition run_exit :: ptable where
  "run_exit = (case exit_locked 1 1 run_child of Ok st \<Rightarrow> st | _ \<Rightarrow> run_child)"

lemma reaches_first: "reaches (run_first, Map.empty)"
proof -
  have "userinit 0x100 (Some (0x1000, [])) 0x2000 1 ptable0 = Ok run_first" by code_simp
  then show ?thesis unfolding reaches_def by blast
qed

lemma reaches_next: "reaches s \<Longrightarrow> pstep s s' \<Longrightarrow> reaches s'"
  unfolding reaches_def by (meson rtranclp.rtrancl_into_rtrancl)

lemma reaches_dispatch:
  "reaches (st, fk) \<Longrightarrow> c < NCPU \<Longrightarrow> curproc (cpus st ! c) = None \<Longrightarrow> curproc (cpus (scheduler c st) ! c) = None \<Longrightarrow>
    reaches (scheduler c (scheduler c st), fk)"
  by (blast intro: reaches_next pstep.sched)

lemma reaches_init: "reaches (run_init, Map.empty)"
  unfolding run_init_def by (rule reaches_dispatch [OF reaches_first]) code_simp+

lemma reaches_embryo: "reaches (run_embryo, [0 \<mapsto> 1])"
proof (rule reaches_next [OF reaches_init])
  have "on_cpu 0 0 run_init" by code_simp
  moreover have "alloc_slot run_init = Some (1, run_embryo)" by code_simp
  ultimately show "pstep (run_init, Map.empty) (run_embryo, [0 \<mapsto> 1])" using pstep.fork1 by simp
qed

lemma reaches_forked: "reaches (run_forked, Map.empty)"
proof -
  let ?a = "alloc_stack 0x100 (Some (0x4000, [])) 1 run_embryo"
  let ?b = "fork_fill 0 1 0x3000 ?a"
  have "pstep (run_embryo, [0 \<mapsto> 1]) (?a, [0 \<mapsto> 1])"
    by (rule pstep.fork2 [where c = 0 and cur = 0]) (code_simp, simp, code_simp)
  then have a: "reaches (?a, [0 \<mapsto> 1])" by (rule reaches_next [OF reaches_embryo])
  have "pstep (?a, [0 \<mapsto> 1]) (?b, [0 \<mapsto> 1])"
    by (rule pstep.fork3 [where c = 0 and cur = 0]) (code_simp, simp)
  then have b: "reaches (?b, [0 \<mapsto> 1])" by (rule reaches_next [OF a])
  have "pstep (?b, [0 \<mapsto> 1]) (run_forked, [0 \<mapsto> 1](0 := None))" unfolding run_forked_def
    by (rule pstep.fork4 [where c = 0 and cur = 0]) (code_simp, simp, code_simp)
  then show ?thesis using reaches_next [OF b] by simp
qed

lemma reaches_child: "reaches (run_child, Map.empty)"
  unfolding run_child_def by (rule reaches_dispatch [OF reaches_forked]) code_simp+

section \<open>Properties\<close>

text \<open>
  C3: in every state the system reaches, with any interleaving of the CPUs and of the parts of forks and
  exits, process ids are told apart, a process is \<open>RUNNING\<close> exactly when it is the process of one CPU,
  init is alive and every other process has a live parent, every embryo belongs to one fork in
  progress, and no process sleeps in \<open>wait\<close> while it has a child to reap (no wakeup is lost).
\<close>

theorem ptable_invariant:
  assumes "reaches (st, fk)"
  shows "pids_ok (state_of st) (pid_of st) (nextpid st) \<and> cpus_ok (state_of st) (runs st) \<and>
    parents_ok (state_of st) (parent_of st) (initproc st) \<and> forks_ok (state_of st) (parent_of st) fk \<and>
    waits_ok (state_of st) (parent_of st) (chan_of st)"
  using reaches_pinv [OF assms] by (simp add: pinv_def)

theorem ptable_invariant_witness:
  "pids_ok (state_of run_child) (pid_of run_child) (nextpid run_child) \<and> cpus_ok (state_of run_child) (runs run_child) \<and>
    parents_ok (state_of run_child) (parent_of run_child) (initproc run_child) \<and>
    forks_ok (state_of run_child) (parent_of run_child) Map.empty \<and>
    waits_ok (state_of run_child) (parent_of run_child) (chan_of run_child)"
  by (rule ptable_invariant [OF reaches_child])

text \<open>
  C7: an idle CPU runs a process if there is one to run: after at most one step that starts a new pass
  it dispatches a process that was runnable, and after a new pass it is one with the best (least)
  priority of all runnable processes.
\<close>

theorem scheduler_runs_best:
  assumes "reaches (st, fk)" "c < NCPU" "runs st c = None" "i < NPROC" "state_of st i = RUNNABLE"
  shows "\<exists>j < NPROC. state_of st j = RUNNABLE \<and>
    (runs (scheduler c st) c = Some j \<and> priority (procs st ! j) = pass (cpus st ! c) \<or>
     runs (scheduler c st) c = None \<and> runs (scheduler c (scheduler c st)) c = Some j \<and>
     (\<forall>k < NPROC. state_of st k = RUNNABLE \<longrightarrow> priority (procs st ! j) \<le> priority (procs st ! k)))"
proof -
  let ?P = "\<lambda>m i. state (procs st ! i) = RUNNABLE \<and> priority (procs st ! i) = m"
  have len: "length (procs st) = NPROC" "length (cpus st) = NCPU" using pinv_len [OF reaches_pinv [OF assms(1)]] by auto
  have d: "runs (dispatch c j st') c = Some j" if "length (cpus st') = NCPU" for j st'
    using that assms(2) by (simp add: dispatch_def runs_def)
  show ?thesis
  proof (cases "find (?P (pass (cpus st ! c))) [pos (cpus st ! c)..<NPROC]")
    case (Some j)
    then have "scheduler c st = dispatch c j st" by (simp add: scheduler_def)
    then show ?thesis using find_upt(2,3) [OF Some] d [of st j] len(2) by (auto simp: state_of_def)
  next
    case None
    define st1 where "st1 = scheduler c st"
    have st1: "st1 = upd_cpu c (\<lambda>cp. cp\<lparr>pass := max_priority (procs st), pos := 0\<rparr>) st"
      unfolding st1_def scheduler_def Let_def using None by simp
    have idle: "runs st1 c = None" using assms(2,3) len(2) by (simp add: st1 runs_def)
    have i: "procs st ! i \<in> set (procs st)" "state (procs st ! i) = RUNNABLE" "priority (procs st ! i) \<le> 200"
      using reaches_prio [OF assms(1)] assms(4,5) len(1) by (auto simp: prio_ok_def state_of_def)
    obtain j0 where "j0 < NPROC" "?P (max_priority (procs st)) j0"
      using max_priority_least(2) [OF i] len(1) by (auto simp: in_set_conv_nth)
    then obtain j where j: "find (?P (max_priority (procs st))) [0..<NPROC] = Some j"
      by (cases "find (?P (max_priority (procs st))) [0..<NPROC]") (auto simp: find_upt_None)
    then have "scheduler c st1 = dispatch c j st1"
      using assms(2) len(2) by (simp add: scheduler_def st1 Let_def)
    then have "runs (scheduler c st1) c = Some j" using d [of st1 j] len(2) by (simp add: st1)
    moreover have "\<forall>k < NPROC. state_of st k = RUNNABLE \<longrightarrow> priority (procs st ! j) \<le> priority (procs st ! k)"
      using max_priority_least(1) [OF i] find_upt(3) [OF j] len(1) by (simp add: state_of_def)
    ultimately show ?thesis using idle find_upt(2,3) [OF j] unfolding st1_def by (auto simp: state_of_def)
  qed
qed

theorem scheduler_runs_best_witness:
  "\<exists>j. j < NPROC \<and> state_of run_forked j = RUNNABLE \<and> runs (scheduler 1 run_forked) 1 = None \<and>
     runs (scheduler 1 (scheduler 1 run_forked)) 1 = Some j \<and> priority (procs run_forked ! j) \<le> priority (procs run_forked ! 1)"
proof -
  have c: "1 < NCPU" "runs run_forked 1 = None" "1 < NPROC" "state_of run_forked 1 = RUNNABLE" by code_simp+
  have "runs (scheduler 1 run_forked) 1 = None" by code_simp
  then show ?thesis using scheduler_runs_best [OF reaches_forked c] c(3,4) by (metis option.distinct(1))
qed

text \<open>
  C5: \<open>exit\<close> never fails for a process other than init. The process becomes a zombie that keeps its pid
  and its parent, its CPU is idle, and its parent is not left asleep in \<open>wait\<close>. When the parent calls
  \<open>wait\<close> it is given the pid of a zombie child at once and the child's slot is free.
\<close>

theorem exit_then_wait:
  assumes "reaches (st, fk)" "on_cpu c cur st" "fk cur = None" "cur \<noteq> initproc st"
  shows "\<exists>st' q. exit_locked c cur st = Ok st' \<and> parent_of st cur = Some q \<and> state_of st' cur = ZOMBIE \<and>
    parent_of st' cur = Some q \<and> pid_of st' cur = pid_of st cur \<and> runs st' c = None \<and>
    \<not> (state_of st' q = SLEEPING \<and> chan_of st' q = ProcChan q) \<and>
    (\<forall>d. on_cpu d q st' \<longrightarrow>
      (\<exists>i st''. i \<le> cur \<and> parent_of st' i = Some q \<and> state_of st' i = ZOMBIE \<and>
         wait d st' = Ok (Returns (pid_of st' i), st'') \<and> state_of st'' i = UNUSED))"
proof -
  obtain st' q where st': "exit_locked c cur st = Ok st'" "pinv (st', fk)" "parent_of st cur = Some q"
    "state_of st' cur = ZOMBIE" "parent_of st' cur = Some q" "pid_of st' cur = pid_of st cur" "runs st' c = None"
    "state_of st' q = SLEEPING \<Longrightarrow> chan_of st' q \<noteq> ProcChan q"
    using exit_effect [OF reaches_pinv [OF assms(1)] assms(2-4)] by blast
  have cur: "cur < NPROC" using pinv_running [OF reaches_pinv [OF assms(1)] assms(2)] by simp
  have "\<exists>i st''. i \<le> cur \<and> parent_of st' i = Some q \<and> state_of st' i = ZOMBIE \<and>
         wait d st' = Ok (Returns (pid_of st' i), st'') \<and> state_of st'' i = UNUSED" if d: "on_cpu d q st'" for d
  proof -
    let ?P = "\<lambda>i. parent (procs st' ! i) = Some q \<and> state (procs st' ! i) = ZOMBIE"
    have P: "?P cur" using st' by (simp add: parent_of_def state_of_def)
    then obtain i where i: "find ?P [0..<NPROC] = Some i"
      using cur by (cases "find ?P [0..<NPROC]") (auto simp: find_upt_None)
    have "i \<le> cur" using find_upt(4) [OF i, of cur] P by force
    moreover have "wait d st' = Ok (Returns (pid_of st' i), reap i st')"
      using d i by (simp add: wait_def on_cpu_def pid_of_def)
    moreover have "state_of (reap i st') i = UNUSED"
      using find_upt(2) [OF i] pinv_len [OF st'(2)] by (simp add: reap_def state_of_def)
    ultimately show ?thesis using find_upt(3) [OF i] by (auto simp: parent_of_def state_of_def)
  qed
  then show ?thesis using st' by blast
qed

theorem exit_then_wait_witness:
  "exit_locked 1 1 run_child = Ok run_exit \<and> state_of run_exit 1 = ZOMBIE \<and>
     (\<exists>st''. wait 0 run_exit = Ok (Returns (pid_of run_exit 1), st'') \<and> state_of st'' 1 = UNUSED)"
proof -
  have e: "exit_locked 1 1 run_child = Ok run_exit" by code_simp
  have c: "on_cpu 1 1 run_child" "1 \<noteq> initproc run_child" by code_simp+
  have q: "parent_of run_child 1 = Some 0" by code_simp
  have w: "on_cpu 0 0 run_exit" "parent_of run_exit 0 = None" by code_simp+
  obtain st' r where st': "exit_locked 1 1 run_child = Ok st'" "parent_of run_child 1 = Some r" "state_of st' 1 = ZOMBIE"
    and d: "on_cpu 0 r st' \<Longrightarrow> \<exists>i st''. i \<le> 1 \<and> parent_of st' i = Some r \<and> state_of st' i = ZOMBIE \<and>
         wait 0 st' = Ok (Returns (pid_of st' i), st'') \<and> state_of st'' i = UNUSED"
    using exit_then_wait [OF reaches_child c(1) _ c(2)] by blast
  have "st' = run_exit" "r = 0" using st' e q by simp_all
  then obtain i st'' where i: "i \<le> 1" "parent_of run_exit i = Some 0"
    "wait 0 run_exit = Ok (Returns (pid_of run_exit i), st'')" "state_of st'' i = UNUSED"
    using d w(1) by blast
  have "i = 1" using i(1,2) w(2) by (cases i) auto
  then show ?thesis using e st'(3) i \<open>st' = run_exit\<close> by blast
qed

text \<open>
  C19: \<open>kill\<close> with the pid of a process marks that process and no other, and lets it run if it sleeps.
\<close>

theorem kill_marks:
  assumes "reaches (st, fk)" "i < NPROC" "state_of st i \<noteq> UNUSED"
  shows "kill (pid_of st i) st =
    (0, upd i (\<lambda>p. p\<lparr>killed := True, state := if state_of st i = SLEEPING then RUNNABLE else state_of st i\<rparr>) st)"
proof -
  let ?P = "\<lambda>j. pid (procs st ! j) = pid_of st i"
  note P = pinv_parts(1) [OF reaches_pinv [OF assms(1)]]
  have one: "j = i" if "j < NPROC" "?P j" for j
    using P assms(2,3) that unfolding pids_ok_def pid_of_def by metis
  have "?P i" by (simp add: pid_of_def)
  then obtain j where j: "find ?P [0..<NPROC] = Some j"
    using assms(2) by (cases "find ?P [0..<NPROC]") (auto simp: find_upt_None)
  then have "j = i" using one find_upt(2,3) [OF j] by blast
  then show ?thesis using j by (simp add: kill_def upd_def state_of_def)
qed

theorem kill_marks_witness: "\<exists>st'. kill 2 run_child = (0, st') \<and> killed (procs st' ! 1) \<and> \<not> killed (procs st' ! 0)"
proof -
  have "1 < NPROC" "state_of run_child 1 \<noteq> UNUSED" "pid_of run_child 1 = 2" "state_of run_child 1 = RUNNING"
    "\<not> killed (procs run_child ! 0)" "1 < length (procs run_child)" by code_simp+
  then show ?thesis using kill_marks [OF reaches_child, of 1] by simp
qed

text \<open>
  C21: \<open>kill(0)\<close> reports success although no process has pid 0: it marks the first free slot, and the
  process that \<open>fork\<close> puts there next is killed from the start.
\<close>

theorem kill_zero_kills_next:
  assumes "reaches (st, fk)" "i < NPROC" "state_of st i = UNUSED" "\<forall>j < i. state_of st j \<noteq> UNUSED" "pid_of st i = 0" "pg \<noteq> 0"
  shows "fst (kill 0 st) = 0 \<and>
    (\<exists>st'. fork forkret cur (Some (a, w)) pg (snd (kill 0 st)) = (nextpid st, st') \<and> state_of st' i = RUNNABLE \<and>
       pid_of st' i = nextpid st \<and> killed (procs st' ! i))"
proof -
  note P = pinv_parts [OF reaches_pinv [OF assms(1)]]
  have first: "find R [0..<NPROC] = Some i" if R: "R i" "\<And>j. j < i \<Longrightarrow> \<not> R j" for R
  proof -
    obtain j where j: "find R [0..<NPROC] = Some j"
      using assms(2) R(1) by (cases "find R [0..<NPROC]") (auto simp: find_upt_None)
    have "\<not> i < j" using find_upt(4) [OF j, of i] R(1) by auto
    moreover have "\<not> j < i" using find_upt(3) [OF j] R(2) by auto
    ultimately show ?thesis using j by (metis linorder_neqE_nat)
  qed
  have "find (\<lambda>i. pid (procs st ! i) = 0) [0..<NPROC] = Some i"
    using first [of "\<lambda>i. pid (procs st ! i) = 0"] P(1) assms(2-5) by (auto simp: pids_ok_def state_of_def pid_of_def)
  then have k: "kill 0 st = (0, upd i (\<lambda>p. p\<lparr>killed := True, state := (if state p = SLEEPING then RUNNABLE else state p)\<rparr>) st)"
    by (simp add: kill_def)
  let ?st = "snd (kill 0 st)"
  have i: "i < length (procs st)" using assms(2) P(6) by simp
  have "find (\<lambda>i. state (procs ?st ! i) = UNUSED) [0..<NPROC] = Some i"
    using assms(3,4) i by (intro first) (auto simp: k state_of_def nth_list_update)
  then show ?thesis
    using i assms(6)
    by (simp add: fork_def allocproc_def alloc_slot_def alloc_stack_def fork_fill_def fork_done_def Let_def k state_of_def pid_of_def)
qed

theorem kill_zero_kills_next_witness:
  "fst (kill 0 run_init) = 0 \<and>
    (\<exists>st'. fork 0x100 0 (Some (0x4000, [])) 0x3000 (snd (kill 0 run_init)) = (2, st') \<and> state_of st' 1 = RUNNABLE \<and>
       pid_of st' 1 = 2 \<and> killed (procs st' ! 1))"
proof -
  have "1 < NPROC" "state_of run_init 1 = UNUSED" "\<forall>j < 1. state_of run_init j \<noteq> UNUSED" "pid_of run_init 1 = 0" "(0x3000 :: uint) \<noteq> 0"
    "nextpid run_init = 2" by code_simp+
  then show ?thesis using kill_zero_kills_next [OF reaches_init, of 1 "0x3000" "0x100" 0 "0x4000" "[]"] by simp
qed

end
