(* ===== verification/Xv6_Vm.thy ===== *)
theory Xv6_Vm
  imports Xv6_String
begin

unbundle bit_operations_syntax

text \<open>
  The page allocator (\<open>kalloc.c\<close>) and the page tables (\<open>vm.c\<close>), with the lazy allocation of lab 4: the
  page-fault part of \<open>trap\<close> (\<open>trap.c\<close>) and \<open>sys_sbrk\<close> (\<open>sysproc.c\<close>). Memory is a map from kernel
  virtual addresses to bytes, in which the free list, page directories and page tables live. \<open>kend\<close> and
  \<open>kdata\<close> are the addresses of the linker symbols \<open>end\<close> and \<open>data\<close>. \<open>kmem.lock\<close> makes each call of
  the allocator atomic. Messages printed on the console are not modelled.
\<close>

section \<open>Addresses\<close>

definition KERNBASE :: uint where "KERNBASE = 0x80000000"
definition EXTMEM :: uint where "EXTMEM = 0x100000"
definition PHYSTOP :: uint where "PHYSTOP = 0xE000000"
definition DEVSPACE :: uint where "DEVSPACE = 0xFE000000"
definition KERNLINK :: uint where "KERNLINK = KERNBASE + EXTMEM"
definition V2P :: "uint \<Rightarrow> uint" where "V2P a = a - KERNBASE"
definition P2V :: "uint \<Rightarrow> uint" where "P2V a = a + KERNBASE"

definition PGSIZE :: uint where "PGSIZE = 4096"
definition NPDENTRIES :: nat where "NPDENTRIES = 1024"
definition PDX :: "uint \<Rightarrow> uint" where "PDX va = drop_bit 22 va AND 0x3FF"
definition PTX :: "uint \<Rightarrow> uint" where "PTX va = drop_bit 12 va AND 0x3FF"
definition PGADDR :: "uint \<Rightarrow> uint \<Rightarrow> uint \<Rightarrow> uint" where "PGADDR d t off = push_bit 22 d OR push_bit 12 t OR off"
definition PGROUNDUP :: "uint \<Rightarrow> uint" where "PGROUNDUP s = (s + PGSIZE - 1) AND NOT (PGSIZE - 1)"
definition PGROUNDDOWN :: "uint \<Rightarrow> uint" where "PGROUNDDOWN a = a AND NOT (PGSIZE - 1)"

definition PTE_P :: uint where "PTE_P = 1"
definition PTE_W :: uint where "PTE_W = 2"
definition PTE_U :: uint where "PTE_U = 4"
definition PTE_ADDR :: "uint \<Rightarrow> uint" where "PTE_ADDR e = e AND NOT 0xFFF"
definition PTE_FLAGS :: "uint \<Rightarrow> uint" where "PTE_FLAGS e = e AND 0xFFF"

text \<open>A 32-bit word in memory.\<close>

definition get32 :: "mem \<Rightarrow> uint \<Rightarrow> uint" where
  "get32 m a = dec_u32 [m a, m (a + 1), m (a + 2), m (a + 3)]"

definition put32 :: "uint \<Rightarrow> uint \<Rightarrow> mem \<Rightarrow> mem" where
  "put32 a v m =
    m(a := enc_u32 v ! 0, a + 1 := enc_u32 v ! 1, a + 2 := enc_u32 v ! 2, a + 3 := enc_u32 v ! 3)"

lemma and_split: "(a AND b) + (a AND NOT b) = (a :: uint)"
proof -
  have "(a AND b) AND (a AND NOT b) = 0" by (rule bit_eqI) (simp add: bit_simps)
  then have "(a AND b) + (a AND NOT b) = (a AND b) OR (a AND NOT b)" by (rule disjunctive_add_eq_or)
  also have "\<dots> = a" by (rule bit_eqI) (auto simp: bit_simps)
  finally show ?thesis .
qed

lemma and_mask: "(a :: uint) AND mask n = a mod 2 ^ n"
  by (simp only: take_bit_eq_mask [symmetric] take_bit_eq_mod)

lemma low12: "(a :: uint) AND 4095 = a mod 4096"
  using and_mask [of a 12] by (simp add: mask_eq_exp_minus_1)

lemma round12: "(a :: uint) AND NOT 4095 = a - a mod 4096"
  using and_split [of a 4095] by (simp add: low12 eq_diff_eq add.commute)

lemma PGROUNDDOWN_eq: "PGROUNDDOWN a = a - a mod 4096"
  using round12 [of a] by (simp add: PGROUNDDOWN_def PGSIZE_def)

section \<open>The page allocator\<close>

record vst =
  ram :: mem
  freelist :: uint
  use_lock :: bool

definition kfree :: "uint \<Rightarrow> uint \<Rightarrow> vst \<Rightarrow> vst kres" where
  "kfree kend v st =
    (if v mod PGSIZE \<noteq> 0 \<or> v < kend \<or> V2P v \<ge> PHYSTOP then Panic ''kfree''
     else Ok (st\<lparr>ram := put32 v (freelist st) (memset v 1 PGSIZE (ram st)), freelist := v\<rparr>))"

definition kalloc :: "vst \<Rightarrow> uint \<times> vst" where
  "kalloc st =
    (let r = freelist st in (r, if r \<noteq> 0 then st\<lparr>freelist := get32 (ram st) r\<rparr> else st))"

text \<open>The loop of \<open>freerange\<close>. It cannot wrap around: \<open>kfree\<close> panics on a page above physical memory.\<close>

lemma kfree_Ok_range:
  assumes "kfree kend v st = Ok st'"
  shows "unat v < 0x8E000000"
proof -
  have "v - 0x80000000 < 0xE000000" using assms by (auto simp: kfree_def V2P_def KERNBASE_def PHYSTOP_def split: if_splits)
  then have "unat (v - 0x80000000) < 0xE000000" by (simp add: word_less_nat_alt)
  moreover have "unat v = (unat (v - 0x80000000) + 0x80000000) mod 0x100000000"
    using unat_word_ariths(1) [of "v - 0x80000000" "0x80000000"] by simp
  ultimately show ?thesis by simp
qed

function freerange_loop :: "uint \<Rightarrow> uint \<Rightarrow> uint \<Rightarrow> vst \<Rightarrow> vst kres" where
  "freerange_loop kend p vend st =
    (if p + PGSIZE \<le> vend then kbind (kfree kend p st) (\<lambda>st. freerange_loop kend (p + PGSIZE) vend st) else Ok st)"
  by pat_completeness auto
termination
proof (relation "measure (\<lambda>(kend, p, vend, st). 2 ^ 32 - unat p)", simp)
  fix kend p vend :: uint and st st' :: vst
  assume "kfree kend p st = Ok st'"
  then have p: "unat p < 0x8E000000" by (rule kfree_Ok_range)
  then have "unat (p + PGSIZE) = unat p + 4096"
    by (subst unat_add_u32) (auto simp: PGSIZE_def)
  then show "((kend, p + PGSIZE, vend, st'), kend, p, vend, st) \<in> measure (\<lambda>(kend, p, vend, st). 2 ^ 32 - unat p)"
    using p by simp
qed

declare freerange_loop.simps [simp del]

definition freerange :: "uint \<Rightarrow> uint \<Rightarrow> uint \<Rightarrow> vst \<Rightarrow> vst kres" where
  "freerange kend vstart vend st = freerange_loop kend (PGROUNDUP vstart) vend st"

definition kinit1 :: "uint \<Rightarrow> uint \<Rightarrow> uint \<Rightarrow> vst \<Rightarrow> vst kres" where
  "kinit1 kend vstart vend st = freerange kend vstart vend (st\<lparr>use_lock := False\<rparr>)"

definition kinit2 :: "uint \<Rightarrow> uint \<Rightarrow> uint \<Rightarrow> vst \<Rightarrow> vst kres" where
  "kinit2 kend vstart vend st = kbind (freerange kend vstart vend st) (\<lambda>st. Ok (st\<lparr>use_lock := True\<rparr>))"

section \<open>Page tables\<close>

text \<open>\<open>walkpgdir\<close>: the address of the page table entry, 0 for none.\<close>

definition walkpgdir :: "uint \<Rightarrow> uint \<Rightarrow> bool \<Rightarrow> vst \<Rightarrow> uint \<times> vst" where
  "walkpgdir pgdir va alloc st =
    (let pde = pgdir + 4 * PDX va; e = get32 (ram st) pde in
     if e AND PTE_P \<noteq> 0 then (P2V (PTE_ADDR e) + 4 * PTX va, st)
     else if \<not> alloc then (0, st)
     else
       (let (pgtab, st) = kalloc st in
        if pgtab = 0 then (0, st)
        else
          (let m = memset pgtab 0 PGSIZE (ram st);
               m = put32 pde (V2P pgtab OR PTE_P OR PTE_W OR PTE_U) m
           in (pgtab + 4 * PTX va, st\<lparr>ram := m\<rparr>))))"

text \<open>One round of the loop of \<open>mappages\<close>; false when there is no memory for a page table.\<close>

definition map_page :: "uint \<Rightarrow> uint \<Rightarrow> uint \<Rightarrow> uint \<Rightarrow> vst \<Rightarrow> (bool \<times> vst) kres" where
  "map_page pgdir a pa perm st =
    (let (pte, st) = walkpgdir pgdir a True st in
     if pte = 0 then Ok (False, st)
     else if get32 (ram st) pte AND PTE_P \<noteq> 0 then Panic ''remap''
     else Ok (True, st\<lparr>ram := put32 pte (pa OR perm OR PTE_P) (ram st)\<rparr>))"

text \<open>\<open>n\<close> is the number of pages from \<open>a\<close> to \<open>last\<close>.\<close>

primrec mappages_loop :: "nat \<Rightarrow> uint \<Rightarrow> uint \<Rightarrow> uint \<Rightarrow> uint \<Rightarrow> vst \<Rightarrow> (int \<times> vst) kres" where
  "mappages_loop 0 pgdir a pa perm st =
    kbind (map_page pgdir a pa perm st) (\<lambda>(ok, st). Ok (if ok then 0 else -1, st))"
| "mappages_loop (Suc n) pgdir a pa perm st =
    kbind (map_page pgdir a pa perm st)
      (\<lambda>(ok, st). if ok then mappages_loop n pgdir (a + PGSIZE) (pa + PGSIZE) perm st else Ok (-1, st))"

definition mappages :: "uint \<Rightarrow> uint \<Rightarrow> uint \<Rightarrow> uint \<Rightarrow> uint \<Rightarrow> vst \<Rightarrow> (int \<times> vst) kres" where
  "mappages pgdir va sz pa perm st =
    (let a = PGROUNDDOWN va; last = PGROUNDDOWN (va + sz - 1) in
     mappages_loop (unat ((last - a) div PGSIZE)) pgdir a pa perm st)"

section \<open>User memory\<close>

partial_function (option) deallocuvm_loop :: "uint \<Rightarrow> uint \<Rightarrow> uint \<Rightarrow> uint \<Rightarrow> vst \<Rightarrow> vst kres option" where
  "deallocuvm_loop kend pgdir a oldsz st =
    (if a < oldsz then
       let pte = fst (walkpgdir pgdir a False st) in
       if pte = 0 then deallocuvm_loop kend pgdir (PGADDR (PDX a + 1) 0 0 - PGSIZE + PGSIZE) oldsz st
       else if get32 (ram st) pte AND PTE_P \<noteq> 0 then
         let pa = PTE_ADDR (get32 (ram st) pte) in
         if pa = 0 then Some (Panic ''kfree'')
         else
           case kfree kend (P2V pa) st of
             Ok st' \<Rightarrow> deallocuvm_loop kend pgdir (a + PGSIZE) oldsz (st'\<lparr>ram := put32 pte 0 (ram st')\<rparr>)
           | Panic s \<Rightarrow> Some (Panic s) | Sleeps \<Rightarrow> Some Sleeps | Diverges \<Rightarrow> Some Diverges | Undefined \<Rightarrow> Some Undefined
       else deallocuvm_loop kend pgdir (a + PGSIZE) oldsz st
     else Some (Ok st))"

text \<open>The outcome of a loop that may not end.\<close>

definition run_loop :: "'a kres option \<Rightarrow> 'a kres" where
  "run_loop r = (case r of None \<Rightarrow> Diverges | Some k \<Rightarrow> k)"

definition deallocuvm :: "uint \<Rightarrow> uint \<Rightarrow> uint \<Rightarrow> uint \<Rightarrow> vst \<Rightarrow> (uint \<times> vst) kres" where
  "deallocuvm kend pgdir oldsz newsz st =
    (if newsz \<ge> oldsz then Ok (oldsz, st)
     else kbind (run_loop (deallocuvm_loop kend pgdir (PGROUNDUP newsz) oldsz st)) (\<lambda>st. Ok (newsz, st)))"

definition freevm :: "uint \<Rightarrow> uint \<Rightarrow> vst \<Rightarrow> vst kres" where
  "freevm kend pgdir st =
    (if pgdir = 0 then Panic ''freevm: no pgdir''
     else
       kbind (deallocuvm kend pgdir KERNBASE 0 st) (\<lambda>(_, st).
       kbind (kfor NPDENTRIES (\<lambda>i st.
                let e = get32 (ram st) (pgdir + 4 * of_nat i) in
                if e AND PTE_P \<noteq> 0 then kfree kend (P2V (PTE_ADDR e)) st else Ok st) 0 st) (\<lambda>st.
       kfree kend pgdir st)))"

text \<open>The kernel's mappings: virtual address, physical range, permissions.\<close>

definition kmap :: "uint \<Rightarrow> (uint \<times> uint \<times> uint \<times> uint) list" where
  "kmap kdata =
    [(KERNBASE, 0, EXTMEM, PTE_W),
     (KERNLINK, V2P KERNLINK, V2P kdata, 0),
     (kdata, V2P kdata, PHYSTOP, PTE_W),
     (DEVSPACE, DEVSPACE, 0, PTE_W)]"

primrec setup_maps :: "uint \<Rightarrow> (uint \<times> uint \<times> uint \<times> uint) list \<Rightarrow> uint \<Rightarrow> vst \<Rightarrow> (uint \<times> vst) kres" where
  "setup_maps kend [] pgdir st = Ok (pgdir, st)"
| "setup_maps kend (k # ks) pgdir st =
    (case k of (virt, phys_start, phys_end, perm) \<Rightarrow>
      kbind (mappages pgdir virt (phys_end - phys_start) phys_start perm st) (\<lambda>(r, st).
      if r < 0 then kbind (freevm kend pgdir st) (\<lambda>st. Ok (0, st)) else setup_maps kend ks pgdir st))"

definition setupkvm :: "uint \<Rightarrow> uint \<Rightarrow> vst \<Rightarrow> (uint \<times> vst) kres" where
  "setupkvm kend kdata st =
    (let (pgdir, st) = kalloc st in
     if pgdir = 0 then Ok (0, st)
     else
       (let st = st\<lparr>ram := memset pgdir 0 PGSIZE (ram st)\<rparr> in
        if P2V PHYSTOP > DEVSPACE then Panic ''PHYSTOP too high''
        else setup_maps kend (kmap kdata) pgdir st))"

text \<open>\<open>inituvm\<close>; \<open>init\<close> is where the program is in memory.\<close>

definition inituvm :: "uint \<Rightarrow> uint \<Rightarrow> uint \<Rightarrow> vst \<Rightarrow> vst kres" where
  "inituvm pgdir init sz st =
    (if sz \<ge> PGSIZE then Panic ''inituvm: more than a page''
     else
       (let (mem, st) = kalloc st;
            st = st\<lparr>ram := memset mem 0 PGSIZE (ram st)\<rparr>
        in kbind (mappages pgdir 0 PGSIZE (V2P mem) (PTE_W OR PTE_U) st) (\<lambda>(_, st).
           Ok (st\<lparr>ram := memmove mem init sz (ram st)\<rparr>))))"

text \<open>\<open>loaduvm\<close>; \<open>readi\<close> reads the file into memory and returns the number of bytes read, or -1.\<close>

partial_function (option) loaduvm_loop ::
  "(uint \<Rightarrow> uint \<Rightarrow> uint \<Rightarrow> vst \<Rightarrow> int \<times> vst) \<Rightarrow> uint \<Rightarrow> uint \<Rightarrow> uint \<Rightarrow> uint \<Rightarrow> uint \<Rightarrow> vst \<Rightarrow> (int \<times> vst) kres option" where
  "loaduvm_loop readi pgdir addr off sz i st =
    (if i < sz then
       let pte = fst (walkpgdir pgdir (addr + i) False st) in
       if pte = 0 then Some (Panic ''loaduvm: address should exist'')
       else
         let pa = PTE_ADDR (get32 (ram st) pte);
             n = (if sz - i < PGSIZE then sz - i else PGSIZE);
             r = readi (P2V pa) (off + i) n st
         in if fst r \<noteq> uint n then Some (Ok (-1, snd r))
            else loaduvm_loop readi pgdir addr off sz (i + PGSIZE) (snd r)
     else Some (Ok (0, st)))"

definition loaduvm ::
  "(uint \<Rightarrow> uint \<Rightarrow> uint \<Rightarrow> vst \<Rightarrow> int \<times> vst) \<Rightarrow> uint \<Rightarrow> uint \<Rightarrow> uint \<Rightarrow> uint \<Rightarrow> vst \<Rightarrow> (int \<times> vst) kres" where
  "loaduvm readi pgdir addr off sz st =
    (if addr mod PGSIZE \<noteq> 0 then Panic ''loaduvm: addr must be page aligned''
     else run_loop (loaduvm_loop readi pgdir addr off sz 0 st))"

text \<open>How the loop of \<open>allocuvm\<close> ends: done, no page, or no page table for the page taken.\<close>

datatype allocend = AllocDone | NoPage | NoTable uint

partial_function (option) allocuvm_loop :: "uint \<Rightarrow> uint \<Rightarrow> uint \<Rightarrow> vst \<Rightarrow> (allocend \<times> vst) kres option" where
  "allocuvm_loop pgdir a newsz st =
    (if a < newsz then
       let mem = fst (kalloc st); st1 = snd (kalloc st) in
       if mem = 0 then Some (Ok (NoPage, st1))
       else
         case mappages pgdir a PGSIZE (V2P mem) (PTE_W OR PTE_U) (st1\<lparr>ram := memset mem 0 PGSIZE (ram st1)\<rparr>) of
           Ok r \<Rightarrow> if fst r < 0 then Some (Ok (NoTable mem, snd r)) else allocuvm_loop pgdir (a + PGSIZE) newsz (snd r)
         | Panic s \<Rightarrow> Some (Panic s) | Sleeps \<Rightarrow> Some Sleeps | Diverges \<Rightarrow> Some Diverges | Undefined \<Rightarrow> Some Undefined
     else Some (Ok (AllocDone, st)))"

definition allocuvm :: "uint \<Rightarrow> uint \<Rightarrow> uint \<Rightarrow> uint \<Rightarrow> vst \<Rightarrow> (uint \<times> vst) kres" where
  "allocuvm kend pgdir oldsz newsz st =
    (if newsz \<ge> KERNBASE then Ok (0, st)
     else if newsz < oldsz then Ok (oldsz, st)
     else
       kbind (run_loop (allocuvm_loop pgdir (PGROUNDUP oldsz) newsz st)) (\<lambda>(e, st).
       case e of
         AllocDone \<Rightarrow> Ok (newsz, st)
       | NoPage \<Rightarrow> kbind (deallocuvm kend pgdir newsz oldsz st) (\<lambda>(_, st). Ok (0, st))
       | NoTable mem \<Rightarrow>
           kbind (deallocuvm kend pgdir newsz oldsz st) (\<lambda>(_, st). kbind (kfree kend mem st) (\<lambda>st. Ok (0, st)))))"

definition clearpteu :: "uint \<Rightarrow> uint \<Rightarrow> vst \<Rightarrow> vst kres" where
  "clearpteu pgdir uva st =
    (let pte = fst (walkpgdir pgdir uva False st) in
     if pte = 0 then Panic ''clearpteu''
     else Ok (st\<lparr>ram := put32 pte (get32 (ram st) pte AND NOT PTE_U) (ram st)\<rparr>))"

text \<open>The loop of \<open>copyuvm\<close> into the directory \<open>d\<close>; false when it goes to \<open>bad\<close>.\<close>

partial_function (option) copyuvm_loop ::
  "uint \<Rightarrow> uint \<Rightarrow> uint \<Rightarrow> uint \<Rightarrow> uint \<Rightarrow> vst \<Rightarrow> (bool \<times> vst) kres option" where
  "copyuvm_loop kend d pgdir sz i st =
    (if i < sz then
       let pte = fst (walkpgdir pgdir i False st) in
       if pte = 0 then Some (Panic ''copyuvm: pte should exist'')
       else if get32 (ram st) pte AND PTE_P = 0 then Some (Panic ''copyuvm: page not present'')
       else
         let pa = PTE_ADDR (get32 (ram st) pte);
             flags = PTE_FLAGS (get32 (ram st) pte);
             mem = fst (kalloc st); st1 = snd (kalloc st)
         in if mem = 0 then Some (Ok (False, st1))
            else
              case mappages d i PGSIZE (V2P mem) flags (st1\<lparr>ram := memmove mem (P2V pa) PGSIZE (ram st1)\<rparr>) of
                Ok r \<Rightarrow>
                  if fst r < 0 then Some (kbind (kfree kend mem (snd r)) (\<lambda>st. Ok (False, st)))
                  else copyuvm_loop kend d pgdir sz (i + PGSIZE) (snd r)
              | Panic s \<Rightarrow> Some (Panic s) | Sleeps \<Rightarrow> Some Sleeps | Diverges \<Rightarrow> Some Diverges | Undefined \<Rightarrow> Some Undefined
     else Some (Ok (True, st)))"

definition copyuvm :: "uint \<Rightarrow> uint \<Rightarrow> uint \<Rightarrow> uint \<Rightarrow> vst \<Rightarrow> (uint \<times> vst) kres" where
  "copyuvm kend kdata pgdir sz st =
    kbind (setupkvm kend kdata st) (\<lambda>(d, st).
    if d = 0 then Ok (0, st)
    else
      kbind (run_loop (copyuvm_loop kend d pgdir sz 0 st)) (\<lambda>(ok, st).
      if ok then Ok (d, st) else kbind (freevm kend d st) (\<lambda>st. Ok (0, st))))"

text \<open>\<open>uva2ka\<close> reads through the result of \<open>walkpgdir\<close> without a test for none.\<close>

definition uva2ka :: "uint \<Rightarrow> uint \<Rightarrow> vst \<Rightarrow> uint kres" where
  "uva2ka pgdir uva st =
    (let pte = fst (walkpgdir pgdir uva False st); e = get32 (ram st) pte in
     if pte = 0 then Undefined
     else if e AND PTE_P = 0 then Ok 0
     else if e AND PTE_U = 0 then Ok 0
     else Ok (P2V (PTE_ADDR e)))"

definition page_rest :: "uint \<Rightarrow> uint \<Rightarrow> uint" where
  "page_rest va len = (let n = PGSIZE - (va - PGROUNDDOWN va) in if n > len then len else n)"

lemma page_rest_pos:
  assumes "0 < len"
  shows "0 < page_rest va len" "page_rest va len \<le> len"
proof -
  have "va - PGROUNDDOWN va = va mod 4096" by (simp add: PGROUNDDOWN_eq)
  moreover have "unat (va mod 4096) < 4096" by (simp add: unat_mod)
  ultimately have "unat (va - PGROUNDDOWN va) < 4096" by simp
  then have "0 < PGSIZE - (va - PGROUNDDOWN va)" unfolding PGSIZE_def by unat_arith
  then show "0 < page_rest va len" "page_rest va len \<le> len" using assms by (auto simp: page_rest_def Let_def)
qed

text \<open>The loop of \<open>copyout\<close>.\<close>

function copyout :: "uint \<Rightarrow> uint \<Rightarrow> uint \<Rightarrow> uint \<Rightarrow> vst \<Rightarrow> (int \<times> vst) kres" where
  "copyout pgdir va buf len st =
    (if len > 0 then
       let va0 = PGROUNDDOWN va in
       kbind (uva2ka pgdir va0 st) (\<lambda>pa0.
       if pa0 = 0 then Ok (-1, st)
       else
         let n = page_rest va len in
         copyout pgdir (va0 + PGSIZE) (buf + n) (len - n) (st\<lparr>ram := memmove (pa0 + (va - va0)) buf n (ram st)\<rparr>))
     else Ok (0, st))"
  by pat_completeness auto
termination
proof (relation "measure (\<lambda>(pgdir, va, buf, len, st). unat len)", simp)
  fix pgdir va buf len :: uint and st :: vst and va0 pa0 n
  assume "0 < len" "n = page_rest va len"
  then have "unat (len - n) < unat len" using page_rest_pos [of len va] by unat_arith
  then show "((pgdir, va0 + PGSIZE, buf + n, len - n, st\<lparr>ram := memmove (pa0 + (va - va0)) buf n (ram st)\<rparr>), pgdir, va, buf, len, st)
      \<in> measure (\<lambda>(pgdir, va, buf, len, st). unat len)" by simp
qed

declare copyout.simps [simp del]

section \<open>Growing a process\<close>

text \<open>\<open>growproc\<close> on the directory and size of the current process; loading the hardware registers is not modelled.\<close>

definition growproc :: "uint \<Rightarrow> int \<Rightarrow> uint \<Rightarrow> uint \<Rightarrow> vst \<Rightarrow> (int \<times> uint \<times> vst) kres" where
  "growproc kend n pgdir sz st =
    (if n > 0 then
       kbind (allocuvm kend pgdir sz (sz + of_int n) st) (\<lambda>(r, st). if r = 0 then Ok (-1, sz, st) else Ok (0, r, st))
     else if n < 0 then
       kbind (deallocuvm kend pgdir sz (sz + of_int n) st) (\<lambda>(r, st). if r = 0 then Ok (-1, sz, st) else Ok (0, r, st))
     else Ok (0, sz, st))"

text \<open>\<open>sys_sbrk\<close> as it is in lab 3 and, with lazy allocation, in lab 4, after the argument \<open>n\<close> is fetched.\<close>

definition sys_sbrk3 :: "uint \<Rightarrow> int \<Rightarrow> uint \<Rightarrow> uint \<Rightarrow> vst \<Rightarrow> (int \<times> uint \<times> vst) kres" where
  "sys_sbrk3 kend n pgdir sz st =
    kbind (growproc kend n pgdir sz st) (\<lambda>(r, sz', st). Ok (if r < 0 then -1 else sint sz, sz', st))"

definition sys_sbrk :: "int \<Rightarrow> uint \<Rightarrow> int \<times> uint" where
  "sys_sbrk n sz = (sint sz, sz + of_int n)"

text \<open>The page-fault part of \<open>trap\<close>, for a fault in user mode at the address \<open>cr2\<close>.\<close>

definition trap_pgflt :: "uint \<Rightarrow> uint \<Rightarrow> uint \<Rightarrow> vst \<Rightarrow> vst kres" where
  "trap_pgflt kend pgdir cr2 st =
    (let a = PGROUNDDOWN cr2; (mem, st) = kalloc st in
     if mem = 0 then Ok st
     else
       (let st = st\<lparr>ram := memset mem 0 PGSIZE (ram st)\<rparr> in
        kbind (mappages pgdir a PGSIZE (V2P mem) (PTE_W OR PTE_U) st) (\<lambda>(r, st).
        if r < 0 then kfree kend mem st else Ok st)))"

end
