(* ===== verification/Xv6_Vm_Props.thy ===== *)
theory Xv6_Vm_Props
  imports Xv6_Vm
begin

unbundle bit_operations_syntax

text \<open>The page allocator as a stack of pages, and page tables as maps from pages to entries.\<close>

section \<open>Words and pages in memory\<close>

abbreviation aligned :: "uint \<Rightarrow> bool" where "aligned p \<equiv> p mod 4096 = 0"

lemma unat_mod4: "(a :: uint) mod 4 = 0 \<longleftrightarrow> unat a mod 4 = 0"
  by (simp add: word_unat_eq_iff unat_mod)

lemma aligned_nat: "aligned p \<longleftrightarrow> unat p mod 4096 = 0"
  by (simp add: word_unat_eq_iff unat_mod)

lemma aligned_room:
  assumes "aligned p"
  shows "unat p + 4096 \<le> 4294967296"
proof -
  have "unat p mod 4096 = 0" using assms unfolding aligned_nat .
  then obtain k where k: "unat p = 4096 * k" by (auto simp: mod_eq_0_iff_dvd elim: dvdE)
  have "4096 * k < 4294967296" using unat_uint_less [of p] unfolding k .
  then have "k < 1048576" by simp
  then show ?thesis unfolding k by simp
qed

lemma unat_page: "unat (PGROUNDDOWN a) = unat a - unat a mod 4096"
  unfolding PGROUNDDOWN_eq by (subst unat_sub_u32) (auto simp: word_le_nat_alt unat_mod)

lemma page_aligned [simp]: "aligned (PGROUNDDOWN a)"
  unfolding aligned_nat unat_page by (simp add: minus_mod_eq_div_mult)

lemma page_eq_iff: "PGROUNDDOWN a = PGROUNDDOWN b \<longleftrightarrow> unat a div 4096 = unat b div 4096"
  unfolding word_unat_eq_iff unat_page by (simp add: minus_mod_eq_div_mult)

lemma page_of_aligned: "aligned p \<Longrightarrow> PGROUNDDOWN p = p"
  by (simp add: PGROUNDDOWN_eq)

lemma page_iff_offset:
  assumes "aligned p"
  shows "x - p < 4096 \<longleftrightarrow> PGROUNDDOWN x = p"
proof
  assume "PGROUNDDOWN x = p"
  then have "x - p = x - (x - x mod 4096)" by (simp only: PGROUNDDOWN_eq)
  then have "x - p = x mod 4096" by simp
  then show "x - p < 4096" by (simp add: word_less_nat_alt unat_mod)
next
  assume a: "x - p < 4096"
  let ?d = "unat (x - p)"
  have d: "?d < 4096" using a by (simp add: word_less_nat_alt)
  have p: "unat p mod 4096 = 0" using assms unfolding aligned_nat .
  have le: "unat p + 4096 \<le> 4294967296" by (rule aligned_room [OF assms])
  have "unat x = unat (p + (x - p))" by simp
  also have "\<dots> = unat p + ?d" by (subst unat_add_u32) (use d le in auto)
  finally have "unat x = unat p + ?d" .
  moreover obtain k where "unat p = 4096 * k" using p by (auto simp: mod_eq_0_iff_dvd elim: dvdE)
  ultimately show "PGROUNDDOWN x = p" unfolding word_unat_eq_iff unat_page using d by simp
qed

lemma unat_word4:
  fixes b :: uint
  assumes "b mod 4 = 0"
  shows "unat (b + 1) = unat b + 1" "unat (b + 2) = unat b + 2" "unat (b + 3) = unat b + 3"
proof -
  have b: "unat b mod 4 = 0" using assms unfolding unat_mod4 .
  obtain k where k: "unat b = 4 * k" using b by (auto simp: mod_eq_0_iff_dvd elim: dvdE)
  have "4 * k < 4294967296" using unat_uint_less [of b] unfolding k .
  then have "k < 1073741824" by simp
  then have "unat b + 3 < 4294967296" unfolding k by simp
  then show "unat (b + 1) = unat b + 1" "unat (b + 2) = unat b + 2" "unat (b + 3) = unat b + 3"
    by (simp_all add: unat_add_u32)
qed

lemma word4_page:
  fixes b :: uint
  assumes "b mod 4 = 0"
  shows "PGROUNDDOWN (b + 1) = PGROUNDDOWN b" "PGROUNDDOWN (b + 2) = PGROUNDDOWN b" "PGROUNDDOWN (b + 3) = PGROUNDDOWN b"
proof -
  have "unat b mod 4 = 0" using assms unfolding unat_mod4 .
  then obtain k where k: "unat b = 4 * k" by (auto simp: mod_eq_0_iff_dvd elim: dvdE)
  have d: "(4 * k + j) div 4096 = k div 1024" if "j < 4" for j :: nat
    using div_mult2_eq [of "4 * k + j" 4 1024] that by simp
  show "PGROUNDDOWN (b + 1) = PGROUNDDOWN b" "PGROUNDDOWN (b + 2) = PGROUNDDOWN b" "PGROUNDDOWN (b + 3) = PGROUNDDOWN b"
    unfolding page_eq_iff unat_word4 [OF assms] k using d [of 1] d [of 2] d [of 3] d [of 0] by simp_all
qed

lemma get32_cong:
  assumes "b mod 4 = 0" "\<And>x. PGROUNDDOWN x = PGROUNDDOWN b \<Longrightarrow> m x = m' x"
  shows "get32 m b = get32 m' b"
  using assms(2) [of b] assms(2) [of "b + 1"] assms(2) [of "b + 2"] assms(2) [of "b + 3"] word4_page [OF assms(1)]
  by (simp add: get32_def)

lemma put32_outside:
  assumes "a mod 4 = 0" "PGROUNDDOWN x \<noteq> PGROUNDDOWN a"
  shows "put32 a v m x = m x"
  using assms word4_page [OF assms(1)] by (auto simp: put32_def)

lemma get_put32:
  assumes "a mod 4 = 0" "b mod 4 = 0"
  shows "get32 (put32 a v m) b = (if a = b then v else get32 m b)"
proof (cases "a = b")
  case True
  have ne: "a + 1 \<noteq> a" "a + 2 \<noteq> a" "a + 3 \<noteq> a" "a + 1 \<noteq> a + 2" "a + 1 \<noteq> a + 3" "a + 2 \<noteq> a + 3"
    by (simp_all add: word_unat_eq_iff unat_word4 [OF assms(1)])
  have "[enc_u32 v ! 0, enc_u32 v ! 1, enc_u32 v ! 2, enc_u32 v ! 3] = enc_u32 v"
    by (rule nth_equalityI) (auto simp: less_Suc_eq numeral_eq_Suc)
  then show ?thesis using True ne dec_enc_u32 [of v] by (simp add: get32_def put32_def)
next
  case False
  have ab: "unat a mod 4 = 0" "unat b mod 4 = 0" using assms unfolding unat_mod4 .
  have ne: "unat a \<noteq> unat b" using False unfolding word_unat_eq_iff .
  have off: "unat x \<noteq> unat a \<and> unat x \<noteq> unat a + 1 \<and> unat x \<noteq> unat a + 2 \<and> unat x \<noteq> unat a + 3"
    if "unat x = unat b \<or> unat x = unat b + 1 \<or> unat x = unat b + 2 \<or> unat x = unat b + 3" for x :: uint
    using ab ne that by presburger
  have "put32 a v m x = m x"
    if "unat x = unat b \<or> unat x = unat b + 1 \<or> unat x = unat b + 2 \<or> unat x = unat b + 3" for x
    using off [OF that] by (simp add: put32_def word_unat_eq_iff unat_word4 [OF assms(1)])
  then show ?thesis using False by (simp add: get32_def unat_word4 [OF assms(2)])
qed

lemma memset_page:
  assumes "aligned p"
  shows "memset p c PGSIZE m x = (if PGROUNDDOWN x = p then ucast c else m x)"
  using page_iff_offset [OF assms, of x] by (simp add: memset_eq PGSIZE_def)

lemma get32_memset0:
  assumes "aligned p" "b mod 4 = 0"
  shows "get32 (memset p 0 PGSIZE m) b = (if PGROUNDDOWN b = p then 0 else get32 m b)"
  using word4_page [OF assms(2)]
  by (simp add: get32_def memset_page [OF assms(1)] dec_u32_def)

lemma slot4:
  assumes "aligned p" "i < 1024"
  shows "(p + 4 * i) mod 4 = 0" "PGROUNDDOWN (p + 4 * i) = p" "unat (p + 4 * i) = unat p + 4 * unat i"
proof -
  have p: "unat p mod 4096 = 0" using assms(1) unfolding aligned_nat .
  have le: "unat p + 4096 \<le> 4294967296" by (rule aligned_room [OF assms(1)])
  have i: "unat i < 1024" using assms(2) by (simp add: word_less_nat_alt)
  have "unat (4 * i) = 4 * unat i" using i by (simp add: unat_word_ariths)
  then show u: "unat (p + 4 * i) = unat p + 4 * unat i"
    by (subst unat_add_u32) (use i le in auto)
  obtain k where k: "unat p = 4096 * k" using p by (auto simp: mod_eq_0_iff_dvd elim: dvdE)
  have "unat p + 4 * unat i = 4 * (1024 * k + unat i)" using k by simp
  then show "(p + 4 * i) mod 4 = 0" unfolding unat_mod4 u by (simp only: mod_mult_self1_is_0)
  have "(unat p + 4 * unat i) div 4096 = unat p div 4096" using k i by simp
  then have "PGROUNDDOWN (p + 4 * i) = PGROUNDDOWN p" by (simp add: page_eq_iff u)
  then show "PGROUNDDOWN (p + 4 * i) = p" using page_of_aligned [OF assms(1)] by simp
qed

lemma slot_inj:
  assumes "aligned p" "aligned q" "i < 1024" "j < 1024"
  shows "p + 4 * i = q + 4 * j \<longleftrightarrow> p = q \<and> i = j"
proof
  assume eq: "p + 4 * i = q + 4 * j"
  then have "p = q" using slot4(2) [OF assms(1,3)] slot4(2) [OF assms(2,4)] by metis
  moreover have "unat i = unat j" using eq slot4(3) [OF assms(1,3)] slot4(3) [OF assms(2,4)] \<open>p = q\<close> by simp
  ultimately show "p = q \<and> i = j" by (simp add: word_unat_eq_iff)
qed simp

lemma get_put_slot:
  "aligned p \<Longrightarrow> aligned q \<Longrightarrow> i < 1024 \<Longrightarrow> j < 1024 \<Longrightarrow>
    get32 (put32 (p + 4 * i) v m) (q + 4 * j) = (if p = q \<and> i = j then v else get32 m (q + 4 * j))"
  by (simp add: get_put32 slot4(1) slot_inj)

lemma get_memset_slot:
  "aligned p \<Longrightarrow> aligned q \<Longrightarrow> j < 1024 \<Longrightarrow>
    get32 (memset p 0 PGSIZE m) (q + 4 * j) = (if q = p then 0 else get32 m (q + 4 * j))"
  by (simp add: get32_memset0 slot4)

lemma low10: "(a :: uint) AND 1023 = a mod 1024"
  using and_mask [of a 10] by (simp add: mask_eq_exp_minus_1)

lemma unat_PTX: "unat (PTX va) = unat va div 4096 mod 1024"
  by (simp add: PTX_def low10 drop_bit_eq_div unat_div unat_mod)

lemma unat_PDX: "unat (PDX va) = unat va div 4194304"
proof -
  have "unat va < 4294967296" by simp
  then have "unat va div 4194304 < 1024" by (simp add: less_mult_imp_div_less)
  then show ?thesis by (simp add: PDX_def low10 drop_bit_eq_div unat_div unat_mod)
qed

lemma PTX_less [simp]: "PTX va < 1024"
  by (simp add: word_less_nat_alt unat_PTX)

lemma PDX_less [simp]: "PDX va < 1024"
proof -
  have "unat va < 4294967296" by simp
  then show ?thesis by (simp add: word_less_nat_alt unat_PDX less_mult_imp_div_less)
qed

lemma same_page_iff: "PGROUNDDOWN a = PGROUNDDOWN b \<longleftrightarrow> PDX a = PDX b \<and> PTX a = PTX b"
proof -
  have d: "unat x div 4194304 = unat x div 4096 div 1024" for x :: uint by (simp add: div_mult2_eq [symmetric])
  show ?thesis unfolding page_eq_iff word_unat_eq_iff [of "PDX a"] word_unat_eq_iff [of "PTX a"] unat_PDX unat_PTX d
    by (metis div_mult_mod_eq)
qed

lemma PTE_ADDR_eq: "PTE_ADDR e = e - e mod 4096"
  using round12 [of e] by (simp add: PTE_ADDR_def)

lemma P2V_V2P [simp]: "P2V (V2P a) = a" by (simp add: P2V_def V2P_def)

lemma table_aligned [simp]: "aligned (P2V (PTE_ADDR e))"
proof -
  have "aligned (PTE_ADDR e)" using page_aligned [of e] by (simp add: PTE_ADDR_eq PGROUNDDOWN_eq)
  then have "unat (PTE_ADDR e) mod 4096 = 0" unfolding aligned_nat .
  then obtain k where k: "unat (PTE_ADDR e) = 4096 * k" by (auto simp: mod_eq_0_iff_dvd elim: dvdE)
  have "unat (P2V (PTE_ADDR e)) = (4096 * k + 2147483648) mod 4294967296"
    by (simp add: P2V_def KERNBASE_def unat_word_ariths k)
  also have "\<dots> mod 4096 = (4096 * k + 2147483648) mod 4096" by (rule mod_mod_cancel) simp
  finally show ?thesis unfolding aligned_nat by simp
qed

section \<open>The free list\<close>

fun free_list :: "mem \<Rightarrow> uint \<Rightarrow> uint list \<Rightarrow> bool" where
  "free_list m p [] \<longleftrightarrow> p = 0"
| "free_list m p (x # xs) \<longleftrightarrow> p = x \<and> free_list m (get32 m x) xs"

definition free_ok :: "vst \<Rightarrow> uint list \<Rightarrow> bool" where
  "free_ok st xs \<longleftrightarrow> free_list (ram st) (freelist st) xs \<and> distinct xs \<and> (\<forall>x \<in> set xs. aligned x \<and> x \<noteq> 0)"

lemma free_list_cong: "(\<And>x. x \<in> set xs \<Longrightarrow> get32 m' x = get32 m x) \<Longrightarrow> free_list m' p xs = free_list m p xs"
  by (induction xs arbitrary: p) auto

lemma aligned4: "aligned x \<Longrightarrow> x mod 4 = 0"
  using slot4(1) [of x 0] by simp

lemma free_ok_outside:
  assumes "free_ok st xs" "\<And>a. PGROUNDDOWN a \<in> set xs \<Longrightarrow> m a = ram st a"
  shows "free_ok (st\<lparr>ram := m\<rparr>) xs"
proof -
  have "get32 m x = get32 (ram st) x" if "x \<in> set xs" for x
    using assms that by (intro get32_cong) (auto simp: free_ok_def aligned4 page_of_aligned)
  then have "free_list m (freelist st) xs = free_list (ram st) (freelist st) xs" by (rule free_list_cong)
  then show ?thesis using assms(1) by (simp add: free_ok_def)
qed

lemma kalloc_empty: "free_ok st [] \<Longrightarrow> kalloc st = (0, st)"
  by (simp add: free_ok_def kalloc_def)

lemma kalloc_pop:
  assumes "free_ok st (x # xs)"
  shows "kalloc st = (x, st\<lparr>freelist := get32 (ram st) x\<rparr>)" "free_ok (st\<lparr>freelist := get32 (ram st) x\<rparr>) xs"
  using assms by (auto simp: free_ok_def kalloc_def)

section \<open>Page tables\<close>

definition present :: "mem \<Rightarrow> uint \<Rightarrow> uint \<Rightarrow> bool" where
  "present m d i \<longleftrightarrow> get32 m (d + 4 * i) AND PTE_P \<noteq> 0"

definition tab :: "mem \<Rightarrow> uint \<Rightarrow> uint \<Rightarrow> uint" where
  "tab m d i = P2V (PTE_ADDR (get32 m (d + 4 * i)))"

text \<open>The page table entry of an address, if the page is mapped.\<close>

definition translate :: "mem \<Rightarrow> uint \<Rightarrow> uint \<Rightarrow> uint option" where
  "translate m d va =
    (if present m d (PDX va) then
       let e = get32 m (tab m d (PDX va) + 4 * PTX va) in if e AND PTE_P \<noteq> 0 then Some e else None
     else None)"

text \<open>The pages of a directory: it and its tables. They are apart from each other and from free pages.\<close>

definition pages_of :: "mem \<Rightarrow> uint \<Rightarrow> uint set" where
  "pages_of m d = insert d {tab m d i | i. i < 1024 \<and> present m d i}"

definition dir_ok :: "mem \<Rightarrow> uint \<Rightarrow> uint set \<Rightarrow> bool" where
  "dir_ok m d F \<longleftrightarrow>
    aligned d \<and> d \<notin> F \<and>
    (\<forall>i < 1024. present m d i \<longrightarrow> tab m d i \<noteq> 0 \<and> tab m d i \<noteq> d \<and> tab m d i \<notin> F) \<and>
    (\<forall>i < 1024. \<forall>j < 1024. present m d i \<longrightarrow> present m d j \<longrightarrow> tab m d i = tab m d j \<longrightarrow> i = j)"

lemma dir_okD:
  assumes "dir_ok m d F"
  shows "aligned d" "d \<notin> F" "i < 1024 \<Longrightarrow> present m d i \<Longrightarrow> tab m d i \<noteq> 0 \<and> tab m d i \<noteq> d \<and> tab m d i \<notin> F"
    "i < 1024 \<Longrightarrow> j < 1024 \<Longrightarrow> present m d i \<Longrightarrow> present m d j \<Longrightarrow> tab m d i = tab m d j \<Longrightarrow> i = j"
  using assms unfolding dir_ok_def by blast+

lemma tab_aligned [simp]: "aligned (tab m d i)"
  unfolding tab_def by (rule table_aligned)

lemma dir_ok_cong:
  assumes "dir_ok m d F" "G \<subseteq> F" "\<And>i. i < 1024 \<Longrightarrow> get32 m' (d + 4 * i) = get32 m (d + 4 * i)"
  shows "dir_ok m' d G" "pages_of m' d = pages_of m d"
proof -
  have e: "present m' d i = present m d i" "tab m' d i = tab m d i" if "i < 1024" for i
    using assms(3) [OF that] by (simp_all add: present_def tab_def)
  show "dir_ok m' d G" using assms(1,2) e unfolding dir_ok_def by (metis subsetD)
  have "{tab m' d i | i. i < 1024 \<and> present m' d i} = {tab m d i | i. i < 1024 \<and> present m d i}"
    by (rule Collect_cong) (metis e)
  then show "pages_of m' d = pages_of m d" unfolding pages_of_def by simp
qed

text \<open>An entry made of an aligned address and flags.\<close>

lemma entry_flags:
  fixes a f :: uint
  assumes "aligned a" "f < 4096"
  shows "PTE_ADDR (a OR f) = a"
proof -
  have "f mod 4096 = f" using assms(2) by (simp add: word_unat_eq_iff unat_mod word_less_nat_alt)
  then have f: "f AND NOT 4095 = 0" using round12 [of f] by simp
  have "(a OR f) AND NOT 4095 = (a AND NOT 4095) OR (f AND NOT 4095)" by (rule bit_eqI) (auto simp: bit_simps)
  also have "\<dots> = a" using round12 [of a] f assms(1) by simp
  finally show ?thesis by (simp add: PTE_ADDR_def)
qed

lemma V2P_aligned: "aligned a \<Longrightarrow> aligned (V2P a)"
proof -
  assume a: "aligned a"
  then have "unat a mod 4096 = 0" unfolding aligned_nat .
  then obtain k where k: "unat a = 4096 * k" by (auto simp: mod_eq_0_iff_dvd elim: dvdE)
  have "V2P a = a + 0x80000000" by (simp add: V2P_def KERNBASE_def)
  then have "unat (V2P a) = (4096 * k + 2147483648) mod 4294967296" by (simp add: unat_word_ariths k)
  also have "\<dots> mod 4096 = (4096 * k + 2147483648) mod 4096" by (rule mod_mod_cancel) simp
  finally show ?thesis unfolding aligned_nat by simp
qed

lemma present_bit: "(a OR b OR PTE_P) AND PTE_P \<noteq> 0"
proof -
  have "bit ((a OR b OR PTE_P) AND PTE_P) 0" by (simp add: PTE_P_def bit_simps)
  then show ?thesis by (metis bit_0_eq zero_neq_one bot_apply bot_bool_def bit_0)
qed

text \<open>Writing an entry of a table of the directory changes the translation of one page.\<close>

lemma put_entry:
  assumes ok: "dir_ok m d F" and p: "present m d (PDX va)" and v: "v AND PTE_P \<noteq> 0"
  defines "q \<equiv> tab m d (PDX va)"
  defines "m' \<equiv> put32 (q + 4 * PTX va) v m"
  shows "dir_ok m' d F" "pages_of m' d = pages_of m d"
    "translate m' d x = (if PGROUNDDOWN x = PGROUNDDOWN va then Some v else translate m d x)"
proof -
  have q: "aligned q" "q \<noteq> d" using dir_okD(3) [OF ok PDX_less p] by (simp_all add: q_def)
  have dir: "get32 m' (d + 4 * i) = get32 m (d + 4 * i)" if "i < 1024" for i
    unfolding m'_def using get_put_slot [OF q(1) dir_okD(1) [OF ok] PTX_less that] q(2) by simp
  show "dir_ok m' d F" "pages_of m' d = pages_of m d" by (rule dir_ok_cong [OF ok subset_refl dir], assumption)+
  have e: "present m' d i = present m d i" "tab m' d i = tab m d i" if "i < 1024" for i
    using dir [OF that] by (simp_all add: present_def tab_def)
  show "translate m' d x = (if PGROUNDDOWN x = PGROUNDDOWN va then Some v else translate m d x)"
  proof (cases "present m d (PDX x)")
    case True
    have "tab m d (PDX x) = q \<longleftrightarrow> PDX x = PDX va"
      unfolding q_def using dir_okD(4) [OF ok PDX_less PDX_less True p] by auto
    then have "get32 m' (tab m d (PDX x) + 4 * PTX x) =
        (if PGROUNDDOWN x = PGROUNDDOWN va then v else get32 m (tab m d (PDX x) + 4 * PTX x))"
      unfolding m'_def same_page_iff
      using get_put_slot [OF q(1) tab_aligned PTX_less PTX_less, of va v m m d "PDX x" x] by auto
    then show ?thesis using True e [of "PDX x"] v by (simp add: translate_def Let_def)
  next
    case False
    then have "PGROUNDDOWN x \<noteq> PGROUNDDOWN va" using p by (auto simp: same_page_iff)
    then show ?thesis using False e [of "PDX x"] by (simp add: translate_def)
  qed
qed

text \<open>\<open>walkpgdir\<close> with allocation: the directory has a table for the address, and nothing is mapped by that.\<close>

lemma walk_alloc:
  assumes ok: "dir_ok (ram st) d (set xs)" and f: "free_ok st xs" and room: "present (ram st) d (PDX va) \<or> xs \<noteq> []"
  obtains st' ys where "walkpgdir d va True st = (tab (ram st') d (PDX va) + 4 * PTX va, st')" "present (ram st') d (PDX va)"
    "dir_ok (ram st') d (set ys)" "free_ok st' ys" "translate (ram st') d = translate (ram st) d"
    "\<And>x. PGROUNDDOWN x \<notin> pages_of (ram st) d \<Longrightarrow> PGROUNDDOWN x \<notin> set xs \<Longrightarrow> ram st' x = ram st x"
    "set ys \<subseteq> set xs" "pages_of (ram st') d \<subseteq> pages_of (ram st) d \<union> (set xs - set ys)"
proof (cases "present (ram st) d (PDX va)")
  case True
  then have "walkpgdir d va True st = (tab (ram st) d (PDX va) + 4 * PTX va, st)"
    by (simp add: walkpgdir_def Let_def present_def tab_def)
  then show ?thesis using that [of st xs] True ok f by auto
next
  case False
  then obtain p ps where xs: "xs = p # ps" using room by (cases xs) auto
  note D = dir_okD [OF ok]
  define e where "e = V2P p OR PTE_P OR PTE_W OR PTE_U"
  define m where "m = put32 (d + 4 * PDX va) e (memset p 0 PGSIZE (ram st))"
  define st' where "st' = st\<lparr>freelist := get32 (ram st) p, ram := m\<rparr>"
  have p: "aligned p" "p \<noteq> 0" "p \<noteq> d" "p \<notin> set ps" using f D(2) xs by (auto simp: free_ok_def)
  have "e = V2P p OR 7" by (simp add: e_def PTE_P_def PTE_W_def PTE_U_def)
  then have ae: "P2V (PTE_ADDR e) = p" using entry_flags [OF V2P_aligned [OF p(1)], of 7] by simp
  have "e = (V2P p) OR (PTE_W OR PTE_U) OR PTE_P" by (simp add: e_def ac_simps)
  then have pe: "e AND PTE_P \<noteq> 0" using present_bit by metis
  have g: "get32 m (q + 4 * i) = (if q = d \<and> i = PDX va then e else if q = p then 0 else get32 (ram st) (q + 4 * i))"
    if "aligned q" "i < 1024" for q i
    unfolding m_def using get_put_slot [OF D(1) that(1) PDX_less that(2)] get_memset_slot [OF p(1) that] by auto
  have gd: "present m d i = (i = PDX va \<or> present (ram st) d i)" "tab m d i = (if i = PDX va then p else tab (ram st) d i)"
    if "i < 1024" for i
    using g [OF D(1) that] p(3) pe ae by (auto simp: present_def tab_def)
  have w: "walkpgdir d va True st = (tab m d (PDX va) + 4 * PTX va, st')"
    using False kalloc_pop(1) [OF f [unfolded xs]] p(2) gd(2) [OF PDX_less]
    by (simp add: walkpgdir_def Let_def present_def st'_def m_def e_def)
  have old: "present (ram st) d i \<and> tab m d i = tab (ram st) d i \<and> tab (ram st) d i \<noteq> p \<and> tab (ram st) d i \<noteq> 0 \<and>
      tab (ram st) d i \<noteq> d \<and> tab (ram st) d i \<notin> set ps"
    if "i < 1024" "present m d i" "i \<noteq> PDX va" for i
    using gd [OF that(1)] that D(3) [OF that(1)] unfolding xs by simp
  have new: "tab m d (PDX va) = p" using gd(2) [OF PDX_less] by simp
  have ok': "dir_ok m d (set ps)" unfolding dir_ok_def
  proof (intro conjI allI impI)
    fix i assume i: "i < 1024" "present m d i"
    show "tab m d i \<noteq> 0" "tab m d i \<noteq> d" "tab m d i \<notin> set ps"
      using old [OF i] new p by (cases "i = PDX va"; simp)+
    fix j assume j: "j < 1024" "present m d j" "tab m d i = tab m d j"
    consider "i = PDX va" "j = PDX va" | "i = PDX va" "j \<noteq> PDX va" | "i \<noteq> PDX va" "j = PDX va" | "i \<noteq> PDX va" "j \<noteq> PDX va"
      by blast
    then show "i = j"
    proof cases
      case 2
      then show ?thesis using old [OF j(1,2) 2(2)] new j(3) by metis
    next
      case 3
      then show ?thesis using old [OF i 3(1)] new j(3) by metis
    next
      case 4
      show ?thesis by (rule D(4) [OF i(1) j(1)]) (use old [OF i 4(1)] old [OF j(1,2) 4(2)] j(3) in simp_all)
    qed simp
  qed (use D(1,2) xs in simp_all)
  have tr: "translate m d x = translate (ram st) d x" for x
  proof (cases "PDX x = PDX va")
    case True
    then have "get32 m (tab m d (PDX x) + 4 * PTX x) = 0" using gd(2) [OF PDX_less, of x] g [OF p(1) PTX_less, of x] p(3) by simp
    then show ?thesis using False True by (simp add: translate_def Let_def)
  next
    case ne: False
    have "get32 m (tab (ram st) d (PDX x) + 4 * PTX x) = get32 (ram st) (tab (ram st) d (PDX x) + 4 * PTX x)"
      if "present (ram st) d (PDX x)"
      using g [OF tab_aligned PTX_less, of "ram st" d "PDX x" x] D(3) [OF PDX_less that] xs by simp
    then show ?thesis using gd [OF PDX_less, of x] ne by (simp add: translate_def Let_def)
  qed
  have out: "m a = ram st a" if "PGROUNDDOWN a \<noteq> d" "PGROUNDDOWN a \<noteq> p" for a
    unfolding m_def using that put32_outside [OF slot4(1) [OF D(1) PDX_less, of va], of a] slot4(2) [OF D(1) PDX_less, of va]
    by (simp add: memset_page [OF p(1)])
  have f': "free_ok st' ps"
  proof -
    have "m a = ram st a" if "PGROUNDDOWN a \<in> set ps" for a
      by (rule out) (use that D(2) p(4) xs in auto)
    then show ?thesis using free_ok_outside [OF kalloc_pop(2) [OF f [unfolded xs]], of m] by (simp add: st'_def)
  qed
  have pg: "pages_of m d \<subseteq> pages_of (ram st) d \<union> (set xs - set ps)"
  proof
    fix y assume "y \<in> pages_of m d"
    then consider "y = d" | i where "y = tab m d i" "i < 1024" "present m d i" unfolding pages_of_def by blast
    then show "y \<in> pages_of (ram st) d \<union> (set xs - set ps)"
    proof cases
      case (2 i)
      show ?thesis
      proof (cases "i = PDX va")
        case True
        then show ?thesis using 2(1) new p(4) xs by simp
      next
        case False
        then show ?thesis using 2 old [OF 2(2,3)] unfolding pages_of_def by auto
      qed
    qed (simp add: pages_of_def)
  qed
  show ?thesis
  proof (rule that [of st' ps])
    show "ram st' x = ram st x" if "PGROUNDDOWN x \<notin> pages_of (ram st) d" "PGROUNDDOWN x \<notin> set xs" for x
      using that out xs by (auto simp: st'_def pages_of_def)
  qed (use w gd(1) [OF PDX_less, of va] ok' f' tr pg xs in \<open>auto simp: st'_def\<close>)
qed

text \<open>One page mapped by \<open>mappages\<close>.\<close>

lemma map_page_ok:
  assumes ok: "dir_ok (ram st) d (set xs)" and f: "free_ok st xs" and room: "present (ram st) d (PDX va) \<or> xs \<noteq> []"
    and none: "translate (ram st) d va = None"
  obtains st' ys where "map_page d va pa perm st = Ok (True, st')" "dir_ok (ram st') d (set ys)" "free_ok st' ys" "set ys \<subseteq> set xs"
    "\<And>x. translate (ram st') d x = (if PGROUNDDOWN x = PGROUNDDOWN va then Some (pa OR perm OR PTE_P) else translate (ram st) d x)"
    "\<And>x. PGROUNDDOWN x \<notin> pages_of (ram st) d \<Longrightarrow> PGROUNDDOWN x \<notin> set xs \<Longrightarrow> ram st' x = ram st x"
    "pages_of (ram st') d \<subseteq> pages_of (ram st) d \<union> (set xs - set ys)"
proof -
  obtain st1 ys where w: "walkpgdir d va True st = (tab (ram st1) d (PDX va) + 4 * PTX va, st1)" "present (ram st1) d (PDX va)"
    "dir_ok (ram st1) d (set ys)" "free_ok st1 ys" "translate (ram st1) d = translate (ram st) d"
    "\<And>x. PGROUNDDOWN x \<notin> pages_of (ram st) d \<Longrightarrow> PGROUNDDOWN x \<notin> set xs \<Longrightarrow> ram st1 x = ram st x"
    "set ys \<subseteq> set xs" "pages_of (ram st1) d \<subseteq> pages_of (ram st) d \<union> (set xs - set ys)"
    by (rule walk_alloc [OF ok f room]) (rule that)
  let ?q = "tab (ram st1) d (PDX va)" and ?v = "pa OR perm OR PTE_P"
  define st' where "st' = st1\<lparr>ram := put32 (?q + 4 * PTX va) ?v (ram st1)\<rparr>"
  note q = dir_okD(3) [OF w(3) PDX_less w(2)]
  have "unat (?q + 4 * PTX va) = unat ?q + 4 * unat (PTX va)" by (rule slot4(3)) simp_all
  then have nz: "?q + 4 * PTX va \<noteq> 0" using q by (auto simp: word_unat_eq_iff)
  have np: "get32 (ram st1) (?q + 4 * PTX va) AND PTE_P = 0"
    using none w(2,5) by (auto simp: translate_def Let_def split: if_splits dest!: fun_cong [where x = va])
  have m: "map_page d va pa perm st = Ok (True, st')"
    using nz np by (simp add: map_page_def w(1) st'_def)
  note e = put_entry [OF w(3,2) present_bit [of pa perm]]
  have out: "ram st' x = ram st1 x" if "PGROUNDDOWN x \<noteq> ?q" for x
    using that put32_outside [of "?q + 4 * PTX va" x] slot4(1,2) [of ?q "PTX va"] by (simp add: st'_def)
  have "?q \<in> pages_of (ram st1) d" using w(2) by (auto simp: pages_of_def)
  then have q': "?q \<in> pages_of (ram st) d \<union> set xs" using w(8) by auto
  have "ram st' a = ram st1 a" if "PGROUNDDOWN a \<in> set ys" for a
    by (rule out) (use that q in metis)
  then have fo: "free_ok st' ys" using free_ok_outside [OF w(4), of "ram st'"] by (simp add: st'_def)
  show ?thesis
  proof (rule that [OF m _ fo w(7)])
    show "dir_ok (ram st') d (set ys)" using e(1) by (simp add: st'_def)
    show "translate (ram st') d x = (if PGROUNDDOWN x = PGROUNDDOWN va then Some ?v else translate (ram st) d x)" for x
      using e(3) [of x] w(5) by (simp add: st'_def)
    show "ram st' x = ram st x" if "PGROUNDDOWN x \<notin> pages_of (ram st) d" "PGROUNDDOWN x \<notin> set xs" for x
    proof -
      have "PGROUNDDOWN x \<noteq> ?q" using that q' by auto
      then show ?thesis using w(6) [OF that] out [of x] by simp
    qed
    show "pages_of (ram st') d \<subseteq> pages_of (ram st) d \<union> (set xs - set ys)" using e(2) w(8) by (simp add: st'_def)
  qed
qed

lemma map_page_present:
  assumes "dir_ok (ram st) d F" "translate (ram st) d va \<noteq> None"
  shows "map_page d va pa perm st = Panic ''remap''"
proof -
  let ?q = "tab (ram st) d (PDX va)"
  have p: "present (ram st) d (PDX va)" "get32 (ram st) (?q + 4 * PTX va) AND PTE_P \<noteq> 0"
    using assms(2) by (auto simp: translate_def Let_def split: if_splits)
  have "unat (?q + 4 * PTX va) = unat ?q + 4 * unat (PTX va)" by (rule slot4(3)) simp_all
  then have "?q + 4 * PTX va \<noteq> 0" using dir_okD(3) [OF assms(1) PDX_less p(1)] by (auto simp: word_unat_eq_iff)
  moreover have "walkpgdir d va True st = (?q + 4 * PTX va, st)" using p(1) by (simp add: walkpgdir_def Let_def present_def tab_def)
  ultimately show ?thesis using p(2) by (simp add: map_page_def)
qed

lemma mappages_one:
  assumes "aligned a"
  shows "mappages d a PGSIZE pa perm st = kbind (map_page d a pa perm st) (\<lambda>(ok, st). Ok (if ok then 0 else -1, st))"
proof -
  have "PGROUNDDOWN (a + 4095) = a" using page_iff_offset [OF assms, of "a + 4095"] by simp
  then have "PGROUNDDOWN (a + PGSIZE - 1) = a" by (simp add: PGSIZE_def add.commute)
  then show ?thesis by (simp add: mappages_def page_of_aligned [OF assms])
qed

lemma translate_page: "translate m d (PGROUNDDOWN x) = translate m d x"
  using same_page_iff [of "PGROUNDDOWN x" x] page_of_aligned [OF page_aligned, of x] by (simp add: translate_def)

text \<open>Clearing a page that is not one of the directory.\<close>

lemma clear_page:
  assumes "dir_ok m d (set (p # xs))" "aligned p"
  shows "dir_ok (memset p 0 PGSIZE m) d (set xs)" "pages_of (memset p 0 PGSIZE m) d = pages_of m d"
    "translate (memset p 0 PGSIZE m) d x = translate m d x"
proof -
  note D = dir_okD [OF assms(1)]
  have dir: "get32 (memset p 0 PGSIZE m) (d + 4 * i) = get32 m (d + 4 * i)" if "i < 1024" for i
    using get_memset_slot [OF assms(2) D(1) that] D(2) by auto
  show "dir_ok (memset p 0 PGSIZE m) d (set xs)" by (rule dir_ok_cong(1) [OF assms(1) _ dir]) auto
  show "pages_of (memset p 0 PGSIZE m) d = pages_of m d" by (rule dir_ok_cong(2) [OF assms(1) subset_refl dir])
  have e: "present (memset p 0 PGSIZE m) d i = present m d i" "tab (memset p 0 PGSIZE m) d i = tab m d i" if "i < 1024" for i
    using dir [OF that] by (simp_all add: present_def tab_def)
  show "translate (memset p 0 PGSIZE m) d x = translate m d x"
  proof (cases "present m d (PDX x)")
    case True
    then have "get32 (memset p 0 PGSIZE m) (tab m d (PDX x) + 4 * PTX x) = get32 m (tab m d (PDX x) + 4 * PTX x)"
      using get_memset_slot [OF assms(2) tab_aligned PTX_less] D(3) [OF PDX_less True] by auto
    then show ?thesis using e [OF PDX_less, of x] by (simp add: translate_def)
  qed (use e [OF PDX_less, of x] in \<open>simp add: translate_def\<close>)
qed

definition cleared :: "uint \<Rightarrow> vst \<Rightarrow> vst" where
  "cleared p st = st\<lparr>freelist := get32 (ram st) p, ram := memset p 0 PGSIZE (ram st)\<rparr>"

lemma cleared_ok:
  assumes "dir_ok (ram st) d (set (p # ps))" "free_ok st (p # ps)"
  shows "dir_ok (ram (cleared p st)) d (set ps)" "translate (ram (cleared p st)) d x = translate (ram st) d x"
    "pages_of (ram (cleared p st)) d = pages_of (ram st) d" "free_ok (cleared p st) ps"
    "i < 1024 \<Longrightarrow> present (ram (cleared p st)) d i = present (ram st) d i"
    "ram (cleared p st) y = (if PGROUNDDOWN y = p then 0 else ram st y)"
proof -
  have p: "aligned p" "p \<notin> set ps" using assms(2) by (auto simp: free_ok_def)
  note C = clear_page [OF assms(1) p(1)]
  show "dir_ok (ram (cleared p st)) d (set ps)" "translate (ram (cleared p st)) d x = translate (ram st) d x"
    "pages_of (ram (cleared p st)) d = pages_of (ram st) d" using C by (simp_all add: cleared_def)
  show "ram (cleared p st) y = (if PGROUNDDOWN y = p then 0 else ram st y)" by (simp add: cleared_def memset_page [OF p(1)])
  have "memset p 0 PGSIZE (ram st) a = ram st a" if "PGROUNDDOWN a \<in> set ps" for a
    using that p(2) by (auto simp: memset_page [OF p(1)])
  then show "free_ok (cleared p st) ps"
    using free_ok_outside [OF kalloc_pop(2) [OF assms(2)], of "memset p 0 PGSIZE (ram st)"] by (simp add: cleared_def)
  show "present (ram (cleared p st)) d i = present (ram st) d i" if "i < 1024"
    using get_memset_slot [OF p(1) dir_okD(1) [OF assms(1)] that, of "ram st"] dir_okD(2) [OF assms(1)]
    by (simp add: cleared_def present_def)
qed

lemma pgflt_taken:
  assumes "free_ok st (p # ps)"
  shows "trap_pgflt kend d cr2 st =
    kbind (kbind (map_page d (PGROUNDDOWN cr2) (V2P p) (PTE_W OR PTE_U) (cleared p st)) (\<lambda>(ok, st). Ok (if ok then 0 else -1, st)))
      (\<lambda>(r, st). if r < (0 :: int) then kfree kend p st else Ok st)"
  using kalloc_pop(1) [OF assms] assms by (simp add: trap_pgflt_def mappages_one Let_def free_ok_def cleared_def)

text \<open>Two free pages and an empty directory.\<close>

definition two_free :: vst where
  "two_free = \<lparr>ram = put32 0x80400000 0x80401000 (\<lambda>_. 0), freelist = 0x80400000, use_lock = True\<rparr>"

lemma two_free_ok:
  "dir_ok (ram two_free) 0x80402000 (set [0x80400000, 0x80401000])" "free_ok two_free [0x80400000, 0x80401000]"
  "translate (ram two_free) 0x80402000 va = None"
proof -
  have zero: "get32 (\<lambda>_. 0) a = 0" for a by (simp add: get32_def dec_u32_def)
  have g: "get32 (ram two_free) (q + 4 * i) = (if q = 0x80400000 \<and> i = 0 then 0x80401000 else 0)" if "aligned q" "i < 1024" for q i
    using get_put_slot [of "0x80400000" q 0 i "0x80401000" "\<lambda>_. 0"] that zero by (simp add: two_free_def)
  have np: "\<not> present (ram two_free) 0x80402000 i" if "i < 1024" for i using g [of "0x80402000" i] that by (simp add: present_def)
  then show "dir_ok (ram two_free) 0x80402000 (set [0x80400000, 0x80401000])" by (simp add: dir_ok_def)
  show "translate (ram two_free) 0x80402000 va = None" using np [OF PDX_less] by (simp add: translate_def)
  show "free_ok two_free [0x80400000, 0x80401000]"
    using g [of "0x80400000" 0] g [of "0x80401000" 0] by (simp add: free_ok_def) (simp add: two_free_def)
qed

section \<open>Properties\<close>

text \<open>
  C10: the page fault of lab 4. With free pages for the page and, if needed, for a page table, a fault at an
  address that is not mapped maps its page, writable by the user, to a page of zeros that was free; every
  other address is translated as before, the tables and the free list stay apart, and no other memory
  changes. Without a free page nothing changes, so the access faults again. A fault at a page that is
  mapped, such as a user access to the kernel, is a panic.
\<close>

theorem pgflt_maps:
  assumes "dir_ok (ram st) d (set xs)" "free_ok st xs"
  shows "(xs = [] \<longrightarrow> trap_pgflt kend d cr2 st = Ok st) \<and>
    (xs \<noteq> [] \<longrightarrow> translate (ram st) d cr2 \<noteq> None \<longrightarrow> trap_pgflt kend d cr2 st = Panic ''remap'') \<and>
    (\<forall>p ps. xs = p # ps \<longrightarrow> translate (ram st) d cr2 = None \<longrightarrow> present (ram st) d (PDX cr2) \<or> ps \<noteq> [] \<longrightarrow>
      (\<exists>st' ys. trap_pgflt kend d cr2 st = Ok st' \<and> dir_ok (ram st') d (set ys) \<and> free_ok st' ys \<and> set ys \<subseteq> set ps \<and>
        (\<forall>x. translate (ram st') d x =
          (if PGROUNDDOWN x = PGROUNDDOWN cr2 then Some (V2P p OR (PTE_W OR PTE_U) OR PTE_P) else translate (ram st) d x)) \<and>
        (\<forall>x. PGROUNDDOWN x = p \<longrightarrow> ram st' x = 0) \<and>
        (\<forall>x. PGROUNDDOWN x \<notin> pages_of (ram st) d \<longrightarrow> PGROUNDDOWN x \<notin> set xs \<longrightarrow> ram st' x = ram st x)))"
proof (intro conjI allI impI)
  show "trap_pgflt kend d cr2 st = Ok st" if "xs = []"
    using kalloc_empty [of st] assms(2) that by (simp add: trap_pgflt_def)
  show "trap_pgflt kend d cr2 st = Panic ''remap''" if some: "xs \<noteq> []" "translate (ram st) d cr2 \<noteq> None"
  proof -
    obtain p ps where xs: "xs = p # ps" using some(1) by (cases xs) auto
    have "map_page d (PGROUNDDOWN cr2) (V2P p) (PTE_W OR PTE_U) (cleared p st) = Panic ''remap''"
      by (rule map_page_present [where F = "set ps"])
        (use cleared_ok(1,2) [OF assms [unfolded xs]] some(2) in \<open>simp_all add: translate_page\<close>)
    then show ?thesis by (simp add: pgflt_taken [OF assms(2) [unfolded xs]])
  qed
next
  fix p ps assume xs: "xs = p # ps" and none: "translate (ram st) d cr2 = None" and room: "present (ram st) d (PDX cr2) \<or> ps \<noteq> []"
  note C = cleared_ok [OF assms [unfolded xs]]
  have none': "translate (ram (cleared p st)) d (PGROUNDDOWN cr2) = None" using C(2) none by (simp add: translate_page)
  have room': "present (ram (cleared p st)) d (PDX (PGROUNDDOWN cr2)) \<or> ps \<noteq> []"
    using room C(5) PDX_less [of cr2] same_page_iff [of "PGROUNDDOWN cr2" cr2] page_of_aligned [OF page_aligned, of cr2] by simp
  obtain st' ys where st': "map_page d (PGROUNDDOWN cr2) (V2P p) (PTE_W OR PTE_U) (cleared p st) = Ok (True, st')"
    "dir_ok (ram st') d (set ys)" "free_ok st' ys" "set ys \<subseteq> set ps"
    "\<And>x. translate (ram st') d x =
      (if PGROUNDDOWN x = PGROUNDDOWN (PGROUNDDOWN cr2) then Some (V2P p OR (PTE_W OR PTE_U) OR PTE_P) else translate (ram (cleared p st)) d x)"
    "\<And>x. PGROUNDDOWN x \<notin> pages_of (ram (cleared p st)) d \<Longrightarrow> PGROUNDDOWN x \<notin> set ps \<Longrightarrow> ram st' x = ram (cleared p st) x"
    by (rule map_page_ok [OF C(1,4) room' none', of "V2P p" "PTE_W OR PTE_U"]) (rule that)
  have "p \<noteq> tab (ram st) d i" if "i < 1024" "present (ram st) d i" for i
    using dir_okD(3) [OF assms(1) that] xs by auto
  then have p: "p \<notin> pages_of (ram st) d" "p \<notin> set ps"
    using assms(2) dir_okD(2) [OF assms(1)] unfolding xs pages_of_def free_ok_def by auto
  have "trap_pgflt kend d cr2 st = Ok st'" using st'(1) by (simp add: pgflt_taken [OF assms(2) [unfolded xs]])
  moreover have "\<forall>x. PGROUNDDOWN x = p \<longrightarrow> ram st' x = 0"
    using st'(6) p C(3,6) by simp
  moreover have "\<forall>x. PGROUNDDOWN x \<notin> pages_of (ram st) d \<longrightarrow> PGROUNDDOWN x \<notin> set xs \<longrightarrow> ram st' x = ram st x"
    using st'(6) C(3,6) xs by simp
  ultimately show "\<exists>st' ys. trap_pgflt kend d cr2 st = Ok st' \<and> dir_ok (ram st') d (set ys) \<and> free_ok st' ys \<and> set ys \<subseteq> set ps \<and>
        (\<forall>x. translate (ram st') d x =
          (if PGROUNDDOWN x = PGROUNDDOWN cr2 then Some (V2P p OR (PTE_W OR PTE_U) OR PTE_P) else translate (ram st) d x)) \<and>
        (\<forall>x. PGROUNDDOWN x = p \<longrightarrow> ram st' x = 0) \<and>
        (\<forall>x. PGROUNDDOWN x \<notin> pages_of (ram st) d \<longrightarrow> PGROUNDDOWN x \<notin> set xs \<longrightarrow> ram st' x = ram st x)"
    using st'(2-5) C(2) page_of_aligned [OF page_aligned, of cr2] by auto
qed

theorem pgflt_maps_witness:
  "\<exists>st'. trap_pgflt 0x80100000 0x80402000 0x4004 two_free = Ok st' \<and>
     translate (ram st') 0x80402000 0x4008 = Some (V2P 0x80400000 OR (PTE_W OR PTE_U) OR PTE_P) \<and> ram st' 0x80400010 = 0"
proof -
  obtain st' where "trap_pgflt 0x80100000 0x80402000 0x4004 two_free = Ok st'"
    and tr: "\<forall>x. translate (ram st') 0x80402000 x = (if PGROUNDDOWN x = PGROUNDDOWN 0x4004 then Some (V2P 0x80400000 OR (PTE_W OR PTE_U) OR PTE_P)
        else translate (ram two_free) 0x80402000 x)"
    and z: "\<forall>x. PGROUNDDOWN x = 0x80400000 \<longrightarrow> ram st' x = 0"
    using pgflt_maps [OF two_free_ok(1,2), of "0x80100000" "0x4004"] two_free_ok(3) by auto
  moreover have "PGROUNDDOWN 0x4008 = PGROUNDDOWN 0x4004" "PGROUNDDOWN 0x80400010 = 0x80400000" by (simp_all add: PGROUNDDOWN_eq)
  ultimately show ?thesis by auto
qed

end
