(* ===== verification/Xv6_Vm_Fork.thy ===== *)
theory Xv6_Vm_Fork
  imports Xv6_Vm_Props
begin

unbundle bit_operations_syntax

text \<open>
  Copying an address space (\<open>copyuvm\<close>, called by \<open>fork\<close>) after lazy growth: building the new directory
  leaves the parent's tables alone, so a page of the parent that is not there is found missing.
\<close>

section \<open>Changes outside of a directory\<close>

lemma frame_dir:
  assumes "aligned d" "\<And>x. PGROUNDDOWN x \<in> pages_of m d \<Longrightarrow> m' x = m x"
  shows "i < 1024 \<Longrightarrow> get32 m' (d + 4 * i) = get32 m (d + 4 * i)" "pages_of m' d = pages_of m d"
    "translate m' d x = translate m d x"
proof -
  have dir: "get32 m' (d + 4 * i) = get32 m (d + 4 * i)" if "i < 1024" for i
    using slot4(1,2) [OF assms(1) that] assms(2) by (intro get32_cong) (auto simp: pages_of_def)
  then show "i < 1024 \<Longrightarrow> get32 m' (d + 4 * i) = get32 m (d + 4 * i)" .
  have e: "present m' d i = present m d i" "tab m' d i = tab m d i" if "i < 1024" for i
    using dir [OF that] by (simp_all add: present_def tab_def)
  have "{tab m' d i | i. i < 1024 \<and> present m' d i} = {tab m d i | i. i < 1024 \<and> present m d i}"
    by (rule Collect_cong) (metis e)
  then show "pages_of m' d = pages_of m d" by (simp add: pages_of_def)
  show "translate m' d x = translate m d x"
  proof (cases "present m d (PDX x)")
    case True
    then have q: "tab m d (PDX x) \<in> pages_of m d" by (auto simp: pages_of_def)
    have "get32 m' (tab m d (PDX x) + 4 * PTX x) = get32 m (tab m d (PDX x) + 4 * PTX x)"
      using slot4(1,2) [OF tab_aligned PTX_less, of m d "PDX x" x] assms(2) q by (intro get32_cong) auto
    then show ?thesis using e [OF PDX_less, of x] by (simp add: translate_def)
  qed (use e [OF PDX_less, of x] in \<open>simp add: translate_def\<close>)
qed

lemma frame_dir_ok:
  assumes "dir_ok m d F" "G \<subseteq> F" "\<And>x. PGROUNDDOWN x \<in> pages_of m d \<Longrightarrow> m' x = m x"
  shows "dir_ok m' d G"
  by (rule dir_ok_cong(1) [OF assms(1,2)]) (rule frame_dir(1) [OF dir_okD(1) [OF assms(1)] assms(3)])

lemma free_not_page: "dir_ok m d F \<Longrightarrow> p \<in> F \<Longrightarrow> p \<notin> pages_of m d"
  unfolding dir_ok_def pages_of_def by auto

section \<open>Building a directory beside protected pages\<close>

text \<open>The directory \<open>d\<close> is being built from free pages, and the memory \<open>m\<close> of the pages \<open>K\<close> is kept.\<close>

definition building :: "uint set \<Rightarrow> mem \<Rightarrow> uint \<Rightarrow> vst \<Rightarrow> uint list \<Rightarrow> bool" where
  "building K m d st xs \<longleftrightarrow>
    dir_ok (ram st) d (set xs) \<and> free_ok st xs \<and> K \<inter> (pages_of (ram st) d \<union> set xs) = {} \<and>
    (\<forall>x. PGROUNDDOWN x \<in> K \<longrightarrow> ram st x = m x)"

lemma buildingD:
  assumes "building K m d st xs"
  shows "dir_ok (ram st) d (set xs)" "free_ok st xs" "K \<inter> (pages_of (ram st) d \<union> set xs) = {}"
    "PGROUNDDOWN x \<in> K \<Longrightarrow> ram st x = m x"
  using assms by (auto simp: building_def)

lemma map_page_building:
  assumes b: "building K m d st xs" and r: "map_page d a pa perm st = Ok (ok, st')"
  shows "\<exists>ys. building K m d st' ys"
proof -
  note B = buildingD [OF b]
  have none: "translate (ram st) d a = None"
  proof (rule ccontr)
    assume "translate (ram st) d a \<noteq> None"
    then have "map_page d a pa perm st = Panic ''remap''" by (rule map_page_present [OF B(1)])
    then show False using r by simp
  qed
  show ?thesis
  proof (cases "present (ram st) d (PDX a) \<or> xs \<noteq> []")
    case True
    obtain st1 ys where st1: "map_page d a pa perm st = Ok (True, st1)" "dir_ok (ram st1) d (set ys)" "free_ok st1 ys" "set ys \<subseteq> set xs"
      "\<And>x. PGROUNDDOWN x \<notin> pages_of (ram st) d \<Longrightarrow> PGROUNDDOWN x \<notin> set xs \<Longrightarrow> ram st1 x = ram st x"
      "pages_of (ram st1) d \<subseteq> pages_of (ram st) d \<union> (set xs - set ys)"
      by (rule map_page_ok [OF B(1,2) True none, of pa perm]) (rule that)
    have "ram st1 x = m x" if "PGROUNDDOWN x \<in> K" for x
      using st1(5) [of x] B(3) B(4) [OF that] that by auto
    then have "building K m d st1 ys" using st1 B(3) unfolding building_def by blast
    then show ?thesis using r st1(1) by auto
  next
    case False
    then have "walkpgdir d a True st = (0, st)"
      using kalloc_empty [of st] B(2) by (simp add: walkpgdir_def Let_def present_def)
    then have "st' = st" using r by (simp add: map_page_def)
    then show ?thesis using b by blast
  qed
qed

lemma mappages_loop_building:
  "building K m d st xs \<Longrightarrow> mappages_loop n d a pa perm st = Ok (r, st') \<Longrightarrow> \<exists>ys. building K m d st' ys"
proof (induction n arbitrary: a pa st xs)
  case 0
  then obtain ok where "map_page d a pa perm st = Ok (ok, st')" by (auto simp: kres_simps)
  then show ?case by (rule map_page_building [OF 0(1)])
next
  case (Suc n)
  obtain ok st1 where s: "map_page d a pa perm st = Ok (ok, st1)" using Suc.prems(2) by (auto simp: kres_simps)
  obtain ys where "building K m d st1 ys" using map_page_building [OF Suc.prems(1) s] by blast
  then show ?case using Suc.IH [of st1 ys] Suc.prems(2) s by (cases ok) auto
qed

lemma mappages_building:
  "building K m d st xs \<Longrightarrow> mappages d a n pa perm st = Ok (r, st') \<Longrightarrow> \<exists>ys. building K m d st' ys"
  unfolding mappages_def Let_def by (rule mappages_loop_building)

lemma setup_maps_building:
  "building K m d st xs \<Longrightarrow> setup_maps kend ks d st = Ok (r, st') \<Longrightarrow> r \<noteq> 0 \<Longrightarrow> r = d \<and> (\<exists>ys. building K m d st' ys)"
proof (induction ks arbitrary: st xs)
  case (Cons k ks)
  obtain v a e perm where k: "k = (v, a, e, perm)" by (cases k)
  obtain q st1 where s: "mappages d v (e - a) a perm st = Ok (q, st1)" using Cons.prems(2) by (auto simp: k kres_simps)
  obtain ys where b: "building K m d st1 ys" using mappages_building [OF Cons.prems(1) s] by blast
  have "\<not> q < 0" using Cons.prems(2,3) s by (auto simp: k kres_simps)
  then show ?case using Cons.IH [OF b] Cons.prems(2,3) s by (simp add: k)
qed auto

text \<open>A free page that is taken and filled by its new owner.\<close>

lemma take_page:
  assumes b: "building K m d st (p # ps)" and m': "\<And>x. PGROUNDDOWN x \<noteq> p \<Longrightarrow> m' x = ram st x"
  shows "building K m d (st\<lparr>freelist := get32 (ram st) p, ram := m'\<rparr>) ps"
proof -
  note B = buildingD [OF b]
  have p: "p \<notin> set ps" "p \<notin> K" "p \<notin> pages_of (ram st) d" using B(1-3) free_not_page [OF B(1)] by (auto simp: free_ok_def)
  have same: "m' x = ram st x" if "PGROUNDDOWN x \<in> pages_of (ram st) d" for x using m' [of x] that p(3) by auto
  have "dir_ok m' d (set ps)" by (rule frame_dir_ok [OF B(1) _ same]) auto
  moreover have "pages_of m' d = pages_of (ram st) d" by (rule frame_dir(2) [OF dir_okD(1) [OF B(1)] same])
  moreover have "free_ok (st\<lparr>freelist := get32 (ram st) p, ram := m'\<rparr>) ps"
  proof -
    have "m' a = ram st a" if "PGROUNDDOWN a \<in> set ps" for a using m' [of a] that p(1) by auto
    then show ?thesis using free_ok_outside [OF kalloc_pop(2) [OF B(2)], of m'] by simp
  qed
  moreover have "m' x = m x" if "PGROUNDDOWN x \<in> K" for x using m' [of x] that p(2) B(4) [OF that] by auto
  ultimately show ?thesis using B(3) by (auto simp: building_def)
qed

lemma setupkvm_building:
  assumes f: "free_ok st xs" and K: "K \<inter> set xs = {}" and r: "setupkvm kend kdata st = Ok (d, st')" "d \<noteq> 0"
  shows "\<exists>ys. building K (ram st) d st' ys"
proof -
  obtain p ps where xs: "xs = p # ps" using f r by (cases xs) (auto simp: setupkvm_def kalloc_empty)
  have p: "aligned p" "p \<noteq> 0" "p \<notin> set ps" using f xs by (auto simp: free_ok_def)
  let ?st = "st\<lparr>freelist := get32 (ram st) p, ram := memset p 0 PGSIZE (ram st)\<rparr>"
  have np: "\<not> present (ram ?st) p i" if "i < 1024" for i
    using get_memset_slot [OF p(1,1) that, of "ram st"] by (simp add: present_def)
  have "\<forall>x. PGROUNDDOWN x \<in> K \<longrightarrow> ram ?st x = ram st x" using K xs by (auto simp: memset_page [OF p(1)])
  moreover have "free_ok ?st ps"
  proof -
    have "memset p 0 PGSIZE (ram st) a = ram st a" if "PGROUNDDOWN a \<in> set ps" for a
      using that p(3) by (auto simp: memset_page [OF p(1)])
    then show ?thesis using free_ok_outside [OF kalloc_pop(2) [OF f [unfolded xs]]] by simp
  qed
  ultimately have b: "building K (ram st) p ?st ps"
    using np p K xs by (auto simp: building_def dir_ok_def pages_of_def)
  have "setup_maps kend (kmap kdata) p ?st = Ok (d, st')"
    using r(1) kalloc_pop(1) [OF f [unfolded xs]] p(2) by (auto simp: setupkvm_def Let_def split: if_splits)
  then show ?thesis using setup_maps_building [OF b _ r(2)] by blast
qed

section \<open>The copy stops at a missing page\<close>

lemma copy_up_outside: "\<not> unat (a - d) < n \<Longrightarrow> copy_up n d s m a = m a"
proof (induction n arbitrary: d s m)
  case (Suc n)
  have ne: "a \<noteq> d" using Suc.prems(1) by auto
  have "unat (a - d) \<noteq> 0" using ne by (simp add: unat_eq_0)
  then have "unat (a - (d + 1)) = unat (a - d) - 1" by (simp add: diff_diff_eq [symmetric] unat_minus_one unat_eq_0)
  then show ?case using Suc.IH [of "d + 1" "s + 1" "m(d := m s)"] Suc.prems ne by (simp add: fun_upd_def)
qed simp

lemma copy_down_outside:
  "\<not> unat (a - d) < n \<Longrightarrow> unat d + n \<le> 2 ^ 32 \<Longrightarrow> copy_down n (d + of_nat n) s m a = m a"
proof (induction n arbitrary: s m)
  case (Suc n)
  have "unat (of_nat n :: uint) = n" using Suc.prems(2) by (simp add: unat_of_nat)
  then have "a \<noteq> d + of_nat n" using Suc.prems(1) by auto
  then show ?case using Suc.IH [of "s - 1" "m(d + of_nat n := m (s - 1))"] Suc.prems by (simp add: fun_upd_def)
qed simp

lemma memmove_page:
  assumes "aligned p" "PGROUNDDOWN x \<noteq> p"
  shows "memmove p src PGSIZE m x = m x"
proof -
  have "\<not> unat (x - p) < 4096" using page_iff_offset [OF assms(1), of x] assms(2) by (simp add: word_less_nat_alt)
  moreover have "unat p + 4096 \<le> 2 ^ 32" using aligned_room [OF assms(1)] by simp
  ultimately show ?thesis
    using copy_up_outside [of x p 4096 src m] copy_down_outside [of x p 4096 "src + 4096" m]
    by (simp add: memmove_def PGSIZE_def)
qed

lemma walk_missing:
  assumes "translate (ram st) d i = None"
  shows "fst (walkpgdir d i False st) = 0 \<or> get32 (ram st) (fst (walkpgdir d i False st)) AND PTE_P = 0"
  using assms by (auto simp: walkpgdir_def translate_def present_def tab_def Let_def split: if_splits)

lemma next_page:
  assumes "aligned i" "aligned j" "i < j"
  shows "aligned (i + PGSIZE)" "i + PGSIZE \<le> j" "unat j - unat (i + PGSIZE) < unat j - unat i"
proof -
  obtain a b where ab: "unat i = 4096 * a" "unat j = 4096 * b"
    using assms(1,2) unfolding aligned_nat by (auto simp: mod_eq_0_iff_dvd elim!: dvdE)
  have "a < b" using assms(3) ab by (simp add: word_less_nat_alt)
  then have le: "4096 * a + 4096 \<le> unat j" using ab by simp
  have "unat j < 4294967296" using unsigned_less [of j, where 'a = nat] by simp
  then have "unat (i + PGSIZE) = 4096 * a + 4096"
    by (subst unat_add_u32) (use ab le in \<open>auto simp: PGSIZE_def\<close>)
  then show "aligned (i + PGSIZE)" "i + PGSIZE \<le> j" "unat j - unat (i + PGSIZE) < unat j - unat i"
    using le ab by (auto simp: aligned_nat word_le_nat_alt)
qed

lemma copyuvm_loop_missing:
  assumes "building (pages_of m P) m d st xs" "aligned P" "translate m P j = None" "aligned i" "aligned j" "i \<le> j" "j < sz"
  shows "copyuvm_loop kend d P sz i st \<noteq> Some (Ok (True, st'))"
  using assms(1,4,6)
proof (induction "unat j - unat i" arbitrary: i st xs rule: less_induct)
  case less
  note B = buildingD [OF less.prems(1)]
  have isz: "i < sz" using less.prems(3) assms(7) by simp
  show ?case
  proof (cases "i = j")
    case True
    have "translate (ram st) P j = None" using frame_dir(3) [OF assms(2), of m "ram st" j] B(4) assms(3) by simp
    then show ?thesis using walk_missing [of st P j] True isz
      by (subst copyuvm_loop.simps) (auto simp: Let_def)
  next
    case False
    then have ij: "i < j" using less.prems(3) by simp
    note N = next_page [OF less.prems(2) assms(5) ij]
    show ?thesis
    proof
      assume r: "copyuvm_loop kend d P sz i st = Some (Ok (True, st'))"
      obtain p ps where xs: "xs = p # ps"
        using r B(2) isz kalloc_empty [of st] by (cases xs; subst (asm) copyuvm_loop.simps) (auto simp: Let_def split: if_splits)
      note b = less.prems(1) [unfolded xs]
      have p: "aligned p" using B(2) xs by (simp add: free_ok_def)
      define pa where "pa = P2V (PTE_ADDR (get32 (ram st) (fst (walkpgdir P i False st))))"
      let ?st = "st\<lparr>freelist := get32 (ram st) p, ram := memmove p pa PGSIZE (ram st)\<rparr>"
      have b1: "building (pages_of m P) m d ?st ps" by (rule take_page [OF b]) (rule memmove_page [OF p])
      obtain q where q: "mappages d i PGSIZE (V2P p) (PTE_FLAGS (get32 (ram st) (fst (walkpgdir P i False st)))) ?st = Ok q"
        and rec: "copyuvm_loop kend d P sz (i + PGSIZE) (snd q) = Some (Ok (True, st'))"
        using r isz kalloc_pop(1) [OF B(2) [unfolded xs]]
        by (subst (asm) copyuvm_loop.simps) (auto simp: Let_def pa_def kres_simps split: if_splits kres.splits)
      obtain ys where "building (pages_of m P) m d (snd q) ys"
        using mappages_building [OF b1, of i PGSIZE "V2P p" _ "fst q" "snd q"] q by auto
      then show False using less.hyps [OF N(3) _ N(1,2)] rec by blast
    qed
  qed
qed

section \<open>Property\<close>

text \<open>
  C14: lazy growth and \<open>fork\<close> (lab 4). While some page below the size that \<open>sbrk\<close> set has not been
  touched yet, \<open>copyuvm\<close> never gives \<open>fork\<close> a copy of the address space, whatever memory is free: no
  call returns a directory other than 0.
\<close>

theorem sbrk_fork_fails:
  assumes "dir_ok (ram st) pgdir (set xs)" "free_ok st xs"
    and "aligned va" "va < snd (sys_sbrk n sz)" "translate (ram st) pgdir va = None"
  shows "\<not> (\<exists>d st'. copyuvm kend kdata pgdir (snd (sys_sbrk n sz)) st = Ok (d, st') \<and> d \<noteq> 0)"
proof
  assume "\<exists>d st'. copyuvm kend kdata pgdir (snd (sys_sbrk n sz)) st = Ok (d, st') \<and> d \<noteq> 0"
  then obtain d st' st1 where s: "setupkvm kend kdata st = Ok (d, st1)" "d \<noteq> 0"
    and l: "copyuvm_loop kend d pgdir (snd (sys_sbrk n sz)) 0 st1 = Some (Ok (True, st'))"
    by (auto simp: copyuvm_def run_loop_def kres_simps split: if_splits option.splits prod.splits)
  have "pages_of (ram st) pgdir \<inter> set xs = {}" using free_not_page [OF assms(1)] by auto
  from setupkvm_building [OF assms(2) this s] obtain ys where "building (pages_of (ram st) pgdir) (ram st) d st1 ys" by blast
  from copyuvm_loop_missing [OF this dir_okD(1) [OF assms(1)] assms(5) _ assms(3) _ assms(4), of 0] l
  show False by (simp add: aligned_nat)
qed

theorem sbrk_fork_fails_witness:
  "\<not> (\<exists>d st'. copyuvm 0x80100000 0x80108000 0x80402000 (snd (sys_sbrk 8192 4096)) two_free = Ok (d, st') \<and> d \<noteq> 0)"
  by (rule sbrk_fork_fails [OF two_free_ok(1,2), of "0x1000"]) (simp_all add: aligned_nat sys_sbrk_def two_free_ok(3))

end
