(* ===== verification/Apt_Sim.thy ===== *)
theory Apt_Sim
  imports Prelude
begin

text \<open>
  The apartment inspection simulator (\<open>proj2/aptsim.c\<close>): agent and tenant processes that share
  seven semaphores and two counters. The semaphores are system calls of a kernel that is not part of the
  repository: what \<open>down\<close> and \<open>up\<close> do is a parameter. A process is the list of the shared actions it
  has left to do; the step relation lets any process do its next action. Times and the delays between
  the creation of processes are not modelled: a process may wait before any of its actions, so every
  order that delays could cause is an order of the steps.
\<close>

section \<open>Arguments\<close>

record cli_args =
  total_tenants :: int
  total_agents :: int
  p_tenant_follows :: int
  delay_tenant :: int
  p_agent_follows :: int
  delay_agent :: int

definition default_args :: cli_args where
  "default_args = \<lparr>total_tenants = 1, total_agents = 1, p_tenant_follows = 100, delay_tenant = 0,
     p_agent_follows = 100, delay_agent = 0\<rparr>"

text \<open>\<open>atoi\<close> of the C library on a decimal number with an optional minus sign.\<close>

fun digits_value :: "string \<Rightarrow> int \<Rightarrow> int" where
  "digits_value (c # cs) acc =
    (if CHR ''0'' = c \<or> c \<in> set ''123456789'' then digits_value cs (10 * acc + int (of_char c) - 48) else acc)"
| "digits_value [] acc = acc"

definition c_atoi :: "string \<Rightarrow> int" where
  "c_atoi s = (case s of c # cs \<Rightarrow> if c = CHR ''-'' then - digits_value cs 0 else digits_value s 0 | [] \<Rightarrow> 0)"

text \<open>One option of the command line; nothing for an unknown one.\<close>

definition set_arg :: "string \<Rightarrow> int \<Rightarrow> cli_args \<Rightarrow> cli_args option" where
  "set_arg opt v args =
    (if opt = ''-m'' then Some (args\<lparr>total_tenants := v\<rparr>)
     else if opt = ''-k'' then Some (args\<lparr>total_agents := v\<rparr>)
     else if opt = ''-pt'' then Some (args\<lparr>p_tenant_follows := v\<rparr>)
     else if opt = ''-dt'' then Some (args\<lparr>delay_tenant := v\<rparr>)
     else if opt = ''-pa'' then Some (args\<lparr>p_agent_follows := v\<rparr>)
     else if opt = ''-da'' then Some (args\<lparr>delay_agent := v\<rparr>)
     else None)"

text \<open>
  The loop of \<open>loadArguments\<close>. An option at the end of the line has no value: \<open>atoi\<close> is given a null
  pointer. The result is the returned value; at the end of the loop there is none, because the function
  has no \<open>return\<close> there.
\<close>

fun load_loop :: "string list \<Rightarrow> cli_args \<Rightarrow> (int option \<times> cli_args) kres" where
  "load_loop [] args = Ok (None, args)"
| "load_loop (cur # rest) args =
    (if take 1 cur = ''-'' then
       (case rest of [] \<Rightarrow> Undefined
        | v # _ \<Rightarrow> (case set_arg cur (c_atoi v) args of None \<Rightarrow> Ok (Some (-1), args) | Some args \<Rightarrow> load_loop rest args))
     else load_loop rest args)"

definition loadArguments :: "string list \<Rightarrow> (int option \<times> cli_args) kres" where
  "loadArguments argv = (if length argv \<noteq> 13 then Ok (Some (-1), default_args) else load_loop (tl argv) default_args)"

section \<open>Shared data and actions\<close>

definition MAX_TENANTS_PER_AGENT :: int where "MAX_TENANTS_PER_AGENT = 10"

datatype semname = Mutex | Waiting_for_agent | Tenant_arrived | Agent_arrived | Apt_lock | Tenants_leave | Agent_apt_lock

record counters =
  current_agent_tenants :: int
  tenants_in_apt :: int

datatype event = Agent_arrives nat | Agent_opens nat | Agent_leaves nat | Apartment_empty
  | Tenant_arrives nat | Tenant_inspects nat | Tenant_leaves nat

text \<open>The shared semaphores and the state, for a type \<open>'s\<close> of semaphores.\<close>

record 's shared_sems =
  mutex :: 's
  waiting_for_agent :: 's
  tenant_arrived :: 's
  agent_arrived :: 's
  apt_lock :: 's
  tenants_leave :: 's
  agent_apt_lock :: 's

fun get_sem :: "'s shared_sems \<Rightarrow> semname \<Rightarrow> 's" where
  "get_sem r Mutex = mutex r"
| "get_sem r Waiting_for_agent = waiting_for_agent r"
| "get_sem r Tenant_arrived = tenant_arrived r"
| "get_sem r Agent_arrived = agent_arrived r"
| "get_sem r Apt_lock = apt_lock r"
| "get_sem r Tenants_leave = tenants_leave r"
| "get_sem r Agent_apt_lock = agent_apt_lock r"

fun put_sem :: "'s shared_sems \<Rightarrow> semname \<Rightarrow> 's \<Rightarrow> 's shared_sems" where
  "put_sem r Mutex v = r\<lparr>mutex := v\<rparr>"
| "put_sem r Waiting_for_agent v = r\<lparr>waiting_for_agent := v\<rparr>"
| "put_sem r Tenant_arrived v = r\<lparr>tenant_arrived := v\<rparr>"
| "put_sem r Agent_arrived v = r\<lparr>agent_arrived := v\<rparr>"
| "put_sem r Apt_lock v = r\<lparr>apt_lock := v\<rparr>"
| "put_sem r Tenants_leave v = r\<lparr>tenants_leave := v\<rparr>"
| "put_sem r Agent_apt_lock v = r\<lparr>agent_apt_lock := v\<rparr>"

lemma mutex_put [simp]: "mutex (put_sem r s v) = (if s = Mutex then v else mutex r)"
  by (cases s) simp_all

record 's apt =
  sems :: "'s shared_sems"
  cnts :: counters
  said :: "event list"

datatype action = Down semname | Up semname | Say event | Upd "counters \<Rightarrow> counters"
  | Cond "counters \<Rightarrow> bool" "action list" "action list"

section \<open>The processes\<close>

definition agentArrives :: "nat \<Rightarrow> action list" where
  "agentArrives agent_id =
    [Say (Agent_arrives agent_id), Down Mutex] @
    (if agent_id \<noteq> 0 then [Up Mutex, Down Agent_apt_lock, Down Mutex, Up Waiting_for_agent]
     else [Down Agent_apt_lock]) @
    [Up Mutex, Up Agent_arrived, Down Tenant_arrived]"

definition openApt :: "nat \<Rightarrow> action list" where
  "openApt agent_id = [Say (Agent_opens agent_id), Up Apt_lock]"

definition agentLeaves :: "nat \<Rightarrow> action list" where
  "agentLeaves agent_id =
    [Down Tenants_leave, Down Mutex, Say (Agent_leaves agent_id), Say Apartment_empty, Up Agent_apt_lock,
     Upd (\<lambda>c. c\<lparr>current_agent_tenants := 0\<rparr>), Up Mutex]"

definition inc_current :: action where
  "inc_current = Upd (\<lambda>c. c\<lparr>current_agent_tenants := current_agent_tenants c + 1\<rparr>)"

definition tenantArrives :: "nat \<Rightarrow> action list" where
  "tenantArrives tenant_id =
    [Say (Tenant_arrives tenant_id), Down Mutex,
     Cond (\<lambda>c. current_agent_tenants c \<ge> MAX_TENANTS_PER_AGENT)
       [Up Mutex, Down Waiting_for_agent, Down Mutex, inc_current,
        Cond (\<lambda>c. current_agent_tenants c < MAX_TENANTS_PER_AGENT) [Up Waiting_for_agent] []]
       [inc_current],
     Upd (\<lambda>c. c\<lparr>tenants_in_apt := tenants_in_apt c + 1\<rparr>),
     Cond (\<lambda>c. current_agent_tenants c = 1) [Up Tenant_arrived] [],
     Up Mutex, Down Agent_arrived, Down Mutex, Up Agent_arrived, Up Mutex]"

definition viewApt :: "nat \<Rightarrow> action list" where
  "viewApt tenant_id = [Down Apt_lock, Say (Tenant_inspects tenant_id), Up Apt_lock]"

definition tenantLeaves :: "nat \<Rightarrow> action list" where
  "tenantLeaves tenant_id =
    [Down Mutex, Upd (\<lambda>c. c\<lparr>tenants_in_apt := tenants_in_apt c - 1\<rparr>), Say (Tenant_leaves tenant_id),
     Cond (\<lambda>c. tenants_in_apt c = 0)
       [Upd (\<lambda>c. c\<lparr>current_agent_tenants := MAX_TENANTS_PER_AGENT\<rparr>), Up Tenants_leave, Up Mutex,
        Down Agent_arrived, Down Apt_lock]
       [Up Mutex]]"

definition agentProcess :: "nat \<Rightarrow> action list" where
  "agentProcess agent_id = agentArrives agent_id @ openApt agent_id @ agentLeaves agent_id"

definition tenantProcess :: "nat \<Rightarrow> action list" where
  "tenantProcess tenant_id = tenantArrives tenant_id @ viewApt tenant_id @ tenantLeaves tenant_id"

text \<open>\<open>initSharedVariables\<close>, for the function that makes a semaphore with a value.\<close>

definition initSharedVariables :: "(int \<Rightarrow> 's) \<Rightarrow> 's apt" where
  "initSharedVariables new =
    \<lparr>sems = \<lparr>mutex = new 1, waiting_for_agent = new 0, tenant_arrived = new 0, agent_arrived = new 0, apt_lock = new 0,
       tenants_leave = new 0, agent_apt_lock = new 1\<rparr>,
     cnts = \<lparr>current_agent_tenants = 0, tenants_in_apt = 0\<rparr>, said = []\<rparr>"

definition startTenantCreation :: "cli_args \<Rightarrow> action list list" where
  "startTenantCreation args = map tenantProcess [0..<nat (total_tenants args)]"

definition startAgentCreation :: "cli_args \<Rightarrow> action list list" where
  "startAgentCreation args = map agentProcess [0..<nat (total_agents args)]"

definition apt_main :: "(int \<Rightarrow> 's) \<Rightarrow> cli_args \<Rightarrow> action list list \<times> 's apt" where
  "apt_main new args =
    (startAgentCreation args @ startTenantCreation args, (initSharedVariables new)\<lparr>said := [Apartment_empty]\<rparr>)"

section \<open>Steps\<close>

text \<open>
  One action, for \<open>down\<close> (nothing while the caller has to wait) and \<open>up\<close>: the actions it puts in front of
  the rest, and the new state.
\<close>

fun act :: "('s \<Rightarrow> 's option) \<Rightarrow> ('s \<Rightarrow> 's) \<Rightarrow> action \<Rightarrow> 's apt \<Rightarrow> (action list \<times> 's apt) option" where
  "act down up (Down s) a = (case down (get_sem (sems a) s) of None \<Rightarrow> None | Some v \<Rightarrow> Some ([], a\<lparr>sems := put_sem (sems a) s v\<rparr>))"
| "act down up (Up s) a = Some ([], a\<lparr>sems := put_sem (sems a) s (up (get_sem (sems a) s))\<rparr>)"
| "act down up (Say e) a = Some ([], a\<lparr>said := said a @ [e]\<rparr>)"
| "act down up (Upd f) a = Some ([], a\<lparr>cnts := f (cnts a)\<rparr>)"
| "act down up (Cond b xs ys) a = Some (if b (cnts a) then xs else ys, a)"

text \<open>A step of process \<open>i\<close>, if it has one.\<close>

definition astep :: "('s \<Rightarrow> 's option) \<Rightarrow> ('s \<Rightarrow> 's) \<Rightarrow> nat \<Rightarrow> action list list \<times> 's apt \<Rightarrow> (action list list \<times> 's apt) option" where
  "astep down up i s =
    (case s of (ps, a) \<Rightarrow>
      if i < length ps then
        (case ps ! i of [] \<Rightarrow> None
         | x # xs \<Rightarrow> (case act down up x a of None \<Rightarrow> None | Some (pre, a') \<Rightarrow> Some (ps[i := pre @ xs], a')))
      else None)"

inductive apt_reach :: "('s \<Rightarrow> 's option) \<Rightarrow> ('s \<Rightarrow> 's) \<Rightarrow> action list list \<times> 's apt \<Rightarrow> action list list \<times> 's apt \<Rightarrow> bool"
  for down up s where
  start: "apt_reach down up s s"
| step: "apt_reach down up s t \<Longrightarrow> astep down up i t = Some u \<Longrightarrow> apt_reach down up s u"

text \<open>A run along a list of process numbers.\<close>

primrec arun :: "('s \<Rightarrow> 's option) \<Rightarrow> ('s \<Rightarrow> 's) \<Rightarrow> nat list \<Rightarrow> action list list \<times> 's apt \<Rightarrow> (action list list \<times> 's apt) option" where
  "arun down up [] s = Some s"
| "arun down up (i # is) s = (case astep down up i s of None \<Rightarrow> None | Some t \<Rightarrow> arun down up is t)"

text \<open>What is relied on of the semaphores: they count.\<close>

definition counting :: "('s \<Rightarrow> 's option) \<Rightarrow> ('s \<Rightarrow> 's) \<Rightarrow> (int \<Rightarrow> 's) \<Rightarrow> ('s \<Rightarrow> nat) \<Rightarrow> bool" where
  "counting down up new count \<longleftrightarrow>
    (\<forall>v. count (up v) = count v + 1) \<and>
    (\<forall>v. down v = None \<longleftrightarrow> count v = 0) \<and>
    (\<forall>v w. down v = Some w \<longrightarrow> count v = count w + 1) \<and>
    (\<forall>n \<ge> 0. count (new n) = nat n)"

section \<open>Mutual exclusion\<close>

text \<open>The next operation on the mutex is to give it back.\<close>

fun holds :: "action list \<Rightarrow> bool" where
  "holds [] = False"
| "holds (Up s # xs) = (s = Mutex \<or> holds xs)"
| "holds (Down s # xs) = (s \<noteq> Mutex \<and> holds xs)"
| "holds (Say e # xs) = holds xs"
| "holds (Upd f # xs) = holds xs"
| "holds (Cond b ys zs # xs) = holds (ys @ xs)"

text \<open>The mutex is taken and given back in turn, and the counters are used only in between.\<close>

fun disciplined :: "action list \<Rightarrow> bool" where
  "disciplined [] = True"
| "disciplined (Up s # xs) = ((s = Mutex \<longrightarrow> \<not> holds xs) \<and> disciplined xs)"
| "disciplined (Down s # xs) = ((s = Mutex \<longrightarrow> holds xs) \<and> disciplined xs)"
| "disciplined (Say e # xs) = disciplined xs"
| "disciplined (Upd f # xs) = (holds xs \<and> disciplined xs)"
| "disciplined (Cond b ys zs # xs) = (holds (ys @ xs) \<and> holds (zs @ xs) \<and> disciplined (ys @ xs) \<and> disciplined (zs @ xs))"

lemma countingD:
  assumes "counting down up new count"
  shows "count (up v) = count v + 1" "down v = None \<longleftrightarrow> count v = 0" "down v = Some w \<Longrightarrow> count v = count w + 1"
    "0 \<le> n \<Longrightarrow> count (new n) = nat n"
  using assms unfolding counting_def by blast+

lemma act_mutex:
  assumes c: "counting down up new count" and a: "act down up x a = Some (pre, a')" and d: "disciplined (x # xs)"
  shows "disciplined (pre @ xs)"
    and "count (mutex (sems a')) + (if holds (pre @ xs) then 1 else 0) = count (mutex (sems a)) + (if holds (x # xs) then 1 else 0)"
proof -
  have "disciplined (pre @ xs) \<and>
    count (mutex (sems a')) + (if holds (pre @ xs) then 1 else 0) = count (mutex (sems a)) + (if holds (x # xs) then 1 else 0)"
  proof (cases x)
    case (Down s)
    then obtain v where v: "down (get_sem (sems a) s) = Some v" "pre = []" "a' = a\<lparr>sems := put_sem (sems a) s v\<rparr>"
      using a by (auto split: option.splits)
    show ?thesis using Down v d countingD(3) [OF c v(1)] by auto
  next
    case (Up s)
    then show ?thesis using a d countingD(1) [OF c] by auto
  qed (use a d in auto)
  then show "disciplined (pre @ xs)"
    and "count (mutex (sems a')) + (if holds (pre @ xs) then 1 else 0) = count (mutex (sems a)) + (if holds (x # xs) then 1 else 0)"
    by auto
qed

lemma filter_update:
  "i < length ps \<Longrightarrow> length (filter P (ps[i := p])) + (if P (ps ! i) then 1 else 0) = length (filter P ps) + (if P p then 1 else 0)"
proof (induction ps arbitrary: i)
  case (Cons q ps)
  then show ?case by (cases i) auto
qed simp

lemma process_disciplined:
  "disciplined (agentProcess i)" "disciplined (tenantProcess i)" "\<not> holds (agentProcess i)" "\<not> holds (tenantProcess i)"
  by (simp_all add: agentProcess_def agentArrives_def openApt_def agentLeaves_def tenantProcess_def tenantArrives_def
      viewApt_def tenantLeaves_def inc_current_def)

lemma reach_mutex:
  assumes c: "counting down up new count" and r: "apt_reach down up (apt_main new args) t"
  shows "(\<forall>p \<in> set (fst t). disciplined p) \<and> count (mutex (sems (snd t))) + length (filter holds (fst t)) = 1"
  using r
proof (induction rule: apt_reach.induct)
  case start
  have "filter holds (startAgentCreation args @ startTenantCreation args) = []"
    by (auto simp: startAgentCreation_def startTenantCreation_def filter_empty_conv process_disciplined)
  then show ?case using countingD(4) [OF c, of 1] process_disciplined
    by (auto simp: apt_main_def initSharedVariables_def startAgentCreation_def startTenantCreation_def)
next
  case (step t i u)
  obtain ps a where t: "t = (ps, a)" by (cases t)
  obtain x xs pre a' where i: "i < length ps" "ps ! i = x # xs" and x: "act down up x a = Some (pre, a')"
    and u: "u = (ps[i := pre @ xs], a')"
    using step.hyps(2) unfolding t astep_def by (auto split: if_splits list.splits option.splits prod.splits)
  have d: "disciplined (x # xs)" using step.IH i unfolding t by (metis fst_conv nth_mem)
  note m = act_mutex [OF c x d]
  have "\<forall>p \<in> set (ps[i := pre @ xs]). disciplined p"
    using step.IH m(1) set_update_subset_insert [of ps i "pre @ xs"] unfolding t by auto
  moreover have "count (mutex (sems a')) + length (filter holds (ps[i := pre @ xs])) = 1"
    using step.IH m(2) filter_update [OF i(1), of holds "pre @ xs"] i(2) unfolding t by (simp split: if_splits)
  ultimately show ?case unfolding u by simp
qed

section \<open>Any counting semaphore is a counter\<close>

definition ndown :: "nat \<Rightarrow> nat option" where
  "ndown n = (if n = 0 then None else Some (n - 1))"

definition abs_sems :: "('s \<Rightarrow> nat) \<Rightarrow> 's shared_sems \<Rightarrow> nat shared_sems" where
  "abs_sems count r = \<lparr>mutex = count (mutex r), waiting_for_agent = count (waiting_for_agent r),
     tenant_arrived = count (tenant_arrived r), agent_arrived = count (agent_arrived r), apt_lock = count (apt_lock r),
     tenants_leave = count (tenants_leave r), agent_apt_lock = count (agent_apt_lock r)\<rparr>"

lemma abs_sems_get [simp]: "get_sem (abs_sems count r) s = count (get_sem r s)"
  by (cases s) (simp_all add: abs_sems_def)

lemma abs_sems_put [simp]: "abs_sems count (put_sem r s v) = put_sem (abs_sems count r) s (count v)"
  by (cases s) (simp_all add: abs_sems_def)

definition abs_apt :: "('s \<Rightarrow> nat) \<Rightarrow> 's apt \<Rightarrow> nat apt" where
  "abs_apt count a = \<lparr>sems = abs_sems count (sems a), cnts = cnts a, said = said a\<rparr>"

lemma act_abs:
  assumes "counting down up new count"
  shows "act ndown Suc x (abs_apt count a) = map_option (\<lambda>(pre, a). (pre, abs_apt count a)) (act down up x a)"
proof (cases x)
  case (Down s)
  show ?thesis
  proof (cases "down (get_sem (sems a) s)")
    case None
    then have "count (get_sem (sems a) s) = 0" using countingD(2) [OF assms] by blast
    then show ?thesis using Down None by (simp add: abs_apt_def ndown_def)
  next
    case (Some v)
    then show ?thesis using Down countingD(3) [OF assms Some] by (auto simp: abs_apt_def ndown_def)
  qed
next
  case (Up s)
  then show ?thesis using countingD(1) [OF assms] by (auto simp: abs_apt_def)
qed (auto simp: abs_apt_def)

lemma astep_abs:
  assumes "counting down up new count"
  shows "astep ndown Suc i (ps, abs_apt count a) = map_option (\<lambda>(ps, a). (ps, abs_apt count a)) (astep down up i (ps, a))"
  by (auto simp: astep_def act_abs [OF assms] split: list.split option.split)

lemma arun_abs:
  assumes "counting down up new count"
  shows "arun ndown Suc is (ps, abs_apt count a) = map_option (\<lambda>(ps, a). (ps, abs_apt count a)) (arun down up is (ps, a))"
proof (induction "is" arbitrary: ps a)
  case (Cons i "is")
  then show ?case by (auto simp: astep_abs [OF assms] split: option.split)
qed simp

lemma arun_reach: "arun down up is t = Some u \<Longrightarrow> apt_reach down up s t \<Longrightarrow> apt_reach down up s u"
proof (induction "is" arbitrary: t)
  case (Cons i "is")
  then show ?case by (auto split: option.splits intro: apt_reach.step)
qed simp

lemma main_abs:
  assumes "counting down up new count"
  shows "apt_main nat args = (fst (apt_main new args), abs_apt count (snd (apt_main new args)))"
  using countingD(4) [OF assms, of 0] countingD(4) [OF assms, of 1]
  by (auto simp: apt_main_def initSharedVariables_def abs_apt_def abs_sems_def)

text \<open>A run of the counters is a run of the semaphores.\<close>

lemma counter_run:
  assumes c: "counting down up new count" and r: "arun ndown Suc is (apt_main nat args) = Some (ps, b)"
  obtains a where "apt_reach down up (apt_main new args) (ps, a)" "abs_apt count a = b"
proof -
  obtain qs a0 where m: "apt_main new args = (qs, a0)" by (cases "apt_main new args")
  have "map_option (\<lambda>(ps, a). (ps, abs_apt count a)) (arun down up is (qs, a0)) = Some (ps, b)"
    using r unfolding main_abs [OF c] m by (simp add: arun_abs [OF c])
  then obtain a where a: "arun down up is (qs, a0) = Some (ps, a)" "abs_apt count a = b" by auto
  then show thesis using that arun_reach [OF a(1) apt_reach.start] m by metis
qed

text \<open>Integers count.\<close>

definition idown :: "int \<Rightarrow> int option" where
  "idown v = (if v > 0 then Some (v - 1) else None)"

definition iup :: "int \<Rightarrow> int" where
  "iup v = (if v < 0 then 1 else v + 1)"

lemma counting_int: "counting idown iup id nat"
  by (auto simp: counting_def idown_def iup_def split: if_splits)

definition few_args :: cli_args where
  "few_args = default_args\<lparr>total_agents := 2\<rparr>"

definition many_args :: cli_args where
  "many_args = default_args\<lparr>total_agents := 2, total_tenants := 12\<rparr>"

definition crowd :: "nat list" where
  "crowd = replicate 5 0 @ replicate 12 2 @ replicate 3 0 @ replicate 12 2 @ replicate 7 0 @ replicate 8 1 @ replicate 8 3 @
     concat (map (replicate 7) [4..<13]) @ replicate 7 13"

lemma crowd_run: "case arun ndown Suc crowd (apt_main nat many_args) of None \<Rightarrow> False
    | Some (ps, a) \<Rightarrow> current_agent_tenants (cnts a) = 11"
  by code_simp

lemma stuck_run: "case arun ndown Suc [1, 1, 1, 1, 0, 0, 2] (apt_main nat few_args) of None \<Rightarrow> False
    | Some (ps, a) \<Rightarrow> length ps = 3 \<and> list_all (\<lambda>p. case p of [] \<Rightarrow> False | _ \<Rightarrow> True) ps \<and>
        list_all (\<lambda>i. Option.is_none (astep ndown Suc i (ps, a))) [0..<3]"
  by code_simp

section \<open>Properties\<close>

text \<open>
  C9: mutual exclusion. With any counting semaphores, any number of agents and tenants and any order of
  their steps, at most one process is between \<open>down(mutex)\<close> and \<open>up(mutex)\<close>, and a process whose next
  action reads or changes the shared counters is that process.
\<close>

theorem apt_mutex:
  assumes "counting down up new count" "apt_reach down up (apt_main new args) (ps, a)"
  shows "length (filter holds ps) \<le> 1 \<and>
    (\<forall>p \<in> set ps. (\<exists>f xs. p = Upd f # xs) \<or> (\<exists>b ys zs xs. p = Cond b ys zs # xs) \<longrightarrow> holds p)"
  using reach_mutex [OF assms] by auto

theorem apt_mutex_witness:
  "\<exists>ps a. arun idown iup [0, 0] (apt_main id few_args) = Some (ps, a) \<and> length (filter holds ps) \<le> 1"
proof -
  have "case arun idown iup [0, 0] (apt_main id few_args) of None \<Rightarrow> False | Some (ps, a) \<Rightarrow> True" by code_simp
  then obtain ps a where r: "arun idown iup [0, 0] (apt_main id few_args) = Some (ps, a)" by (auto split: option.splits)
  have "apt_reach idown iup (apt_main id few_args) (ps, a)" by (rule arun_reach [OF r apt_reach.start])
  then show ?thesis using r apt_mutex [OF counting_int, of few_args ps a] by blast
qed

text \<open>
  C13: the simulator can deadlock. With two agents and a tenant there is an order of steps after which no
  process can take a step and none is at its end: agent 1 takes the apartment before agent 0, and agent 0
  waits for the apartment while it has the mutex that agent 1 needs.
\<close>

theorem apt_deadlock:
  assumes "counting down up new count"
  shows "\<exists>ps a. apt_reach down up (apt_main new few_args) (ps, a) \<and> length ps = 3 \<and> [] \<notin> set ps \<and>
    (\<forall>i. astep down up i (ps, a) = None)"
proof -
  obtain ps b where r: "arun ndown Suc [1, 1, 1, 1, 0, 0, 2] (apt_main nat few_args) = Some (ps, b)"
    and l: "length ps = 3" "list_all (\<lambda>p. case p of [] \<Rightarrow> False | _ \<Rightarrow> True) ps" and st: "list_all (\<lambda>i. Option.is_none (astep ndown Suc i (ps, b))) [0..<3]"
    using stuck_run by (auto split: option.splits)
  obtain a where a: "apt_reach down up (apt_main new few_args) (ps, a)" "abs_apt count a = b"
    by (rule counter_run [OF assms r])
  have "astep down up i (ps, a) = None" for i
  proof (cases "i < 3")
    case True
    then have "astep ndown Suc i (ps, b) = None" using st by (auto simp: list_all_iff Option.is_none_def)
    then show ?thesis using astep_abs [OF assms, of i ps a] a(2) by simp
  next
    case False
    then show ?thesis using l(1) by (simp add: astep_def)
  qed
  moreover have "[] \<notin> set ps" using l(2) by (auto simp: list_all_iff)
  ultimately show ?thesis using a l(1) by blast
qed

theorem apt_deadlock_witness:
  "\<exists>ps a. apt_reach idown iup (apt_main id few_args) (ps, a) \<and> length ps = 3 \<and> [] \<notin> set ps \<and> (\<forall>i. astep idown iup i (ps, a) = None)"
  by (rule apt_deadlock [OF counting_int])

text \<open>
  C15: an agent can be given more than ten tenants. With two agents and twelve tenants there is an order of
  steps after which the count of the current agent's tenants is 11: agent 1 releases
  \<open>waiting_for_agent\<close> on arrival although no tenant waits, and the eleventh tenant passes on it.
\<close>

theorem apt_over_limit:
  assumes "counting down up new count"
  shows "\<exists>ps a. apt_reach down up (apt_main new many_args) (ps, a) \<and> current_agent_tenants (cnts a) > MAX_TENANTS_PER_AGENT"
proof -
  obtain ps b where r: "arun ndown Suc crowd (apt_main nat many_args) = Some (ps, b)" and b: "current_agent_tenants (cnts b) = 11"
    using crowd_run by (auto split: option.splits)
  obtain a where a: "apt_reach down up (apt_main new many_args) (ps, a)" "abs_apt count a = b"
    by (rule counter_run [OF assms r])
  then have "current_agent_tenants (cnts a) = 11" using b by (auto simp: abs_apt_def)
  then show ?thesis using a(1) by (fastforce simp: MAX_TENANTS_PER_AGENT_def)
qed

theorem apt_over_limit_witness:
  "\<exists>ps a. apt_reach idown iup (apt_main id many_args) (ps, a) \<and> current_agent_tenants (cnts a) > MAX_TENANTS_PER_AGENT"
  by (rule apt_over_limit [OF counting_int])

end
