(* ===== verification/Spec2Isabelle.thy ===== *)
theory Spec2Isabelle
  imports Xv6_Bio Xv6_Log Cs1550_Props Xv6_Console Xv6_User Xv6_Sh Xv6_Pipe Xv6_Proc_Props Xv6_Vm_Fork Apt_Sim
begin

text \<open>
  Verification of the programs of an operating systems course: the xv6 kernel and user programs of
  lab 3 (priority scheduling) and lab 4 (lazy page allocation), the FUSE file system of project 4 and
  the apartment simulator of project 2.

  \<^bold>\<open>Parts and theories.\<close>
  \<^item> \<open>Prelude\<close>: types for C integers and memory, the result type \<open>kres\<close> (a value, a panic, sleeping,
    not ending, undefined behaviour), loops, slices of byte arrays, little-endian encodings, linked
    lists. \<open>Ring\<close>: the locale \<open>ring_size\<close> of ring buffers indexed by wrapping counters, interpreted for
    the console input (\<open>cin\<close>) and for pipes (\<open>pring\<close>).
  \<^item> \<open>Xv6_Bio\<close>: the buffer cache over the memory disk (\<open>bio.c\<close>, \<open>memide.c\<close>, \<open>sleeplock.c\<close>). The cache
    is transparent (\<open>bio_read_your_writes\<close>), recycles the least recently released buffer, and
    lacks a buffer exactly when all are referenced or pinned.
  \<^item> \<open>Xv6_Log\<close>: the write-ahead log (\<open>log.c\<close>) on top of it. A crash at any disk write of a commit leaves
    all or nothing of the transaction after recovery, and recovery can itself be interrupted. \<open>log_step\<close>
    interleaves concurrent operations with the commits of their groups: operations with fewer than
    \<open>MAXOPBLOCKS\<close> writes each never overrun the log, and no \<open>end_op\<close> fails. The locale \<open>block_copy\<close> is the common loop of \<open>write_log\<close> and
    \<open>install_trans\<close>. \<open>log_reservation_gap\<close> shows the case that the reservation does not cover.
  \<^item> \<open>Xv6_Proc\<close>, \<open>Xv6_Proc_Inv\<close>, \<open>Xv6_Proc_Props\<close>: processes (\<open>proc.c\<close>, \<open>proc.h\<close>, \<open>sys_setpriority\<close>).
    Each operation is a function on the table; \<open>pstep\<close> interleaves the CPUs and the parts of forks and
    exits that are not under \<open>ptable.lock\<close>. The invariant over reachable states includes that no wakeup is
    lost in \<open>wait\<close>; the scheduler runs a process of the best priority; \<open>exit\<close> and \<open>wait\<close> meet.
  \<^item> \<open>Xv6_Vm\<close>, \<open>Xv6_Vm_Props\<close>, \<open>Xv6_Vm_Fork\<close>: the page allocator (\<open>kalloc.c\<close>), page tables (\<open>vm.c\<close>),
    \<open>sbrk\<close> and the page fault of lab 4 (\<open>trap.c\<close>, \<open>sysproc.c\<close>), on byte memory in which free list and page tables live.
    A directory and its tables are read as a map from pages to entries; a page fault adds one entry for a
    cleared page and changes nothing else (\<open>pgflt_maps\<close>); \<open>fork\<close> cannot copy a page that was never touched
    (\<open>sbrk_fork_fails\<close>).
  \<^item> \<open>Xv6_Pipe\<close>: pipes (\<open>pipe.c\<close>) as a queue of at most 512 bytes over all sequences of calls.
  \<^item> \<open>Xv6_Console\<close>: keyboard and console (\<open>kbd.c\<close>, \<open>kbd.h\<close>, \<open>console.c\<close>) as a line editor,
    with lines read in pieces of any sizes.
  \<^item> \<open>Xv6_String\<close>, \<open>Xv6_Fmt\<close>: string routines and formatted output of the kernel and of the user library
    (\<open>string.c\<close>, \<open>ulib.c\<close>, \<open>printf.c\<close>, the printing part of \<open>console.c\<close>).
  \<^item> \<open>Xv6_User\<close>: \<open>grep.c\<close> against regular languages and \<open>wc.c\<close> against counting, with read errors and the
    overflow of its counters.
  \<^item> \<open>Xv6_Sh\<close>: the shell's parser (\<open>sh.c\<close>): it ends on every line, and parsing inverts writing.
  \<^item> \<open>Cs1550_Disk\<close>, \<open>Cs1550_Fs\<close>, \<open>Cs1550_Props\<close>: the file system of \<open>proj4/cs1550.c\<close> on its disk image,
    refining a map from directories to maps from names to sizes, with the cases that the code leaves
    undefined (an eighteenth file, a path without an extension).
  \<^item> \<open>Apt_Sim\<close>: \<open>proj2/aptsim.c\<close> with the kernel's semaphores as a parameter that counts.

  \<^bold>\<open>How the code is read.\<close> State is passed explicitly. What a spin lock protects is one atomic step. A
  call that has to sleep gives a result that says so; the processes' own model has sleeping as a state.
  Where a property depends on the width of a C integer it has its width, and signed overflow is then
  \<open>Undefined\<close>. Elsewhere: the \<open>int\<close> fields of the log and \<open>nextpid\<close> are unbounded (the former stay below
  \<open>LOGSIZE\<close>, and the theorems on processes are about runs in which process ids have not run out), and the
  negation of the least number in \<open>printint\<close> and the shift in \<open>memset\<close> are those of the machine. Loops with no bound are partial functions
  to \<open>option\<close>, with theorems that say when they end. The shell's parser has a fuel argument, four
  times the length of the line plus four, and \<open>parsecmd_ends\<close> shows that it is enough.

  \<^bold>\<open>Not modelled.\<close> The vendored FUSE library and kernel module (\<open>fuse-2.7.0\<close>), which the repository does
  not change and the file system only calls; boot code, assembly, interrupt controllers, multiprocessor
  tables, serial port and the IDE driver, which program hardware; spin locks, whose effect is the
  atomicity of the steps; the inode and file layers (\<open>fs.c\<close>, \<open>file.c\<close>, \<open>sysfile.c\<close>, \<open>exec.c\<close>,
  \<open>mkfs.c\<close>); system call dispatch and argument fetching; small user programs and the test programs; the
  trace-driven page replacement simulator of project 3 and the semaphore test programs of project 1.
\<close>

end
